(* ===== verification/Prelude.thy ===== *)
theory Prelude
  imports Main "HOL-Library.Word"
begin

text \<open>
  Shared vocabulary of the development: the machine integer types, the outcome of a kernel
  routine, and the generic facts on outcomes, lists and words that the component theories use.

  \<^item> \<open>u32\<close>, \<open>u16\<close>, \<open>u8\<close> are C's \<open>uint\<close>, \<open>ushort\<close> and \<open>uchar\<close> (\<open>types.h\<close>): arithmetic wraps.
  \<^item> \<open>'a res\<close> is what a C routine does when it is called: it returns (\<open>Ok\<close>), it calls \<open>panic\<close> with a
    message (\<open>Panic\<close>), it does something C leaves undefined, such as reading through a null
    pointer or past an array (\<open>Fault\<close>), or it goes to sleep and does not return in this run
    (\<open>Sleep\<close>). A routine that changes a state \<open>'s\<close> has type \<open>'s \<Rightarrow> \<dots> \<Rightarrow> ('a \<times> 's) res\<close>.
  \<^item> \<open>bindR\<close> sequences two routines: everything but \<open>Ok\<close> stops the caller too.
\<close>

unbundle bit_operations_syntax

type_synonym u32 = "32 word"
type_synonym u16 = "16 word"
type_synonym u8 = "8 word"

datatype 'a res = Ok 'a | Panic string | Fault string | Sleep string

primrec bindR :: "'a res \<Rightarrow> ('a \<Rightarrow> 'b res) \<Rightarrow> 'b res" where
  "bindR (Ok x) f = f x"
| "bindR (Panic e) f = Panic e"
| "bindR (Fault e) f = Fault e"
| "bindR (Sleep c) f = Sleep c"

primrec is_Ok :: "'a res \<Rightarrow> bool" where
  "is_Ok (Ok x) = True"
| "is_Ok (Panic e) = False"
| "is_Ok (Fault e) = False"
| "is_Ok (Sleep c) = False"

named_theorems mmu "constants and macros of mmu.h and memlayout.h, unfolded"
named_theorems kdefs "definitions of kernel routines, unfolded together in functional proofs"

subsection \<open>Outcomes\<close>

lemma bindR_cong [fundef_cong]:
  assumes "m = n" and "\<And>x. n = Ok x \<Longrightarrow> f x = g x"
  shows "bindR m f = bindR n g"
  using assms by (cases n) auto

lemma bindR_assoc [simp]: "bindR (bindR m f) g = bindR m (\<lambda>x. bindR (f x) g)"
  by (cases m) simp_all

lemma bindR_Ok_right [simp]: "bindR m Ok = m"
  by (cases m) simp_all

lemma bindR_eq_Ok [simp]: "bindR m f = Ok y \<longleftrightarrow> (\<exists>x. m = Ok x \<and> f x = Ok y)"
  by (cases m) simp_all

lemma Ok_eq_bindR [simp]: "Ok y = bindR m f \<longleftrightarrow> (\<exists>x. m = Ok x \<and> f x = Ok y)"
  by (cases m) auto

lemma bindR_Ok_elim:
  assumes "bindR m f = Ok y"
  obtains x where "m = Ok x" and "f x = Ok y"
  using assms by auto

lemma is_Ok_iff: "is_Ok r \<longleftrightarrow> (\<exists>x. r = Ok x)"
  by (cases r) auto

lemma bindR_split:
  "P (bindR m f) \<longleftrightarrow>
     (\<forall>x. m = Ok x \<longrightarrow> P (f x)) \<and> (\<forall>e. m = Panic e \<longrightarrow> P (Panic e)) \<and>
     (\<forall>e. m = Fault e \<longrightarrow> P (Fault e)) \<and> (\<forall>c. m = Sleep c \<longrightarrow> P (Sleep c))"
  by (cases m) simp_all

subsection \<open>Words\<close>

lemma unat_and_mask [simp]: "unat (w AND mask n :: 'a::len word) = unat w mod 2 ^ n"
  by (simp flip: take_bit_eq_mask add: unsigned_take_bit_eq) (simp add: take_bit_eq_mod)

lemma unat_drop_bit [simp]: "unat (drop_bit n w :: 'a::len word) = unat w div 2 ^ n"
  by (simp only: unat_drop_bit_eq) (simp add: drop_bit_eq_div)

lemma unat_u32_less [simp]: "unat (a :: u32) < 4294967296"
  using unsigned_less [of a] by simp

lemma unat_add_no_wrap:
  "unat (a :: u32) + unat b < 4294967296 \<Longrightarrow> unat (a + b) = unat a + unat b"
  by (simp add: unat_word_ariths)

lemma unat_sub_no_wrap:
  "(b :: 'a::len word) \<le> a \<Longrightarrow> unat (a - b) = unat a - unat b"
  by (simp add: unat_sub)

lemma eq_iff_div_mod: "(x :: nat) = y \<longleftrightarrow> x div k = y div k \<and> x mod k = y mod k"
  by (metis mult_div_mod_eq)

subsection \<open>Lists\<close>

text \<open>Replacing an element by one that scores the same leaves a count unchanged.\<close>

lemma length_filter_list_update:
  "i < length xs \<Longrightarrow>
   length (filter P (xs[i := y])) + (if P (xs ! i) then 1 else 0)
     = length (filter P xs) + (if P y then 1 else 0)"
proof (induction xs arbitrary: i)
  case Nil
  then show ?case by simp
next
  case (Cons x xs)
  show ?case
  proof (cases i)
    case 0
    then show ?thesis by simp
  next
    case (Suc j)
    with Cons.IH [of j] Cons.prems show ?thesis by auto
  qed
qed

end
