(* ===== verification/Mmu.thy ===== *)
theory Mmu
  imports Prelude
begin

text \<open>
  The x86 address and page-table-entry arithmetic of \<open>mmu.h\<close> and the address-space layout of
  \<open>memlayout.h\<close>. Every macro is a definition on 32-bit words with the C expression as its
  right-hand side; the lemmas say what the bit operations mean on numbers (division and
  remainder by the page size), which is what the page-table proofs use.
\<close>

definition EXTMEM :: u32 where [mmu]: "EXTMEM = 0x100000"
definition PHYSTOP :: u32 where [mmu]: "PHYSTOP = 0xE000000"
definition DEVSPACE :: u32 where [mmu]: "DEVSPACE = 0xFE000000"
definition KERNBASE :: u32 where [mmu]: "KERNBASE = 0x80000000"
definition KERNLINK :: u32 where [mmu]: "KERNLINK = KERNBASE + EXTMEM"
definition USERTOP :: u32 where [mmu]: "USERTOP = KERNBASE"
definition SLOT_USABLE :: u32 where [mmu]: "SLOT_USABLE = 0xffffffff"

definition V2P :: "u32 \<Rightarrow> u32" where [mmu]: "V2P a = a - KERNBASE"
definition P2V :: "u32 \<Rightarrow> u32" where [mmu]: "P2V a = a + KERNBASE"

definition PGSIZE :: u32 where [mmu]: "PGSIZE = 4096"
definition PGSHIFT :: nat where [mmu]: "PGSHIFT = 12"
definition PTXSHIFT :: nat where [mmu]: "PTXSHIFT = 12"
definition PDXSHIFT :: nat where [mmu]: "PDXSHIFT = 22"
definition NPDENTRIES :: nat where [mmu]: "NPDENTRIES = 1024"
definition NPTENTRIES :: nat where [mmu]: "NPTENTRIES = 1024"

definition PDX :: "u32 \<Rightarrow> u32" where [mmu]: "PDX va = drop_bit PDXSHIFT va AND 0x3FF"
definition PTX :: "u32 \<Rightarrow> u32" where [mmu]: "PTX va = drop_bit PTXSHIFT va AND 0x3FF"
definition PGADDR :: "u32 \<Rightarrow> u32 \<Rightarrow> u32 \<Rightarrow> u32" where
  [mmu]: "PGADDR d t ofs = push_bit PDXSHIFT d OR push_bit PTXSHIFT t OR ofs"

definition PGROUNDUP :: "u32 \<Rightarrow> u32" where
  [mmu]: "PGROUNDUP sz = (sz + PGSIZE - 1) AND NOT (PGSIZE - 1)"
definition PGROUNDDOWN :: "u32 \<Rightarrow> u32" where
  [mmu]: "PGROUNDDOWN a = a AND NOT (PGSIZE - 1)"

definition PTE_P :: u32 where [mmu]: "PTE_P = 0x001"
definition PTE_W :: u32 where [mmu]: "PTE_W = 0x002"
definition PTE_U :: u32 where [mmu]: "PTE_U = 0x004"
definition PTE_PS :: u32 where [mmu]: "PTE_PS = 0x080"
definition PTE_PG :: u32 where [mmu]: "PTE_PG = 0x200"

definition PTE_ADDR :: "u32 \<Rightarrow> u32" where [mmu]: "PTE_ADDR pte = pte AND NOT 0xFFF"
definition PTE_FLAGS :: "u32 \<Rightarrow> u32" where [mmu]: "PTE_FLAGS pte = pte AND 0xFFF"

text \<open>Page alignment, as \<open>kfree\<close> and \<open>loaduvm\<close> test it (\<open>a % PGSIZE == 0\<close>).\<close>

definition page_aligned :: "u32 \<Rightarrow> bool" where
  "page_aligned a \<longleftrightarrow> a mod PGSIZE = 0"

subsection \<open>The macros as arithmetic\<close>

lemma and_not_0xFFF: "(a :: u32) AND NOT 0xFFF = 4096 * (a div 4096)"
proof -
  have "a AND NOT (mask 12) = push_bit 12 (drop_bit 12 a)"
    by (rule bit_word_eqI) (auto simp: bit_simps)
  then show ?thesis
    by (simp add: mask_eq_exp_minus_1 push_bit_eq_mult drop_bit_eq_div mult.commute)
qed

lemma and_0xFFF: "(a :: u32) AND 0xFFF = a mod 4096"
proof -
  have "a AND mask 12 = take_bit 12 a"
    by (simp add: take_bit_eq_mask)
  then show ?thesis
    by (simp add: mask_eq_exp_minus_1 take_bit_eq_mod)
qed

lemma PTE_ADDR_eq: "PTE_ADDR a = 4096 * (a div 4096)"
  by (simp only: PTE_ADDR_def and_not_0xFFF)

lemma unat_PTE_ADDR: "unat (PTE_ADDR a) = 4096 * (unat a div 4096)"
proof -
  have "unat a div 4096 < 2 ^ 20"
    using unat_u32_less [of a] by (simp add: div_less_iff_less_mult)
  then show ?thesis
    by (simp add: PTE_ADDR_eq unat_word_ariths unat_div)
qed

lemma unat_PTE_FLAGS: "unat (PTE_FLAGS a) = unat a mod 4096"
  by (simp add: PTE_FLAGS_def and_0xFFF unat_mod)

lemma PGROUNDDOWN_eq_PTE_ADDR: "PGROUNDDOWN a = PTE_ADDR a"
  by (simp add: PGROUNDDOWN_def PTE_ADDR_def PGSIZE_def)

lemma page_aligned_unat: "page_aligned a \<longleftrightarrow> unat a mod 4096 = 0"
  by (simp add: page_aligned_def PGSIZE_def word_eq_iff_unsigned unat_mod flip: unat_eq_zero)

lemma page_aligned_iff_PTE_ADDR: "page_aligned a \<longleftrightarrow> PTE_ADDR a = a"
proof
  assume "page_aligned a"
  then have "unat (PTE_ADDR a) = unat a"
    using mult_div_mod_eq [of 4096 "unat a"] by (simp add: unat_PTE_ADDR page_aligned_unat)
  then show "PTE_ADDR a = a" by (simp only: word_unat_eq_iff)
next
  assume "PTE_ADDR a = a"
  then have "unat a = 4096 * (unat a div 4096)" by (metis unat_PTE_ADDR)
  then show "page_aligned a" by (metis page_aligned_unat mod_mult_self1_is_0)
qed

lemma unat_PDX: "unat (PDX va) = unat va div 4194304"
proof -
  have "unat va div 4194304 < 1024"
    using unat_u32_less [of va] by (simp add: div_less_iff_less_mult)
  then show ?thesis
    using unat_and_mask [of "drop_bit 22 va" 10]
    by (simp add: PDX_def PDXSHIFT_def mask_eq_exp_minus_1)
qed

lemma unat_PTX: "unat (PTX va) = unat va div 4096 mod 1024"
  using unat_and_mask [of "drop_bit 12 va" 10]
  by (simp add: PTX_def PTXSHIFT_def mask_eq_exp_minus_1)

lemma PDX_less [simp]: "unat (PDX va) < 1024"
  using unat_u32_less [of va] by (simp add: unat_PDX div_less_iff_less_mult)

lemma PTX_less [simp]: "unat (PTX va) < 1024"
  by (simp add: unat_PTX)

lemma page_aligned_PTE_ADDR [simp]: "page_aligned (PTE_ADDR a)"
  by (simp add: page_aligned_unat unat_PTE_ADDR)

lemma PTE_ADDR_idem [simp]: "PTE_ADDR (PTE_ADDR a) = PTE_ADDR a"
  using page_aligned_PTE_ADDR page_aligned_iff_PTE_ADDR by blast

lemma PTE_FLAGS_PTE_ADDR [simp]: "PTE_FLAGS (PTE_ADDR a) = 0"
  by (simp add: word_unat_eq_iff unat_PTE_FLAGS unat_PTE_ADDR)

lemma PTE_ADDR_add_PTE_FLAGS: "PTE_ADDR a + PTE_FLAGS a = a"
proof -
  have "4096 * (unat a div 4096) + unat a mod 4096 = unat a" by simp
  then have "unat (PTE_ADDR a) + unat (PTE_FLAGS a) = unat a"
    by (simp only: unat_PTE_ADDR unat_PTE_FLAGS)
  then show ?thesis
    by (simp add: word_unat_eq_iff unat_add_no_wrap)
qed

lemma V2P_P2V [simp]: "V2P (P2V a) = a" and P2V_V2P [simp]: "P2V (V2P a) = a"
  by (simp_all add: V2P_def P2V_def)

lemma V2P_eq_iff [simp]: "V2P a = V2P b \<longleftrightarrow> a = b"
  by (simp add: V2P_def)

lemma P2V_eq_iff [simp]: "P2V a = P2V b \<longleftrightarrow> a = b"
  by (simp add: P2V_def)

lemma page_aligned_add:
  assumes "page_aligned b"
  shows "page_aligned (a + b) \<longleftrightarrow> page_aligned a"
proof -
  have "(unat a + unat b) mod 4294967296 mod 4096 = (unat a + unat b) mod 4096"
    by (rule mod_mod_cancel) simp
  also have "\<dots> = unat a mod 4096"
    using assms mod_add_right_eq [of "unat a" "unat b" 4096] by (simp add: page_aligned_unat)
  finally show ?thesis
    by (simp add: page_aligned_unat unat_word_ariths)
qed

lemma page_aligned_add_PGSIZE [simp]: "page_aligned (a + PGSIZE) \<longleftrightarrow> page_aligned a"
  by (rule page_aligned_add) (simp add: page_aligned_def)

lemma page_aligned_V2P [simp]: "page_aligned (V2P a) \<longleftrightarrow> page_aligned a"
proof -
  have "V2P a = a + 0x80000000"
    by (simp add: V2P_def KERNBASE_def diff_conv_add_uminus del: add_uminus_conv_diff)
  then show ?thesis
    using page_aligned_add [of "0x80000000" a] by (simp add: page_aligned_unat)
qed

lemma page_aligned_P2V [simp]: "page_aligned (P2V a) \<longleftrightarrow> page_aligned a"
  by (metis V2P_P2V page_aligned_V2P)

text \<open>Rounding up: the least page boundary that is not below the size, for a size that has one.\<close>

lemma PGROUNDUP_bounds:
  assumes "sz \<le> 0xFFFFF000"
  shows "page_aligned (PGROUNDUP sz) \<and> sz \<le> PGROUNDUP sz \<and> PGROUNDUP sz - sz < PGSIZE"
proof -
  let ?q = "4096 * ((unat sz + 4095) div 4096)"
  have sz: "unat sz \<le> 0xFFFFF000"
    using assms by (simp add: word_le_nat_alt)
  have eq: "PGROUNDUP sz = PTE_ADDR (sz + 4095)"
    by (simp add: PGROUNDUP_def PTE_ADDR_def PGSIZE_def add.commute)
  have "unat (sz + 4095) = unat sz + 4095"
    using sz by (simp add: unat_word_ariths)
  then have u: "unat (PGROUNDUP sz) = ?q"
    by (simp add: eq unat_PTE_ADDR)
  have "?q + (unat sz + 4095) mod 4096 = unat sz + 4095"
    by (rule mult_div_mod_eq)
  moreover have "(unat sz + 4095) mod 4096 < 4096"
    by simp
  ultimately have "unat sz \<le> ?q" and "?q < unat sz + 4096"
    by linarith+
  then show ?thesis
    using u by (simp add: eq word_le_nat_alt word_less_nat_alt unat_sub PGSIZE_def)
qed

subsection \<open>Properties\<close>

text \<open>
  C35. A virtual address is recovered from its page-directory index, its page-table index and
  its offset: \<open>PGADDR\<close> inverts the three-way split that \<open>PDX\<close>, \<open>PTX\<close> and the low bits make.
\<close>

theorem PGADDR_split: "PGADDR (PDX va) (PTX va) (PTE_FLAGS va) = va"
proof -
  have m: "(0x3FF :: u32) = mask 10" "(0xFFF :: u32) = mask 12"
    by (simp_all add: mask_eq_exp_minus_1)
  show ?thesis
    unfolding PGADDR_def PDX_def PTX_def PTE_FLAGS_def PDXSHIFT_def PTXSHIFT_def m
  proof (rule bit_word_eqI)
    fix n :: nat
    consider "n < 12" | "12 \<le> n" "n < 22" | "22 \<le> n" by linarith
    then show "bit (push_bit 22 (drop_bit 22 va AND mask 10) OR
        push_bit 12 (drop_bit 12 va AND mask 10) OR va AND mask 12) n = bit va n"
      if "n < LENGTH(32)"
      using that by cases (auto simp: bit_simps)
  qed
qed

end
