(* ===== verification/Kalloc.thy ===== *)
theory Kalloc
  imports Mmu
begin

text \<open>
  The physical page allocator \<open>kalloc.c\<close>, with the reference counts that copy-on-write adds
  to it, and the page contents it hands out.

  The state \<open>kmem\<close> is the C structure \<open>kmem\<close>, the counter \<open>PhysicalPageTotal\<close>, the linker symbol
  \<open>end\<close> and the physical memory itself: \<open>pmem m pa i\<close> is the \<open>i\<close>-th 32-bit word of the page at
  physical address \<open>pa\<close>. The free list is the linked list the code keeps in the free pages: the
  first word of a free page is the kernel address of the next one (\<open>struct run\<close>).

  \<open>kmem_inv m ps\<close> says that the free list of \<open>m\<close> is the list \<open>ps\<close> of distinct, aligned, allocatable
  pages that nobody references; every operation is specified by what it does to \<open>ps\<close>.
  \<open>page_allocator\<close> is the contract the rest of the kernel relies on when it calls \<open>kalloc\<close>.

  The spin lock \<open>kmem.lock\<close> only brackets the bodies below; each body is one atomic step.
\<close>

record kmem =
  kern_end :: u32
  use_lock :: bool
  freelist :: u32
  PhisicalPageRefCount :: "nat \<Rightarrow> u32"
  PhysicalPageTotal :: int
  pmem :: "u32 \<Rightarrow> nat \<Rightarrow> u32"

definition physicalAddrInvalid :: "kmem \<Rightarrow> u32 \<Rightarrow> bool" where
  "physicalAddrInvalid m physicalAddr \<longleftrightarrow>
     (let PHYSTART = V2P (kern_end m) in physicalAddr < PHYSTART \<or> physicalAddr \<ge> PHYSTOP)"

definition page_idx :: "u32 \<Rightarrow> nat" where
  "page_idx pa = unat (drop_bit PGSHIFT pa)"

text \<open>\<open>memset(v, c, PGSIZE)\<close> on a whole page: \<open>stosl\<close> of the byte repeated four times.\<close>

definition memset_page :: "kmem \<Rightarrow> u32 \<Rightarrow> u32 \<Rightarrow> kmem" where
  "memset_page m v c =
     (let c' = c AND 0xFF;
          w = push_bit 24 c' OR push_bit 16 c' OR push_bit 8 c' OR c'
      in m\<lparr>pmem := (pmem m)(V2P v := (\<lambda>_. w))\<rparr>)"

definition set_word :: "kmem \<Rightarrow> u32 \<Rightarrow> nat \<Rightarrow> u32 \<Rightarrow> kmem" where
  "set_word m v i w = m\<lparr>pmem := (pmem m)(V2P v := (pmem m (V2P v))(i := w))\<rparr>"

definition kfree :: "kmem \<Rightarrow> u32 \<Rightarrow> kmem res" where
  "kfree m v =
     (let physicalAddr = V2P v;
          physicalPageIdx = page_idx physicalAddr;
          addrNoAlignToPage = physicalAddr mod PGSIZE \<noteq> 0;
          addrInvalid = physicalAddrInvalid m physicalAddr
      in if addrNoAlignToPage \<or> addrInvalid then Panic ''kfree''
         else if PhisicalPageRefCount m physicalPageIdx > 0 then
           Ok (m\<lparr>PhisicalPageRefCount := (PhisicalPageRefCount m)
                   (physicalPageIdx := PhisicalPageRefCount m physicalPageIdx - 1)\<rparr>)
         else
           (let m1 = memset_page m v 1;
                m2 = set_word m1 v 0 (freelist m1)
            in Ok (m2\<lparr>freelist := v, PhysicalPageTotal := PhysicalPageTotal m2 - 1\<rparr>)))"

definition kalloc :: "kmem \<Rightarrow> u32 \<times> kmem" where
  "kalloc m =
     (let r = freelist m
      in if r \<noteq> 0 then
           (r, m\<lparr>freelist := pmem m (V2P r) 0,
                 PhisicalPageRefCount := (PhisicalPageRefCount m)(page_idx (V2P r) := 1),
                 PhysicalPageTotal := PhysicalPageTotal m + 1\<rparr>)
         else (r, m))"

definition getPhysicalPageRefCount :: "kmem \<Rightarrow> u32 \<Rightarrow> u32 res" where
  "getPhysicalPageRefCount m physicalAddr =
     (if physicalAddrInvalid m physicalAddr then Panic ''physicalAddr overflow in getPhysicalRefCount''
      else Ok (PhisicalPageRefCount m (page_idx physicalAddr)))"

definition modifyPhysicalPageRefCount :: "kmem \<Rightarrow> u32 \<Rightarrow> u32 \<Rightarrow> kmem res" where
  "modifyPhysicalPageRefCount m physicalAddr delta =
     (if physicalAddrInvalid m physicalAddr
      then Panic ''physicalAddr overflow in _modifyPhysicalPageRefCount''
      else Ok (m\<lparr>PhisicalPageRefCount := (PhisicalPageRefCount m)
                   (page_idx physicalAddr := PhisicalPageRefCount m (page_idx physicalAddr) + delta)\<rparr>))"

definition increasePhysicalPageRefCountByOne :: "kmem \<Rightarrow> u32 \<Rightarrow> kmem res" where
  "increasePhysicalPageRefCountByOne m physicalAddr = modifyPhysicalPageRefCount m physicalAddr 1"

definition decreasePhysicalPageRefCountByOne :: "kmem \<Rightarrow> u32 \<Rightarrow> kmem res" where
  "decreasePhysicalPageRefCountByOne m physicalAddr = modifyPhysicalPageRefCount m physicalAddr (- 1)"

definition GetPhysicalPageTotal :: "kmem \<Rightarrow> int" where
  "GetPhysicalPageTotal m = PhysicalPageTotal m"

text \<open>
  The loop of \<open>freerange\<close>. It stops: a page at or above \<open>PHYSTOP\<close> makes \<open>kfree\<close> panic, so the
  address never wraps around.
\<close>

lemma kfree_Ok_bound:
  assumes "kfree m v = Ok m'"
  shows "0x80000000 \<le> unat v" and "unat v < 0x8E000000"
proof -
  from assms have "V2P v < PHYSTOP"
    by (simp add: kfree_def Let_def physicalAddrInvalid_def not_le split: if_splits)
  then have V: "unat (v - 0x80000000) < 0xE000000"
    by (simp add: V2P_def KERNBASE_def PHYSTOP_def word_less_nat_alt)
  show lo: "0x80000000 \<le> unat v"
  proof (rule ccontr)
    assume "\<not> 0x80000000 \<le> unat v"
    then have "unat (v - 0x80000000) = unat v + 0x80000000"
      by (simp add: unat_sub_if')
    with V show False by simp
  qed
  then have "(0x80000000 :: u32) \<le> v" by (simp add: word_le_nat_alt)
  then have "unat (v - 0x80000000) = unat v - 0x80000000" by (simp add: unat_sub)
  with V show "unat v < 0x8E000000" by simp
qed

function freerange_loop :: "kmem \<Rightarrow> u32 \<Rightarrow> u32 \<Rightarrow> kmem res" where
  "freerange_loop m p vend =
     (if p + PGSIZE \<le> vend then
        (let m1 = m\<lparr>PhisicalPageRefCount := (PhisicalPageRefCount m)(page_idx (V2P p) := 0)\<rparr>
         in bindR (kfree m1 p) (\<lambda>m2. freerange_loop m2 (p + PGSIZE) vend))
      else Ok m)"
  by pat_completeness auto
termination
proof (relation "measure (\<lambda>(m, p, vend). 0x8E000000 - unat p)")
  fix m p vend m1 m2
  assume "kfree m1 p = Ok m2"
  then have "unat p < 0x8E000000" by (rule kfree_Ok_bound)
  then show "((m2, p + PGSIZE, vend), (m, p, vend)) \<in> measure (\<lambda>(m, p, vend). 0x8E000000 - unat p)"
    by (simp add: PGSIZE_def unat_word_ariths)
qed simp

declare freerange_loop.simps [simp del]

definition freerange :: "kmem \<Rightarrow> u32 \<Rightarrow> u32 \<Rightarrow> kmem res" where
  "freerange m vstart vend = freerange_loop m (PGROUNDUP vstart) vend"

definition kinit1 :: "kmem \<Rightarrow> u32 \<Rightarrow> u32 \<Rightarrow> kmem res" where
  "kinit1 m vstart vend = freerange (m\<lparr>use_lock := False\<rparr>) vstart vend"

definition kinit2 :: "kmem \<Rightarrow> u32 \<Rightarrow> u32 \<Rightarrow> kmem res" where
  "kinit2 m vstart vend =
     bindR (freerange m vstart vend) (\<lambda>m. Ok (m\<lparr>use_lock := True, PhysicalPageTotal := 0\<rparr>))"

subsection \<open>The free list as a list\<close>

text \<open>A page the allocator may own: aligned, and between the end of the kernel and \<open>PHYSTOP\<close>.\<close>

definition kpage :: "kmem \<Rightarrow> u32 \<Rightarrow> bool" where
  "kpage m v \<longleftrightarrow> page_aligned v \<and> \<not> physicalAddrInvalid m (V2P v)"

primrec free_chain :: "(u32 \<Rightarrow> nat \<Rightarrow> u32) \<Rightarrow> u32 \<Rightarrow> u32 list \<Rightarrow> bool" where
  "free_chain h p [] \<longleftrightarrow> p = 0"
| "free_chain h p (q # qs) \<longleftrightarrow> p = q \<and> free_chain h (h (V2P q) 0) qs"

definition refs :: "kmem \<Rightarrow> u32 \<Rightarrow> u32" where
  "refs m v = PhisicalPageRefCount m (page_idx (V2P v))"

definition kmem_inv :: "kmem \<Rightarrow> u32 list \<Rightarrow> bool" where
  "kmem_inv m ps \<longleftrightarrow>
     free_chain (pmem m) (freelist m) ps \<and> distinct ps \<and> (\<forall>p \<in> set ps. kpage m p \<and> refs m p = 0)"

subsection \<open>Pages and their indices\<close>

lemma kpage_nonzero: "kpage m v \<Longrightarrow> v \<noteq> 0"
  by (auto simp: kpage_def physicalAddrInvalid_def V2P_def KERNBASE_def PHYSTOP_def Let_def)

lemma page_idx_eq_iff:
  assumes "page_aligned v" and "page_aligned w"
  shows "page_idx (V2P v) = page_idx (V2P w) \<longleftrightarrow> v = w"
proof
  assume "page_idx (V2P v) = page_idx (V2P w)"
  then have "unat (V2P v) div 4096 = unat (V2P w) div 4096"
    by (simp add: page_idx_def PGSHIFT_def)
  moreover have "unat (V2P v) mod 4096 = 0" and "unat (V2P w) mod 4096 = 0"
    using assms by (simp_all flip: page_aligned_unat)
  ultimately have "unat (V2P v) = unat (V2P w)"
    by (metis mult_div_mod_eq)
  then show "v = w" by (simp flip: word_unat_eq_iff)
qed simp

lemma kpage_idx_eq_iff [simp]:
  "kpage m v \<Longrightarrow> kpage m w \<Longrightarrow> page_idx (V2P v) = page_idx (V2P w) \<longleftrightarrow> v = w"
  by (simp add: kpage_def page_idx_eq_iff)

lemma kpage_cong: "kern_end m' = kern_end m \<Longrightarrow> kpage m' v \<longleftrightarrow> kpage m v"
  by (simp add: kpage_def physicalAddrInvalid_def Let_def)

lemma kpage_update [simp]:
  "kpage (m\<lparr>pmem := x\<rparr>) v \<longleftrightarrow> kpage m v" "kpage (m\<lparr>freelist := f\<rparr>) v \<longleftrightarrow> kpage m v"
  "kpage (m\<lparr>PhisicalPageRefCount := r\<rparr>) v \<longleftrightarrow> kpage m v"
  "kpage (m\<lparr>PhysicalPageTotal := t\<rparr>) v \<longleftrightarrow> kpage m v" "kpage (m\<lparr>use_lock := b\<rparr>) v \<longleftrightarrow> kpage m v"
  by (simp_all add: kpage_def physicalAddrInvalid_def Let_def)

lemma refs_update [simp]:
  "refs (m\<lparr>pmem := x\<rparr>) v = refs m v" "refs (m\<lparr>freelist := f\<rparr>) v = refs m v"
  "refs (m\<lparr>PhysicalPageTotal := t\<rparr>) v = refs m v" "refs (m\<lparr>use_lock := b\<rparr>) v = refs m v"
  by (simp_all add: refs_def)

lemma kfree_page_test: "kpage m v \<longleftrightarrow> \<not> (V2P v mod PGSIZE \<noteq> 0 \<or> physicalAddrInvalid m (V2P v))"
  using page_aligned_V2P [of v] by (simp add: kpage_def page_aligned_def)

lemma free_chain_frame:
  assumes "\<forall>q \<in> set qs. h' (V2P q) 0 = h (V2P q) 0"
  shows "free_chain h' p qs \<longleftrightarrow> free_chain h p qs"
  using assms by (induction qs arbitrary: p) auto

lemma free_chain_Nil [simp]: "(\<forall>q \<in> set qs. q \<noteq> 0) \<Longrightarrow> free_chain h 0 qs \<longleftrightarrow> qs = []"
  by (cases qs) auto

text \<open>The list is determined by the state: the invariant names the free list, it does not choose one.\<close>

lemma free_chain_unique:
  assumes "free_chain h p qs" and "free_chain h p rs"
    and "\<forall>q \<in> set qs. q \<noteq> 0" and "\<forall>q \<in> set rs. q \<noteq> 0"
  shows "qs = rs"
  using assms
proof (induction qs arbitrary: p rs)
  case Nil
  then show ?case by (cases rs) auto
next
  case (Cons q qs)
  then show ?case by (cases rs) auto
qed

lemma kmem_inv_unique: "kmem_inv m ps \<Longrightarrow> kmem_inv m qs \<Longrightarrow> ps = qs"
  by (auto simp: kmem_inv_def intro: free_chain_unique dest: kpage_nonzero)

text \<open>Writing to a page that is not free does not change the free list.\<close>

lemma kmem_inv_frame:
  assumes "kmem_inv m ps" and "kern_end m' = kern_end m" and "freelist m' = freelist m"
    and "\<forall>p \<in> set ps. pmem m' (V2P p) = pmem m (V2P p) \<and> refs m' p = refs m p"
  shows "kmem_inv m' ps"
  using assms free_chain_frame [of ps "pmem m'" "pmem m"] kpage_cong [of m' m]
  by (auto simp: kmem_inv_def)

subsection \<open>The operations on the free list\<close>

lemma kalloc_Nil: "kmem_inv m [] \<Longrightarrow> kalloc m = (0, m)"
  by (simp add: kmem_inv_def kalloc_def Let_def)

lemma kalloc_Cons:
  assumes "kmem_inv m (p # ps)"
  shows "kalloc m = (p, m\<lparr>freelist := pmem m (V2P p) 0,
                          PhisicalPageRefCount := (PhisicalPageRefCount m)(page_idx (V2P p) := 1),
                          PhysicalPageTotal := PhysicalPageTotal m + 1\<rparr>)"
  using assms kpage_nonzero [of m p] by (auto simp: kmem_inv_def kalloc_def Let_def)

lemma kalloc_inv:
  assumes "kmem_inv m (p # ps)"
  shows "kmem_inv (snd (kalloc m)) ps"
  using assms by (auto simp: kalloc_Cons [OF assms]) (auto simp: kmem_inv_def refs_def)

lemma kalloc_frame:
  "kern_end (snd (kalloc m)) = kern_end m" "pmem (snd (kalloc m)) = pmem m"
  "use_lock (snd (kalloc m)) = use_lock m"
  by (simp_all add: kalloc_def Let_def)

lemma kfree_shared:
  assumes "kpage m v" and "refs m v > 0"
  shows "kfree m v = Ok (m\<lparr>PhisicalPageRefCount :=
           (PhisicalPageRefCount m)(page_idx (V2P v) := refs m v - 1)\<rparr>)"
  using assms by (simp add: kfree_def Let_def refs_def kfree_page_test)

lemma kfree_shared_inv:
  assumes "kmem_inv m ps" and "kpage m v" and "refs m v > 0" and "kfree m v = Ok m'"
  shows "kmem_inv m' ps \<and> v \<notin> set ps"
proof -
  have v: "v \<notin> set ps" using assms(1,3) by (auto simp: kmem_inv_def)
  have "\<forall>p \<in> set ps. kpage m p" using assms(1) by (simp add: kmem_inv_def)
  with v have "\<forall>p \<in> set ps. page_idx (V2P p) \<noteq> page_idx (V2P v)"
    using assms(2) by auto
  then have "kmem_inv m' ps"
    using assms by (intro kmem_inv_frame [OF assms(1)]) (auto simp: kfree_shared refs_def)
  with v show ?thesis by simp
qed

lemma kfree_last:
  assumes "kmem_inv m ps" and "kpage m v" and "refs m v = 0" and "v \<notin> set ps"
  shows "\<exists>m'. kfree m v = Ok m' \<and> kmem_inv m' (v # ps) \<and>
           PhysicalPageTotal m' = PhysicalPageTotal m - 1 \<and>
           (\<forall>pa. pa \<noteq> V2P v \<longrightarrow> pmem m' pa = pmem m pa) \<and>
           PhisicalPageRefCount m' = PhisicalPageRefCount m \<and> kern_end m' = kern_end m"
proof -
  define m' where "m' = (let m2 = set_word (memset_page m v 1) v 0 (freelist m)
    in m2\<lparr>freelist := v, PhysicalPageTotal := PhysicalPageTotal m2 - 1\<rparr>)"
  have eq: "kfree m v = Ok m'"
    using assms(2,3)
    by (simp add: kfree_def m'_def refs_def kfree_page_test memset_page_def Let_def)
  have "\<forall>p \<in> set ps. pmem m' (V2P p) = pmem m (V2P p)"
    using assms(4) by (auto simp: m'_def set_word_def memset_page_def Let_def)
  then have "kmem_inv m' (v # ps)"
    using assms free_chain_frame [of ps "pmem m'" "pmem m"]
    by (auto simp: kmem_inv_def m'_def set_word_def memset_page_def Let_def refs_def)
  with eq show ?thesis
    by (auto simp: m'_def set_word_def memset_page_def Let_def)
qed

lemma kfree_bad: "\<not> kpage m v \<Longrightarrow> kfree m v = Panic ''kfree''"
  by (simp add: kfree_def Let_def kfree_page_test)

subsection \<open>Filling the free list\<close>

primrec range_pages :: "u32 \<Rightarrow> nat \<Rightarrow> u32 list" where
  "range_pages p 0 = []"
| "range_pages p (Suc n) = p # range_pages (p + PGSIZE) n"

lemma kpage_between:
  assumes "page_aligned p" and "0x80000000 \<le> unat (kern_end m)" and "unat (kern_end m) \<le> unat p"
    and "unat p < 0x8E000000"
  shows "kpage m p"
proof -
  have "unat (V2P p) = unat p - 0x80000000"
    using assms by (simp add: V2P_def KERNBASE_def unat_sub word_le_nat_alt)
  moreover have "unat (V2P (kern_end m)) = unat (kern_end m) - 0x80000000"
    using assms by (simp add: V2P_def KERNBASE_def unat_sub word_le_nat_alt)
  ultimately show ?thesis
    using assms
    by (simp add: kpage_def physicalAddrInvalid_def Let_def PHYSTOP_def word_le_nat_alt
        word_less_nat_alt not_less not_le, arith)
qed

lemma freerange_loop_spec:
  assumes "kmem_inv m ps" and "page_aligned p" and "0x80000000 \<le> unat (kern_end m)"
    and "unat (kern_end m) \<le> unat p" and "unat p + 4096 * n \<le> unat vend"
    and "unat vend < unat p + 4096 * Suc n" and "unat vend \<le> 0x8E000000"
    and "\<forall>q \<in> set ps. unat q < unat p \<or> unat vend \<le> unat q"
  shows "\<exists>m'. freerange_loop m p vend = Ok m' \<and> kmem_inv m' (rev (range_pages p n) @ ps)"
  using assms
proof (induction n arbitrary: m p ps)
  case 0
  then have "\<not> p + PGSIZE \<le> vend"
    by (simp add: word_le_nat_alt PGSIZE_def unat_word_ariths)
  with 0 show ?case by (simp add: freerange_loop.simps)
next
  case (Suc n)
  define m1 where "m1 = m\<lparr>PhisicalPageRefCount := (PhisicalPageRefCount m)(page_idx (V2P p) := 0)\<rparr>"
  have up: "unat (p + PGSIZE) = unat p + 4096"
    using Suc.prems by (simp add: PGSIZE_def unat_word_ariths)
  have kp: "kpage m p"
    using Suc.prems by (intro kpage_between) auto
  have p: "p \<notin> set ps" using Suc.prems by fastforce
  then have "\<forall>q \<in> set ps. page_idx (V2P q) \<noteq> page_idx (V2P p)"
    using Suc.prems(1) kp by (auto simp: kmem_inv_def)
  then have inv1: "kmem_inv m1 ps"
    by (intro kmem_inv_frame [OF Suc.prems(1)]) (auto simp: m1_def refs_def)
  have "kpage m1 p" "refs m1 p = 0"
    using kp by (simp_all add: m1_def refs_def)
  from kfree_last [OF inv1 this p] obtain m2 where
    m2: "kfree m1 p = Ok m2" "kmem_inv m2 (p # ps)" "kern_end m2 = kern_end m"
    by (auto simp: m1_def)
  have "\<exists>m'. freerange_loop m2 (p + PGSIZE) vend = Ok m' \<and>
      kmem_inv m' (rev (range_pages (p + PGSIZE) n) @ (p # ps))"
    using Suc.prems m2 up by (intro Suc.IH) auto
  moreover have "p + PGSIZE \<le> vend"
    using up Suc.prems by (simp add: word_le_nat_alt)
  ultimately show ?case
    using m2(1) by (subst freerange_loop.simps) (simp add: m1_def)
qed

subsection \<open>The contract of the allocator\<close>

text \<open>Allocating \<open>n\<close> times in a row, as the loops that build tables page by page do.\<close>

primrec allocs :: "('s \<Rightarrow> 'p \<times> 's) \<Rightarrow> nat \<Rightarrow> 's \<Rightarrow> 'p list \<times> 's" where
  "allocs alloc 0 s = ([], s)"
| "allocs alloc (Suc n) s =
     (let (p, s1) = alloc s; (ps, s2) = allocs alloc n s1 in (p # ps, s2))"

locale page_allocator =
  fixes alloc :: "'s \<Rightarrow> 'p \<times> 's" and null :: 'p and free_rep :: "'s \<Rightarrow> 'p list \<Rightarrow> bool"
  assumes alloc_empty: "free_rep s [] \<Longrightarrow> alloc s = (null, s)"
    and alloc_hd: "free_rep s (p # ps) \<Longrightarrow> fst (alloc s) = p"
    and alloc_tl: "free_rep s (p # ps) \<Longrightarrow> free_rep (snd (alloc s)) ps"
    and rep_distinct: "free_rep s ps \<Longrightarrow> distinct ps"
    and rep_null: "free_rep s ps \<Longrightarrow> null \<notin> set ps"
    and rep_unique: "free_rep s ps \<Longrightarrow> free_rep s qs \<Longrightarrow> ps = qs"
begin

lemma alloc_null_iff: "free_rep s ps \<Longrightarrow> fst (alloc s) = null \<longleftrightarrow> ps = []"
  using alloc_empty alloc_hd rep_null by (cases ps) force+

lemma alloc_not_free:
  assumes "free_rep s ps" and "free_rep (snd (alloc s)) qs"
  shows "fst (alloc s) \<notin> set qs"
proof (cases ps)
  case Nil
  with assms(1) have "alloc s = (null, s)" using alloc_empty by simp
  then show ?thesis using assms(2) rep_null by simp
next
  case (Cons p ps')
  with assms alloc_tl rep_unique have "qs = ps'" by blast
  moreover have "fst (alloc s) = p" using assms(1) Cons alloc_hd by simp
  ultimately show ?thesis using rep_distinct [OF assms(1)] Cons by auto
qed

lemma allocs_take:
  "free_rep s ps \<Longrightarrow> n \<le> length ps \<Longrightarrow>
   fst (allocs alloc n s) = take n ps \<and> free_rep (snd (allocs alloc n s)) (drop n ps)"
proof (induction n arbitrary: s ps)
  case 0
  then show ?case by simp
next
  case (Suc n)
  then obtain p qs where ps: "ps = p # qs" by (cases ps) auto
  obtain s1 where s1: "alloc s = (p, s1)" and rep: "free_rep s1 qs"
    using alloc_hd alloc_tl Suc.prems(1) ps by (metis prod.collapse)
  have "fst (allocs alloc n s1) = take n qs \<and> free_rep (snd (allocs alloc n s1)) (drop n qs)"
    using Suc.IH [OF rep] Suc.prems(2) ps by simp
  then show ?case by (auto simp: s1 ps split: prod.split)
qed

end

interpretation ka: page_allocator kalloc 0 kmem_inv
proof unfold_locales
  fix s p ps
  show "kmem_inv s [] \<Longrightarrow> kalloc s = (0, s)" by (rule kalloc_Nil)
  show "kmem_inv s (p # ps) \<Longrightarrow> fst (kalloc s) = p" by (simp add: kalloc_Cons)
  show "kmem_inv s (p # ps) \<Longrightarrow> kmem_inv (snd (kalloc s)) ps" by (rule kalloc_inv)
  show "kmem_inv s ps \<Longrightarrow> distinct ps" by (simp add: kmem_inv_def)
  show "kmem_inv s ps \<Longrightarrow> 0 \<notin> set ps" using kpage_nonzero by (auto simp: kmem_inv_def)
  show "kmem_inv s ps \<Longrightarrow> kmem_inv s qs \<Longrightarrow> ps = qs" for qs by (rule kmem_inv_unique)
qed

subsection \<open>Properties\<close>

text \<open>A concrete memory just after the kernel is loaded, before any page is freed.\<close>

definition kmem_boot :: kmem where
  "kmem_boot = \<lparr>kern_end = 0x80101000, use_lock = False, freelist = 0,
     PhisicalPageRefCount = (\<lambda>_. 0), PhysicalPageTotal = 0, pmem = (\<lambda>_ _. 0)\<rparr>"

lemma kmem_boot_inv: "kmem_inv kmem_boot []"
  by (simp add: kmem_inv_def kmem_boot_def)

text \<open>A memory with one free page.\<close>

definition kmem_one :: kmem where
  "kmem_one = kmem_boot\<lparr>freelist := 0x80102000\<rparr>"

lemma kmem_one_inv: "kmem_inv kmem_one [0x80102000]"
  by (simp add: kmem_inv_def kmem_one_def kmem_boot_def kpage_def physicalAddrInvalid_def
      page_aligned_def refs_def mmu Let_def)

text \<open>
  C16. \<open>kalloc\<close> returns 0 and changes nothing exactly when the free list is empty; otherwise it
  returns the first free page, takes it off the list, gives it reference count 1 and counts it
  in \<open>PhysicalPageTotal\<close>, and touches no page's content.
\<close>

theorem kalloc_correct:
  assumes "kmem_inv m ps"
  shows "case ps of
      [] \<Rightarrow> kalloc m = (0, m)
    | p # qs \<Rightarrow> (\<exists>m'. kalloc m = (p, m') \<and> p \<noteq> 0 \<and> p \<notin> set qs \<and> kmem_inv m' qs \<and> refs m' p = 1 \<and>
        PhysicalPageTotal m' = PhysicalPageTotal m + 1 \<and> pmem m' = pmem m)"
proof (cases ps)
  case Nil
  with assms show ?thesis by (simp add: kalloc_Nil)
next
  case (Cons p qs)
  with assms have inv: "kmem_inv m (p # qs)" by simp
  have "p \<noteq> 0" "p \<notin> set qs"
    using ka.rep_null [OF inv] ka.rep_distinct [OF inv] by auto
  moreover have "kmem_inv (snd (kalloc m)) qs" using inv by (rule kalloc_inv)
  ultimately show ?thesis
    using Cons by (simp add: kalloc_Cons [OF inv] refs_def)
qed

theorem kalloc_correct_witness:
  "kmem_inv kmem_one [0x80102000] \<and>
   (\<exists>m'. kalloc kmem_one = (0x80102000, m') \<and> kmem_inv m' [] \<and> refs m' 0x80102000 = 1)"
  using kalloc_correct [OF kmem_one_inv] kmem_one_inv by auto

text \<open>
  C17. \<open>kfree\<close> of an allocatable page that is not free: while somebody else still references the page
  (count above 0) only the count drops; at count 0 the page is put at the front of the free
  list and leaves \<open>PhysicalPageTotal\<close>. Every other page keeps its content and its count. Any
  other address makes it panic.
\<close>

theorem kfree_correct:
  assumes "kmem_inv m ps" and "v \<notin> set ps"
  shows "if kpage m v then
      (\<exists>m'. kfree m v = Ok m' \<and>
        (if refs m v = 0
         then kmem_inv m' (v # ps) \<and> refs m' v = 0 \<and> PhysicalPageTotal m' = PhysicalPageTotal m - 1
         else kmem_inv m' ps \<and> refs m' v = refs m v - 1 \<and> PhysicalPageTotal m' = PhysicalPageTotal m) \<and>
        (\<forall>w. kpage m w \<and> w \<noteq> v \<longrightarrow> refs m' w = refs m w \<and> pmem m' (V2P w) = pmem m (V2P w)))
    else kfree m v = Panic ''kfree''"
proof (cases "kpage m v")
  case False
  then show ?thesis by (simp add: kfree_bad)
next
  case kp: True
  show ?thesis
  proof (cases "refs m v = 0")
    case True
    then obtain m' where "kfree m v = Ok m'" "kmem_inv m' (v # ps)"
      "PhysicalPageTotal m' = PhysicalPageTotal m - 1"
      "\<forall>pa. pa \<noteq> V2P v \<longrightarrow> pmem m' pa = pmem m pa"
      "PhisicalPageRefCount m' = PhisicalPageRefCount m"
      using kfree_last [OF assms(1) kp True assms(2)] by blast
    with kp True show ?thesis by (simp add: refs_def)
  next
    case False
    then have pos: "refs m v > 0" by (simp add: word_gt_0)
    note eq = kfree_shared [OF kp pos]
    have "kmem_inv (m\<lparr>PhisicalPageRefCount :=
        (PhisicalPageRefCount m)(page_idx (V2P v) := refs m v - 1)\<rparr>) ps"
      using kfree_shared_inv [OF assms(1) kp pos eq] by simp
    with kp False eq show ?thesis by (auto simp: refs_def)
  qed
qed

theorem kfree_correct_witness:
  "kmem_inv kmem_boot [] \<and> kpage kmem_boot 0x80102000 \<and>
   (\<exists>m'. kfree kmem_boot 0x80102000 = Ok m' \<and> kmem_inv m' [0x80102000])"
proof -
  have kp: "kpage kmem_boot 0x80102000"
    by (simp add: kpage_def kmem_boot_def physicalAddrInvalid_def page_aligned_def mmu Let_def)
  moreover have "refs kmem_boot 0x80102000 = 0"
    by (simp add: refs_def kmem_boot_def)
  ultimately show ?thesis
    using kfree_correct [OF kmem_boot_inv, of "0x80102000"] kmem_boot_inv by auto
qed

text \<open>
  C18. A page that is allocated and freed once is lost: its count goes from 1 to 0 and it is not
  put back on the free list, so the next \<open>kalloc\<close> cannot return it and \<open>PhysicalPageTotal\<close> still
  counts it. Only a second \<open>kfree\<close> of the same page frees it.
\<close>

theorem kfree_after_kalloc_leaks:
  assumes "kmem_inv m (p # ps)"
  shows "\<exists>m1 m2. kfree (snd (kalloc m)) p = Ok m1 \<and> kmem_inv m1 ps \<and> p \<notin> set ps \<and>
      PhysicalPageTotal m1 = PhysicalPageTotal m + 1 \<and>
      kfree m1 p = Ok m2 \<and> kmem_inv m2 (p # ps) \<and> PhysicalPageTotal m2 = PhysicalPageTotal m"
proof -
  let ?a = "snd (kalloc m)"
  have p: "p \<notin> set ps" using ka.rep_distinct [OF assms] by simp
  have "kpage m p" using assms by (simp add: kmem_inv_def)
  then have kp: "kpage ?a p" using kpage_cong [OF kalloc_frame(1)] by simp
  have one: "refs ?a p = 1" and tot: "PhysicalPageTotal ?a = PhysicalPageTotal m + 1"
    using kalloc_Cons [OF assms] by (simp_all add: refs_def)
  obtain m1 where m1: "kfree ?a p = Ok m1" "kmem_inv m1 ps" and eq: "m1 = ?a\<lparr>PhisicalPageRefCount :=
      (PhisicalPageRefCount ?a)(page_idx (V2P p) := 0)\<rparr>"
    using kfree_shared [OF kp] kfree_shared_inv [OF kalloc_inv [OF assms] kp] one by simp
  have "kpage m1 p" "refs m1 p = 0" using kp by (simp_all add: eq refs_def)
  from kfree_last [OF m1(2) this p] obtain m2 where
    "kfree m1 p = Ok m2" "kmem_inv m2 (p # ps)" "PhysicalPageTotal m2 = PhysicalPageTotal m1 - 1"
    by blast
  with m1 p tot eq show ?thesis by auto
qed

theorem kfree_after_kalloc_leaks_witness:
  "kmem_inv kmem_one [0x80102000] \<and>
   (\<exists>m1. kfree (snd (kalloc kmem_one)) 0x80102000 = Ok m1 \<and> kmem_inv m1 [])"
  using kfree_after_kalloc_leaks [OF kmem_one_inv] kmem_one_inv by auto

text \<open>
  C19. \<open>freerange\<close> ends and leaves on the free list exactly the pages of the range, in front of what was
  there, for a range of allocatable memory that contains no free page.
\<close>

theorem freerange_fills:
  assumes "kmem_inv m ps" and "0x80000000 \<le> unat (kern_end m)"
    and "unat (kern_end m) \<le> unat vstart" and "unat vstart \<le> 0x8E000000"
    and "unat (PGROUNDUP vstart) \<le> unat vend" and "unat vend \<le> 0x8E000000"
    and "\<forall>q \<in> set ps. unat q < unat vstart \<or> unat vend \<le> unat q"
  shows "\<exists>m'. freerange m vstart vend = Ok m' \<and>
      kmem_inv m' (rev (range_pages (PGROUNDUP vstart)
        ((unat vend - unat (PGROUNDUP vstart)) div 4096)) @ ps)"
proof -
  let ?p = "PGROUNDUP vstart" and ?n = "(unat vend - unat (PGROUNDUP vstart)) div 4096"
  have "vstart \<le> 0xFFFFF000" using assms(4) by (simp add: word_le_nat_alt)
  then have up: "page_aligned ?p" "unat vstart \<le> unat ?p"
    using PGROUNDUP_bounds by (auto simp: word_le_nat_alt)
  have "4096 * ?n \<le> unat vend - unat ?p" by simp
  moreover have "unat vend - unat ?p < 4096 * Suc ?n"
    using dividend_less_times_div [of 4096 "unat vend - unat ?p"] by simp
  ultimately show ?thesis
    using assms up unfolding freerange_def
    by (intro freerange_loop_spec) (auto dest: order_less_le_trans)
qed

theorem freerange_fills_witness:
  "\<exists>m'. freerange kmem_boot 0x80101004 0x80104000 = Ok m' \<and> kmem_inv m' [0x80103000, 0x80102000]"
proof -
  have "PGROUNDUP 0x80101004 = 0x80102000" by (simp add: mmu)
  moreover have "range_pages 0x80102000 2 = [0x80102000, 0x80103000]"
    by (simp add: numeral_2_eq_2 PGSIZE_def)
  ultimately show ?thesis
    using freerange_fills [OF kmem_boot_inv, of "0x80101004" "0x80104000"]
    by (simp add: kmem_boot_def)
qed

end
