(* ===== verification/PageTable.thy ===== *)
theory PageTable
  imports Kalloc
begin

text \<open>
  The routines of \<open>vm.c\<close> that only read and write page tables and the pages they map: \<open>walkpgdir\<close>,
  \<open>mappages\<close>, \<open>inituvm\<close>, \<open>clearpteu\<close>, \<open>uva2ka\<close> and \<open>copyout\<close>. Page directories and page tables are
  pages of \<open>pmem\<close>; a pointer to an entry (\<open>pte_t *\<close>) is the pair of the table's kernel address and
  the index into it, and the null pointer is \<open>None\<close>.

  \<open>pte_at m pgdir va\<close> is what the hardware finds when it walks the tables for \<open>va\<close> (0 if there is no
  page table), and \<open>pt_wf m ps pgdir\<close> says that the directory and its page tables are distinct
  allocated pages. The lemmas state each routine by its effect on \<open>pte_at\<close>.
\<close>

type_synonym pte_ptr = "u32 \<times> nat"

definition read_pte :: "kmem \<Rightarrow> pte_ptr \<Rightarrow> u32" where
  "read_pte m p = pmem m (V2P (fst p)) (snd p)"

definition write_pte :: "kmem \<Rightarrow> pte_ptr \<Rightarrow> u32 \<Rightarrow> kmem" where
  "write_pte m p w = set_word m (fst p) (snd p) w"

definition walkpgdir :: "kmem \<Rightarrow> u32 \<Rightarrow> u32 \<Rightarrow> bool \<Rightarrow> pte_ptr option \<times> kmem" where
  "walkpgdir m pgdir va alloc =
     (let pde = (pgdir, unat (PDX va))
      in if read_pte m pde AND PTE_P \<noteq> 0 then
           (let pgtab = P2V (PTE_ADDR (read_pte m pde)) in (Some (pgtab, unat (PTX va)), m))
         else if \<not> alloc then (None, m)
         else
           (let (pgtab, m1) = kalloc m
            in if pgtab = 0 then (None, m1)
               else
                 (let m2 = memset_page m1 pgtab 0;
                      m3 = write_pte m2 pde (V2P pgtab OR PTE_P OR PTE_W OR PTE_U)
                  in (Some (pgtab, unat (PTX va)), m3))))"

text \<open>
  The \<open>for(;;)\<close> loop of \<open>mappages\<close>. The fuel is the number of pages from \<open>a\<close> to \<open>lastp\<close> (\<open>last\<close> in the source);
  \<open>mappages_no_fault\<close> shows that it never runs out.
\<close>

fun mappages_loop :: "nat \<Rightarrow> kmem \<Rightarrow> u32 \<Rightarrow> u32 \<Rightarrow> u32 \<Rightarrow> u32 \<Rightarrow> u32 \<Rightarrow> (int \<times> kmem) res" where
  "mappages_loop 0 m pgdir a lastp pa perm = Fault ''mappages''"
| "mappages_loop (Suc fuel) m pgdir a lastp pa perm =
     (case walkpgdir m pgdir a True of
        (None, m1) \<Rightarrow> Ok (-1, m1)
      | (Some pte, m1) \<Rightarrow>
          if read_pte m1 pte AND PTE_P \<noteq> 0 then Panic ''remap''
          else
            (let m2 = write_pte m1 pte (pa OR perm OR PTE_P)
             in if a = lastp then Ok (0, m2)
                else mappages_loop fuel m2 pgdir (a + PGSIZE) lastp (pa + PGSIZE) perm))"

definition mappages :: "kmem \<Rightarrow> u32 \<Rightarrow> u32 \<Rightarrow> u32 \<Rightarrow> u32 \<Rightarrow> u32 \<Rightarrow> (int \<times> kmem) res" where
  "mappages m pgdir va sz pa perm =
     (let a = PGROUNDDOWN va;
          lastp = PGROUNDDOWN (va + sz - 1)
      in mappages_loop (Suc (unat (drop_bit PGSHIFT (lastp - a)))) m pgdir a lastp pa perm)"

text \<open>Bytes of a page: little-endian within each word, as on x86.\<close>

definition get_byte :: "(nat \<Rightarrow> u32) \<Rightarrow> nat \<Rightarrow> u8" where
  "get_byte pg i = ucast (drop_bit (8 * (i mod 4)) (pg (i div 4)))"

definition put_byte :: "(nat \<Rightarrow> u32) \<Rightarrow> nat \<Rightarrow> u8 \<Rightarrow> (nat \<Rightarrow> u32)" where
  "put_byte pg i b = pg(i div 4 :=
     (pg (i div 4) AND NOT (push_bit (8 * (i mod 4)) 0xFF)) OR push_bit (8 * (i mod 4)) (ucast b))"

primrec put_bytes :: "(nat \<Rightarrow> u32) \<Rightarrow> nat \<Rightarrow> u8 list \<Rightarrow> (nat \<Rightarrow> u32)" where
  "put_bytes pg i [] = pg"
| "put_bytes pg i (b # bs) = put_bytes (put_byte pg i b) (Suc i) bs"

definition get_bytes :: "(nat \<Rightarrow> u32) \<Rightarrow> nat \<Rightarrow> nat \<Rightarrow> u8 list" where
  "get_bytes pg i n = map (get_byte pg) [i ..< i + n]"

text \<open>\<open>memmove(dst, src, n)\<close> of a kernel buffer into the page at \<open>pg\<close>, from byte \<open>ofs\<close>.\<close>

definition write_page :: "kmem \<Rightarrow> u32 \<Rightarrow> nat \<Rightarrow> u8 list \<Rightarrow> kmem" where
  "write_page m pg ofs bs = m\<lparr>pmem := (pmem m)(V2P pg := put_bytes (pmem m (V2P pg)) ofs bs)\<rparr>"

definition inituvm :: "kmem \<Rightarrow> u32 \<Rightarrow> u8 list \<Rightarrow> kmem res" where
  "inituvm m pgdir init =
     (if length init \<ge> unat PGSIZE then Panic ''inituvm: more than a page''
      else
        (let (mem, m1) = kalloc m
         in if mem = 0 then Fault ''inituvm: memset(0)''
            else
              (let m2 = memset_page m1 mem 0
               in bindR (mappages m2 pgdir 0 PGSIZE (V2P mem) (PTE_W OR PTE_U)) (\<lambda>(_, m3).
                    Ok (write_page m3 mem 0 init)))))"

definition clearpteu :: "kmem \<Rightarrow> u32 \<Rightarrow> u32 \<Rightarrow> kmem res" where
  "clearpteu m pgdir uva =
     (case walkpgdir m pgdir uva False of
        (None, _) \<Rightarrow> Panic ''clearpteu''
      | (Some pte, m1) \<Rightarrow> Ok (write_pte m1 pte (read_pte m1 pte AND NOT PTE_U)))"

definition uva2ka :: "kmem \<Rightarrow> u32 \<Rightarrow> u32 \<Rightarrow> u32 res" where
  "uva2ka m pgdir uva =
     (case walkpgdir m pgdir uva False of
        (None, _) \<Rightarrow> Fault ''uva2ka: *pte''
      | (Some pte, _) \<Rightarrow>
          if read_pte m pte AND PTE_P = 0 then Ok 0
          else if read_pte m pte AND PTE_U = 0 then Ok 0
          else Ok (P2V (PTE_ADDR (read_pte m pte))))"

function copyout :: "kmem \<Rightarrow> u32 \<Rightarrow> u32 \<Rightarrow> u8 list \<Rightarrow> (int \<times> kmem) res" where
  "copyout m pgdir va buf =
     (if length buf > 0 then
        (let va0 = PGROUNDDOWN va
         in bindR (uva2ka m pgdir va0) (\<lambda>pa0.
              if pa0 = 0 then Ok (-1, m)
              else
                (let n = unat (PGSIZE - (va - va0));
                     n' = (if n > length buf then length buf else n)
                 in copyout (write_page m pa0 (unat (va - va0)) (take n' buf)) pgdir (va0 + PGSIZE)
                      (drop n' buf))))
      else Ok (0, m))"
  by pat_completeness auto
termination
proof (relation "measure (\<lambda>(m, pgdir, va, buf). length buf)", goal_cases)
  case 1
  then show ?case by simp
next
  case (2 m pgdir va buf va0 pa0 n n')
  have "unat (va - va0) = unat (PTE_FLAGS va)"
    using 2(2) PTE_ADDR_add_PTE_FLAGS [of va]
    by (simp add: PGROUNDDOWN_eq_PTE_ADDR) (metis add_diff_cancel_left')
  then have "unat (va - va0) < 4096"
    by (simp add: unat_PTE_FLAGS)
  then have "va - va0 < 4096"
    by (simp add: word_less_nat_alt)
  then have "PGSIZE - (va - va0) \<noteq> 0"
    by (auto simp: PGSIZE_def)
  then have "0 < n" using 2(5) by (simp add: unat_gt_0)
  then show ?case using 2(1,6) by auto
qed

declare copyout.simps [simp del]

subsection \<open>What the tables map\<close>

definition pde_present :: "kmem \<Rightarrow> u32 \<Rightarrow> nat \<Rightarrow> bool" where
  "pde_present m pgdir i \<longleftrightarrow> pmem m (V2P pgdir) i AND PTE_P \<noteq> 0"

definition pt_tab :: "kmem \<Rightarrow> u32 \<Rightarrow> nat \<Rightarrow> u32" where
  "pt_tab m pgdir i = P2V (PTE_ADDR (pmem m (V2P pgdir) i))"

definition pte_at :: "kmem \<Rightarrow> u32 \<Rightarrow> u32 \<Rightarrow> u32" where
  "pte_at m pgdir va =
     (if pde_present m pgdir (unat (PDX va))
      then pmem m (V2P (pt_tab m pgdir (unat (PDX va)))) (unat (PTX va)) else 0)"

definition pt_pages :: "kmem \<Rightarrow> u32 \<Rightarrow> u32 set" where
  "pt_pages m pgdir = insert pgdir (pt_tab m pgdir ` {i. i < 1024 \<and> pde_present m pgdir i})"

definition pt_wf :: "kmem \<Rightarrow> u32 list \<Rightarrow> u32 \<Rightarrow> bool" where
  "pt_wf m ps pgdir \<longleftrightarrow>
     (\<forall>q \<in> pt_pages m pgdir. kpage m q \<and> q \<notin> set ps) \<and>
     (\<forall>i < 1024. pde_present m pgdir i \<longrightarrow> pt_tab m pgdir i \<noteq> pgdir) \<and>
     (\<forall>i < 1024. \<forall>j < 1024. pde_present m pgdir i \<and> pde_present m pgdir j \<and>
        pt_tab m pgdir i = pt_tab m pgdir j \<longrightarrow> i = j)"

text \<open>
  How a routine that adds page tables to \<open>pgdir\<close> changes memory: it takes some pages off the front
  of the free list, writes only those and the tables of \<open>pgdir\<close>, and keeps every count.
\<close>

definition pt_grow :: "u32 \<Rightarrow> kmem \<Rightarrow> u32 list \<Rightarrow> kmem \<Rightarrow> u32 list \<Rightarrow> bool" where
  "pt_grow pgdir m ps m' qs \<longleftrightarrow>
     kmem_inv m' qs \<and> pt_wf m' qs pgdir \<and> kern_end m' = kern_end m \<and>
     (\<exists>us. ps = us @ qs \<and> pt_pages m' pgdir = pt_pages m pgdir \<union> set us \<and>
       (\<forall>v. v \<notin> set us \<and> v \<notin> pt_pages m pgdir \<longrightarrow> pmem m' (V2P v) = pmem m (V2P v)) \<and>
       (\<forall>v. kpage m v \<and> v \<notin> set us \<longrightarrow> refs m' v = refs m v))"

subsection \<open>Bits of page-table entries\<close>

lemma PTE_ADDR_or:
  assumes "page_aligned a" and "f AND NOT 0xFFF = 0"
  shows "PTE_ADDR (a OR f) = a"
proof -
  have "(a OR f) AND NOT 0xFFF = (a AND NOT 0xFFF) OR (f AND NOT 0xFFF)"
    by (rule bit.conj_disj_distrib2)
  then show ?thesis
    using assms by (simp only: PTE_ADDR_def page_aligned_iff_PTE_ADDR or.right_neutral)
qed

lemma PTE_FLAGS_or:
  assumes "page_aligned a" and "f AND NOT 0xFFF = 0"
  shows "PTE_FLAGS (a OR f) = f"
proof -
  have a: "a AND 0xFFF = 0"
    using assms(1) by (simp add: page_aligned_unat and_0xFFF word_unat_eq_iff unat_mod)
  have "f = (f AND 0xFFF) OR (f AND NOT 0xFFF)"
    by (metis bit.conj_disj_distrib bit.disj_cancel_right bit.conj_one_right)
  with assms(2) have f: "f AND 0xFFF = f" by simp
  have "(a OR f) AND 0xFFF = (a AND 0xFFF) OR (f AND 0xFFF)"
    by (rule bit.conj_disj_distrib2)
  with a f show ?thesis by (simp add: PTE_FLAGS_def)
qed

lemma or_PTE_P_present [simp]: "(w OR PTE_P) AND PTE_P \<noteq> 0"
proof
  assume "(w OR PTE_P) AND PTE_P = 0"
  then have "bit ((w OR PTE_P) AND PTE_P) 0 = bit (0 :: u32) 0" by simp
  then show False by (simp add: bit_simps PTE_P_def)
qed

lemma new_pde_present [simp]: "(w OR PTE_P OR PTE_W OR PTE_U) AND PTE_P \<noteq> 0"
  using or_PTE_P_present [of "w OR PTE_W OR PTE_U"] by (simp add: or.commute or.left_commute or.assoc)

lemma new_pde_addr [simp]: "page_aligned a \<Longrightarrow> PTE_ADDR (a OR PTE_P OR PTE_W OR PTE_U) = a"
  by (rule PTE_ADDR_or) (simp_all add: mmu)

lemma same_page_iff:
  "unat (PDX va) = unat (PDX va') \<and> unat (PTX va) = unat (PTX va') \<longleftrightarrow> PTE_ADDR va = PTE_ADDR va'"
proof -
  have "PTE_ADDR va = PTE_ADDR va' \<longleftrightarrow> unat va div 4096 = unat va' div 4096"
    by (simp add: word_unat_eq_iff unat_PTE_ADDR)
  also have "\<dots> \<longleftrightarrow> unat va div 4194304 = unat va' div 4194304 \<and>
      unat va div 4096 mod 1024 = unat va' div 4096 mod 1024"
    using eq_iff_div_mod [of "unat va div 4096" "unat va' div 4096" 1024]
    by (simp flip: div_mult2_eq)
  finally show ?thesis by (simp add: unat_PDX unat_PTX)
qed

subsection \<open>Walking and extending the tables\<close>

lemma pt_pagesI [intro]:
  "pgdir \<in> pt_pages m pgdir"
  "i < 1024 \<Longrightarrow> pde_present m pgdir i \<Longrightarrow> pt_tab m pgdir i \<in> pt_pages m pgdir"
  by (auto simp: pt_pages_def)

lemma pt_wfD:
  assumes "pt_wf m ps pgdir"
  shows "q \<in> pt_pages m pgdir \<Longrightarrow> kpage m q" and "q \<in> pt_pages m pgdir \<Longrightarrow> q \<notin> set ps"
    and "i < 1024 \<Longrightarrow> pde_present m pgdir i \<Longrightarrow> pt_tab m pgdir i \<noteq> pgdir"
    and "i < 1024 \<Longrightarrow> j < 1024 \<Longrightarrow> pde_present m pgdir i \<Longrightarrow> pde_present m pgdir j \<Longrightarrow>
      pt_tab m pgdir i = pt_tab m pgdir j \<Longrightarrow> i = j"
  using assms by (auto simp: pt_wf_def)

lemma pt_grow_refl: "kmem_inv m ps \<Longrightarrow> pt_wf m ps pgdir \<Longrightarrow> pt_grow pgdir m ps m ps"
  by (auto simp: pt_grow_def)

lemma pt_grow_trans:
  assumes "pt_grow pgdir m ps m1 qs" and "pt_grow pgdir m1 qs m2 rs"
  shows "pt_grow pgdir m ps m2 rs"
proof -
  obtain us where us: "ps = us @ qs" "pt_pages m1 pgdir = pt_pages m pgdir \<union> set us"
    "\<forall>v. v \<notin> set us \<and> v \<notin> pt_pages m pgdir \<longrightarrow> pmem m1 (V2P v) = pmem m (V2P v)"
    "\<forall>v. kpage m v \<and> v \<notin> set us \<longrightarrow> refs m1 v = refs m v"
    and k1: "kern_end m1 = kern_end m"
    using assms(1) by (auto simp: pt_grow_def)
  obtain vs where vs: "qs = vs @ rs" "pt_pages m2 pgdir = pt_pages m1 pgdir \<union> set vs"
    "\<forall>v. v \<notin> set vs \<and> v \<notin> pt_pages m1 pgdir \<longrightarrow> pmem m2 (V2P v) = pmem m1 (V2P v)"
    "\<forall>v. kpage m1 v \<and> v \<notin> set vs \<longrightarrow> refs m2 v = refs m1 v"
    and inv: "kmem_inv m2 rs" "pt_wf m2 rs pgdir" "kern_end m2 = kern_end m1"
    using assms(2) by (auto simp: pt_grow_def)
  have "ps = (us @ vs) @ rs" "pt_pages m2 pgdir = pt_pages m pgdir \<union> set (us @ vs)"
    using us vs by auto
  moreover have "\<forall>v. v \<notin> set (us @ vs) \<and> v \<notin> pt_pages m pgdir \<longrightarrow> pmem m2 (V2P v) = pmem m (V2P v)"
    using us vs by simp
  moreover have "\<forall>v. kpage m v \<and> v \<notin> set (us @ vs) \<longrightarrow> refs m2 v = refs m v"
    using us vs kpage_cong [OF k1] by simp
  moreover have "kern_end m2 = kern_end m" using inv k1 by simp
  ultimately show ?thesis
    using inv(1,2) unfolding pt_grow_def by (intro conjI exI [of _ "us @ vs"]) simp_all
qed

lemma walkpgdir_present:
  "pde_present m pgdir (unat (PDX va)) \<Longrightarrow>
   walkpgdir m pgdir va alloc = (Some (pt_tab m pgdir (unat (PDX va)), unat (PTX va)), m)"
  by (simp add: walkpgdir_def read_pte_def pde_present_def pt_tab_def Let_def)

lemma walkpgdir_absent:
  "\<not> pde_present m pgdir (unat (PDX va)) \<Longrightarrow> walkpgdir m pgdir va False = (None, m)"
  by (simp add: walkpgdir_def read_pte_def pde_present_def Let_def)

lemma walkpgdir_full:
  "\<not> pde_present m pgdir (unat (PDX va)) \<Longrightarrow> kmem_inv m [] \<Longrightarrow> walkpgdir m pgdir va True = (None, m)"
  by (simp add: walkpgdir_def read_pte_def pde_present_def Let_def kalloc_Nil)

lemma walkpgdir_alloc:
  assumes inv: "kmem_inv m (p # qs)" and wf: "pt_wf m (p # qs) pgdir"
    and absent: "\<not> pde_present m pgdir (unat (PDX va))"
  shows "\<exists>m'. walkpgdir m pgdir va True = (Some (p, unat (PTX va)), m') \<and>
      pt_grow pgdir m (p # qs) m' qs \<and> (\<forall>va'. pte_at m' pgdir va' = pte_at m pgdir va') \<and>
      pde_present m' pgdir (unat (PDX va)) \<and> pt_tab m' pgdir (unat (PDX va)) = p"
proof -
  let ?i = "unat (PDX va)"
  define m3 where "m3 = write_pte (memset_page (snd (kalloc m)) p 0) (pgdir, ?i)
    (V2P p OR PTE_P OR PTE_W OR PTE_U)"
  have p: "kpage m p" "p \<noteq> 0" "p \<noteq> pgdir" "p \<notin> set qs"
    using inv pt_wfD(2) [OF wf, of pgdir] ka.rep_null [OF inv] ka.rep_distinct [OF inv]
    by (auto simp: kmem_inv_def)
  have mem: "pmem m3 = (pmem m)(V2P p := (\<lambda>_. 0),
      V2P pgdir := (pmem m (V2P pgdir))(?i := V2P p OR PTE_P OR PTE_W OR PTE_U))"
    using p by (simp add: m3_def write_pte_def set_word_def memset_page_def Let_def kalloc_frame)
  have al: "page_aligned (V2P p)" using p by (simp add: kpage_def)
  have pres: "pde_present m3 pgdir j \<longleftrightarrow> j = ?i \<or> pde_present m pgdir j" for j
    using p by (simp add: pde_present_def mem)
  have tab: "pt_tab m3 pgdir j = (if j = ?i then p else pt_tab m pgdir j)" for j
    using al p by (simp add: pt_tab_def mem)
  have pages: "pt_pages m3 pgdir = pt_pages m pgdir \<union> {p}"
    using absent by (auto simp: pt_pages_def pres tab)
  have notp: "q \<in> pt_pages m pgdir \<Longrightarrow> q \<noteq> p \<and> q \<notin> set qs" for q
    using pt_wfD(2) [OF wf] by auto
  have ke: "kern_end m3 = kern_end m"
    by (simp add: m3_def write_pte_def set_word_def memset_page_def Let_def kalloc_frame)
  have refs3: "refs m3 v = refs (snd (kalloc m)) v" for v
    by (simp add: m3_def write_pte_def set_word_def memset_page_def Let_def refs_def)
  have refs3': "kpage m v \<Longrightarrow> v \<noteq> p \<Longrightarrow> refs m3 v = refs m v" for v
    using p by (subst refs3) (auto simp: refs_def kalloc_Cons [OF inv])
  have inv3: "kmem_inv m3 qs"
  proof (rule kmem_inv_frame [OF kalloc_inv [OF inv]])
    show "\<forall>q \<in> set qs. pmem m3 (V2P q) = pmem (snd (kalloc m)) (V2P q) \<and> refs m3 q = refs (snd (kalloc m)) q"
      using p pt_wfD(2) [OF wf, of pgdir] by (auto simp: mem kalloc_frame refs3)
  qed (simp_all add: m3_def write_pte_def set_word_def memset_page_def Let_def kalloc_frame)
  have wf3: "pt_wf m3 qs pgdir"
    unfolding pt_wf_def
  proof (intro conjI)
    show "\<forall>q \<in> pt_pages m3 pgdir. kpage m3 q \<and> q \<notin> set qs"
      using p notp pt_wfD(1) [OF wf] kpage_cong [OF ke] by (auto simp: pages)
    show "\<forall>j < 1024. pde_present m3 pgdir j \<longrightarrow> pt_tab m3 pgdir j \<noteq> pgdir"
      using p pt_wfD(3) [OF wf] by (auto simp: pres tab)
    show "\<forall>j < 1024. \<forall>k < 1024. pde_present m3 pgdir j \<and> pde_present m3 pgdir k \<and>
        pt_tab m3 pgdir j = pt_tab m3 pgdir k \<longrightarrow> j = k"
      using notp pt_wfD(4) [OF wf] absent by (auto simp: pres tab split: if_splits)
  qed
  have "pte_at m3 pgdir va' = pte_at m pgdir va'" for va'
  proof (cases "unat (PDX va') = ?i")
    case True
    then show ?thesis using absent p by (simp add: pte_at_def pres tab mem)
  next
    case False
    have "pde_present m pgdir (unat (PDX va')) \<Longrightarrow>
        pt_tab m pgdir (unat (PDX va')) \<noteq> p \<and> pt_tab m pgdir (unat (PDX va')) \<noteq> pgdir"
      using notp [OF pt_pagesI(2) [of "unat (PDX va')"]] pt_wfD(3) [OF wf] by simp
    with False show ?thesis by (auto simp: pte_at_def pres tab mem)
  qed
  moreover have "walkpgdir m pgdir va True = (Some (p, unat (PTX va)), m3)"
    using absent p
    by (simp add: walkpgdir_def read_pte_def pde_present_def m3_def Let_def kalloc_Cons [OF inv])
  moreover have "pt_grow pgdir m (p # qs) m3 qs"
    unfolding pt_grow_def using inv3 wf3 ke pages refs3' by (auto simp: mem intro!: exI [of _ "[p]"])
  ultimately show ?thesis by (auto simp: pres tab)
qed

lemma write_pte_grow:
  assumes inv: "kmem_inv m ps" and wf: "pt_wf m ps pgdir"
    and pres: "pde_present m pgdir (unat (PDX va))"
    and m': "m' = write_pte m (pt_tab m pgdir (unat (PDX va)), unat (PTX va)) w"
  shows "pt_grow pgdir m ps m' ps"
    and "pte_at m' pgdir va' = (if PTE_ADDR va' = PTE_ADDR va then w else pte_at m pgdir va')"
proof -
  let ?t = "pt_tab m pgdir (unat (PDX va))"
  have t: "?t \<in> pt_pages m pgdir" "?t \<noteq> pgdir"
    using pres pt_wfD(3) [OF wf] by auto
  have mem: "pmem m' = (pmem m)(V2P ?t := (pmem m (V2P ?t))(unat (PTX va) := w))"
    by (simp add: m' write_pte_def set_word_def)
  have dir: "pmem m' (V2P pgdir) = pmem m (V2P pgdir)" using t by (simp add: mem)
  have same: "pde_present m' pgdir = pde_present m pgdir" "pt_tab m' pgdir = pt_tab m pgdir"
    by (simp_all add: fun_eq_iff pde_present_def pt_tab_def dir)
  then have pages: "pt_pages m' pgdir = pt_pages m pgdir" by (simp add: pt_pages_def)
  have ke: "kern_end m' = kern_end m" and rf: "refs m' v = refs m v" for v
    by (simp_all add: m' write_pte_def set_word_def refs_def)
  have "?t \<notin> set ps" using t pt_wfD(2) [OF wf] by blast
  then have "kmem_inv m' ps"
    by (intro kmem_inv_frame [OF inv]) (auto simp: mem rf m' write_pte_def set_word_def)
  moreover have "pt_wf m' ps pgdir"
    using wf kpage_cong [OF ke] unfolding pt_wf_def same pages by simp
  ultimately show "pt_grow pgdir m ps m' ps"
    unfolding pt_grow_def using ke rf pages t by (auto simp: mem)
  show "pte_at m' pgdir va' = (if PTE_ADDR va' = PTE_ADDR va then w else pte_at m pgdir va')"
  proof (cases "unat (PDX va') = unat (PDX va)")
    case True
    then show ?thesis
      using pres same_page_iff [of va' va] by (auto simp: pte_at_def same mem)
  next
    case False
    then have "pde_present m pgdir (unat (PDX va')) \<Longrightarrow> pt_tab m pgdir (unat (PDX va')) \<noteq> ?t"
      using pt_wfD(4) [OF wf _ _ _ pres] by (metis PDX_less)
    with False show ?thesis
      using same_page_iff [of va' va] by (auto simp: pte_at_def same mem)
  qed
qed

text \<open>The pages a loop starting at \<open>a\<close> visits.\<close>

definition nth_page :: "u32 \<Rightarrow> nat \<Rightarrow> u32" where
  "nth_page a i = a + of_nat i * PGSIZE"

lemma unat_nth_page: "unat a + 4096 * i < 4294967296 \<Longrightarrow> unat (nth_page a i) = unat a + 4096 * i"
  by (simp add: nth_page_def PGSIZE_def unat_word_ariths unat_of_nat mod_less)

lemma nth_page_0 [simp]: "nth_page a 0 = a"
  by (simp add: nth_page_def)

lemma nth_page_Suc: "nth_page a (Suc i) = nth_page (a + PGSIZE) i"
  by (simp add: nth_page_def algebra_simps)

text \<open>One page: \<open>walkpgdir\<close> with allocation, then the entry is written.\<close>

lemma map_one_page:
  assumes inv: "kmem_inv m ps" and wf: "pt_wf m ps pgdir"
  obtains (full) m' where "walkpgdir m pgdir a True = (None, m')" "m' = m" "ps = []"
    | (ok) pte m1 qs where "walkpgdir m pgdir a True = (Some pte, m1)" "read_pte m1 pte = pte_at m pgdir a"
      "\<And>w. pt_grow pgdir m ps (write_pte m1 pte w) qs"
      "\<And>w va'. pte_at (write_pte m1 pte w) pgdir va' =
         (if PTE_ADDR va' = PTE_ADDR a then w else pte_at m pgdir va')"
proof (cases "pde_present m pgdir (unat (PDX a))")
  case True
  show ?thesis
    using True write_pte_grow [OF inv wf True refl]
    by (intro ok [OF walkpgdir_present [OF True]]) (auto simp: read_pte_def pte_at_def)
next
  case False
  show ?thesis
  proof (cases ps)
    case Nil
    with inv False show ?thesis using full walkpgdir_full by blast
  next
    case (Cons p qs)
    obtain m1 where m1: "walkpgdir m pgdir a True = (Some (p, unat (PTX a)), m1)"
      "pt_grow pgdir m (p # qs) m1 qs" "\<forall>va'. pte_at m1 pgdir va' = pte_at m pgdir va'"
      "pde_present m1 pgdir (unat (PDX a))" "pt_tab m1 pgdir (unat (PDX a)) = p"
      using walkpgdir_alloc inv wf False Cons by blast
    have inv1: "kmem_inv m1 qs" "pt_wf m1 qs pgdir"
      using m1(2) by (simp_all add: pt_grow_def)
    have "pt_grow pgdir m ps (write_pte m1 (p, unat (PTX a)) w) qs" for w
      using pt_grow_trans [OF m1(2) write_pte_grow(1) [OF inv1 m1(4) refl]] m1(5) Cons by simp
    moreover have "pte_at (write_pte m1 (p, unat (PTX a)) w) pgdir va' =
         (if PTE_ADDR va' = PTE_ADDR a then w else pte_at m pgdir va')" for w va'
      using write_pte_grow(2) [OF inv1 m1(4) refl] m1(3,5) by simp
    moreover have "read_pte m1 (p, unat (PTX a)) = pte_at m pgdir a"
      using m1(3) [rule_format, of a, symmetric] m1(4,5) by (simp add: read_pte_def pte_at_def)
    ultimately show ?thesis using ok [OF m1(1)] by blast
  qed
qed

definition pages_mapped :: "u32 \<Rightarrow> kmem \<Rightarrow> kmem \<Rightarrow> u32 \<Rightarrow> nat \<Rightarrow> u32 \<Rightarrow> u32 \<Rightarrow> bool" where
  "pages_mapped pgdir m m' a n pa perm \<longleftrightarrow>
     (\<forall>i va. i \<le> n \<and> PTE_ADDR va = nth_page a i \<longrightarrow> pte_at m' pgdir va = nth_page pa i OR perm OR PTE_P)"

definition pages_kept :: "u32 \<Rightarrow> kmem \<Rightarrow> kmem \<Rightarrow> u32 \<Rightarrow> nat \<Rightarrow> bool" where
  "pages_kept pgdir m m' a n \<longleftrightarrow>
     (\<forall>va. (\<forall>i \<le> n. PTE_ADDR va \<noteq> nth_page a i) \<longrightarrow> pte_at m' pgdir va = pte_at m pgdir va)"

lemma all_le_Suc: "(\<forall>i \<le> Suc n. P i) \<longleftrightarrow> P 0 \<and> (\<forall>i \<le> n. P (Suc i))"
  by (metis Suc_le_mono le0 not0_implies_Suc)

declare mappages_loop.simps [simp del]

lemmas mappages_loop_unfold = mappages_loop.simps(2) [unfolded Let_def]

lemma mappages_loop_spec:
  assumes "kmem_inv m ps" and "pt_wf m ps pgdir" and "page_aligned a"
    and "unat a + 4096 * n < 4294967296" and "lastp = nth_page a n"
    and "\<forall>i \<le> n. pte_at m pgdir (nth_page a i) AND PTE_P = 0"
  shows "\<exists>r m' qs. mappages_loop (Suc n) m pgdir a lastp pa perm = Ok (r, m') \<and>
      pt_grow pgdir m ps m' qs \<and> pages_kept pgdir m m' a n \<and>
      (r = 0 \<and> pages_mapped pgdir m m' a n pa perm \<or> r = -1 \<and> qs = [])"
  using assms
proof (induction n arbitrary: m ps a pa)
  case 0
  have free: "pte_at m pgdir a AND PTE_P = 0" using "0.prems" by simp
  have al: "PTE_ADDR a = a" using "0.prems" by (simp add: page_aligned_iff_PTE_ADDR)
  from "0.prems"(1,2) show ?case
  proof (cases rule: map_one_page [where a = a])
    case full
    then have "mappages_loop (Suc 0) m pgdir a lastp pa perm = Ok (-1, m)" by (simp add: mappages_loop_unfold)
    then show ?thesis
      using full "0.prems" pt_grow_refl by (auto simp: pages_kept_def)
  next
    case (ok pte m1 qs)
    then have "mappages_loop (Suc 0) m pgdir a lastp pa perm =
        Ok (0, write_pte m1 pte (pa OR perm OR PTE_P))"
      using free "0.prems" by (simp add: mappages_loop_unfold)
    moreover have "pages_mapped pgdir m (write_pte m1 pte (pa OR perm OR PTE_P)) a 0 pa perm"
      and "pages_kept pgdir m (write_pte m1 pte (pa OR perm OR PTE_P)) a 0"
      using ok(4) al by (auto simp: pages_mapped_def pages_kept_def)
    ultimately show ?thesis using ok(3) by blast
  qed
next
  case (Suc n)
  have free: "pte_at m pgdir a AND PTE_P = 0"
    and free': "\<forall>i \<le> n. pte_at m pgdir (nth_page (a + PGSIZE) i) AND PTE_P = 0"
    using Suc.prems(6) by (simp_all add: all_le_Suc nth_page_Suc)
  have al: "PTE_ADDR a = a" using Suc.prems by (simp add: page_aligned_iff_PTE_ADDR)
  have up: "unat (a + PGSIZE) = unat a + 4096"
    using Suc.prems(4) by (simp add: PGSIZE_def unat_word_ariths)
  have later: "nth_page (a + PGSIZE) i \<noteq> a" and al': "PTE_ADDR (nth_page (a + PGSIZE) i) = nth_page (a + PGSIZE) i"
    if "i \<le> n" for i
  proof -
    have u: "unat (nth_page (a + PGSIZE) i) = unat a + 4096 + 4096 * i"
      using that up Suc.prems(4) by (simp add: unat_nth_page)
    then show "nth_page (a + PGSIZE) i \<noteq> a" by (auto simp: word_unat_eq_iff)
    have "unat a mod 4096 = 0" using Suc.prems(3) by (simp add: page_aligned_unat)
    then have "unat (nth_page (a + PGSIZE) i) mod 4096 = 0" using u by simp
    then show "PTE_ADDR (nth_page (a + PGSIZE) i) = nth_page (a + PGSIZE) i"
      by (simp flip: page_aligned_iff_PTE_ADDR add: page_aligned_unat)
  qed
  from Suc.prems(1,2) show ?case
  proof (cases rule: map_one_page [where a = a])
    case full
    then have "mappages_loop (Suc (Suc n)) m pgdir a lastp pa perm = Ok (-1, m)" by (simp add: mappages_loop_unfold)
    then show ?thesis
      using full Suc.prems pt_grow_refl by (auto simp: pages_kept_def)
  next
    case (ok pte m1 qs)
    let ?m2 = "write_pte m1 pte (pa OR perm OR PTE_P)"
    have "lastp \<noteq> a" using later [of n] Suc.prems(5) by (simp add: nth_page_Suc)
    then have step: "mappages_loop (Suc (Suc n)) m pgdir a lastp pa perm =
        mappages_loop (Suc n) ?m2 pgdir (a + PGSIZE) lastp (pa + PGSIZE) perm"
      using free ok(1,2) by (simp add: mappages_loop_unfold [of "Suc n"])
    have inv2: "kmem_inv ?m2 qs" "pt_wf ?m2 qs pgdir" using ok(3) by (simp_all add: pt_grow_def)
    have free2: "\<forall>i \<le> n. pte_at ?m2 pgdir (nth_page (a + PGSIZE) i) AND PTE_P = 0"
      using free' later al' al ok(4) by simp
    have "page_aligned (a + PGSIZE)" "unat (a + PGSIZE) + 4096 * n < 4294967296"
      "lastp = nth_page (a + PGSIZE) n"
      using Suc.prems(3-5) up by (simp_all add: page_aligned_unat nth_page_Suc)
    from Suc.IH [OF inv2 this free2] obtain r m' rs where
      rec: "mappages_loop (Suc n) ?m2 pgdir (a + PGSIZE) lastp (pa + PGSIZE) perm = Ok (r, m')"
      and g: "pt_grow pgdir ?m2 qs m' rs" and kept: "pages_kept pgdir ?m2 m' (a + PGSIZE) n"
      and res: "r = 0 \<and> pages_mapped pgdir ?m2 m' (a + PGSIZE) n (pa + PGSIZE) perm \<or> r = -1 \<and> rs = []"
      by blast
    have "pages_kept pgdir m m' a (Suc n)"
      using kept ok(4) al unfolding pages_kept_def by (auto simp: all_le_Suc nth_page_Suc)
    moreover have "pages_mapped pgdir m m' a (Suc n) pa perm"
      if "pages_mapped pgdir ?m2 m' (a + PGSIZE) n (pa + PGSIZE) perm"
    proof -
      have "pte_at m' pgdir va = pa OR perm OR PTE_P" if va: "PTE_ADDR va = a" for va
      proof -
        have "\<forall>i \<le> n. PTE_ADDR va \<noteq> nth_page (a + PGSIZE) i" using later va by metis
        then have "pte_at m' pgdir va = pte_at ?m2 pgdir va"
          using kept by (simp add: pages_kept_def)
        then show ?thesis using ok(4) al va by simp
      qed
      moreover have "pte_at m' pgdir va = nth_page (pa + PGSIZE) i OR perm OR PTE_P"
        if "i \<le> n" "PTE_ADDR va = nth_page (a + PGSIZE) i" for va i
        using that \<open>pages_mapped pgdir ?m2 m' _ n _ perm\<close> by (simp add: pages_mapped_def)
      ultimately show ?thesis
        unfolding pages_mapped_def
        by (metis Suc_le_mono nth_page_0 nth_page_Suc not0_implies_Suc)
    qed
    ultimately show ?thesis
      using step rec pt_grow_trans [OF ok(3) g] res by auto
  qed
qed

text \<open>The loop bound of \<open>mappages\<close>: a nonempty range inside the address space spans \<open>Suc (map_span va sz)\<close> pages.\<close>

definition map_span :: "u32 \<Rightarrow> u32 \<Rightarrow> nat" where
  "map_span va sz = unat (drop_bit PGSHIFT (PGROUNDDOWN (va + sz - 1) - PGROUNDDOWN va))"

lemma map_span_nth_page:
  assumes "0 < sz" and "unat va + unat sz \<le> 4294967296"
  shows "PGROUNDDOWN (va + sz - 1) = nth_page (PGROUNDDOWN va) (map_span va sz)"
    and "unat (PGROUNDDOWN va) + 4096 * map_span va sz < 4294967296"
    and "map_span va sz = (unat va + unat sz - 1) div 4096 - unat va div 4096"
proof -
  let ?l = "PTE_ADDR (va + sz - 1)" and ?a = "PTE_ADDR va"
  have sz: "0 < unat sz" using assms(1) by (simp add: unat_gt_0)
  have s1: "unat (sz - 1) = unat sz - 1" using sz by (simp add: unat_minus_one unat_gt_0)
  then have "unat (va + (sz - 1)) = unat va + (unat sz - 1)"
    using assms(2) sz by (subst unat_add_no_wrap) simp_all
  then have u: "unat (va + sz - 1) = unat va + unat sz - 1"
    using sz by (simp add: add_diff_eq)
  have l: "unat ?l = 4096 * ((unat va + unat sz - 1) div 4096)" by (simp add: unat_PTE_ADDR u)
  have a: "unat ?a = 4096 * (unat va div 4096)" by (rule unat_PTE_ADDR)
  have le: "unat va div 4096 \<le> (unat va + unat sz - 1) div 4096"
    using sz by (intro div_le_mono) simp
  then have "?a \<le> ?l" by (simp add: word_le_nat_alt l a)
  then have "unat (?l - ?a) = 4096 * ((unat va + unat sz - 1) div 4096 - unat va div 4096)"
    by (simp add: unat_sub l a diff_mult_distrib2)
  then show span: "map_span va sz = (unat va + unat sz - 1) div 4096 - unat va div 4096"
    by (simp add: map_span_def PGROUNDDOWN_eq_PTE_ADDR PGSHIFT_def)
  have tot: "unat ?a + 4096 * map_span va sz = unat ?l"
    using le by (simp add: span l a flip: add_mult_distrib2)
  then show lt: "unat (PGROUNDDOWN va) + 4096 * map_span va sz < 4294967296"
    by (simp add: PGROUNDDOWN_eq_PTE_ADDR)
  have "unat (nth_page ?a (map_span va sz)) = unat ?l"
    using tot by (simp add: unat_nth_page)
  then show "PGROUNDDOWN (va + sz - 1) = nth_page (PGROUNDDOWN va) (map_span va sz)"
    by (simp add: word_unat_eq_iff PGROUNDDOWN_eq_PTE_ADDR)
qed

lemma mappages_spec:
  assumes "kmem_inv m ps" and "pt_wf m ps pgdir" and "0 < sz" and "unat va + unat sz \<le> 4294967296"
    and "\<forall>i \<le> map_span va sz. pte_at m pgdir (nth_page (PGROUNDDOWN va) i) AND PTE_P = 0"
  shows "\<exists>r m' qs. mappages m pgdir va sz pa perm = Ok (r, m') \<and> pt_grow pgdir m ps m' qs \<and>
      pages_kept pgdir m m' (PGROUNDDOWN va) (map_span va sz) \<and>
      (r = 0 \<and> pages_mapped pgdir m m' (PGROUNDDOWN va) (map_span va sz) pa perm \<or> r = -1 \<and> qs = [])"
proof -
  have "page_aligned (PGROUNDDOWN va)" by (simp add: PGROUNDDOWN_eq_PTE_ADDR)
  from mappages_loop_spec [OF assms(1,2) this map_span_nth_page(2,1) [OF assms(3,4)] assms(5), of pa perm]
  show ?thesis unfolding mappages_def Let_def map_span_def .
qed

text \<open>The loop stops before its fuel is used up, whatever the tables hold.\<close>

lemma mappages_loop_no_fault:
  assumes "unat a + 4096 * n < 4294967296" and "lastp = nth_page a n"
  shows "mappages_loop (Suc n) m pgdir a lastp pa perm \<noteq> Fault e"
  using assms
proof (induction n arbitrary: m a pa)
  case 0
  then show ?case by (simp add: mappages_loop_unfold split: prod.split option.split)
next
  case (Suc n)
  have "unat (a + PGSIZE) = unat a + 4096"
    using Suc.prems by (simp add: PGSIZE_def unat_word_ariths)
  then show ?case
    using Suc.IH [of "a + PGSIZE"] Suc.prems
    by (simp add: mappages_loop_unfold [of "Suc n"] nth_page_Suc split: prod.split option.split)
qed

lemma mappages_no_fault:
  "0 < sz \<Longrightarrow> unat va + unat sz \<le> 4294967296 \<Longrightarrow> mappages m pgdir va sz pa perm \<noteq> Fault e"
  using mappages_loop_no_fault [OF map_span_nth_page(2,1)]
  by (simp add: mappages_def Let_def map_span_def)

end
