(* ===== verification/Copyout.thy ===== *)
theory Copyout
  imports PageTable
begin

text \<open>
  User memory as the kernel writes it: reading and writing the bytes of a page, and \<open>copyout\<close>.
  \<open>uloc m pgdir va\<close> is the physical byte that a user address names; \<open>copyout\<close> is specified by the
  bytes it changes.
\<close>

subsection \<open>Bytes\<close>

lemma get_put_byte [simp]: "get_byte (put_byte pg i b) j = (if j = i then b else get_byte pg j)"
proof (cases "i div 4 = j div 4")
  case same: True
  have ff: "(0xFF :: u32) = mask 8" by (simp add: mask_eq_exp_minus_1)
  have i: "i mod 4 < 4" and j: "j mod 4 < 4" by simp_all
  show ?thesis
  proof (cases "i = j")
    case True
    then show ?thesis
      unfolding get_byte_def put_byte_def ff
      by (intro bit_word_eqI) (use i in \<open>auto simp: bit_simps\<close>)
  next
    case False
    with same have ne: "i mod 4 \<noteq> j mod 4" using eq_iff_div_mod [of i j 4] by simp
    then have "get_byte (put_byte pg i b) j = get_byte pg j"
      unfolding get_byte_def put_byte_def ff using same
      by (intro bit_word_eqI) (use i j in \<open>auto simp: bit_simps dest: bit_imp_le_length\<close>)
    with False show ?thesis by simp
  qed
next
  case False
  then show ?thesis by (auto simp: get_byte_def put_byte_def)
qed

lemma get_put_bytes:
  "get_byte (put_bytes pg i bs) j =
     (if i \<le> j \<and> j < i + length bs then bs ! (j - i) else get_byte pg j)"
proof (induction bs arbitrary: pg i j)
  case (Cons b bs)
  show ?case
    by (cases "j = i") (auto simp: Cons.IH nth_Cons' Suc_diff_Suc)
qed auto

text \<open>Where a user address lives: the physical page its entry names, and the offset into it.\<close>

definition uloc :: "kmem \<Rightarrow> u32 \<Rightarrow> u32 \<Rightarrow> u32 \<times> nat" where
  "uloc m pgdir va = (PTE_ADDR (pte_at m pgdir va), unat (PTE_FLAGS va))"

definition byte_at :: "kmem \<Rightarrow> u32 \<times> nat \<Rightarrow> u8" where
  "byte_at m l = get_byte (pmem m (fst l)) (snd l)"

text \<open>An address user code may reach, in a frame that is not one of the tables.\<close>

definition umapped :: "kmem \<Rightarrow> u32 \<Rightarrow> u32 \<Rightarrow> bool" where
  "umapped m pgdir va \<longleftrightarrow>
     pte_at m pgdir va AND PTE_P \<noteq> 0 \<and> pte_at m pgdir va AND PTE_U \<noteq> 0 \<and>
     PTE_ADDR (pte_at m pgdir va) \<notin> V2P ` pt_pages m pgdir \<and> P2V (PTE_ADDR (pte_at m pgdir va)) \<noteq> 0"

lemma pte_at_page: "PTE_ADDR va = PTE_ADDR va' \<Longrightarrow> pte_at m pgdir va = pte_at m pgdir va'"
  by (simp flip: same_page_iff add: pte_at_def)

lemma pte_at_present: "pte_at m pgdir va AND PTE_P \<noteq> 0 \<Longrightarrow> pde_present m pgdir (unat (PDX va))"
  by (auto simp: pte_at_def split: if_splits)

lemma uva2ka_eq:
  "uva2ka m pgdir uva =
     (if \<not> pde_present m pgdir (unat (PDX uva)) then Fault ''uva2ka: *pte''
      else if pte_at m pgdir uva AND PTE_P = 0 \<or> pte_at m pgdir uva AND PTE_U = 0 then Ok 0
      else Ok (P2V (PTE_ADDR (pte_at m pgdir uva))))"
  by (simp add: uva2ka_def walkpgdir_present walkpgdir_absent pte_at_def read_pte_def)

lemma uva2ka_umapped:
  "umapped m pgdir va \<Longrightarrow> PTE_ADDR va = PTE_ADDR va' \<Longrightarrow>
   uva2ka m pgdir va' = Ok (P2V (PTE_ADDR (pte_at m pgdir va)))"
  using pte_at_page [of va va' m pgdir] pte_at_present [of m pgdir va']
  by (simp add: uva2ka_eq umapped_def)

lemma write_page_frame:
  assumes "V2P pg \<notin> V2P ` pt_pages m pgdir"
  shows "pde_present (write_page m pg ofs bs) pgdir i = pde_present m pgdir i"
    and "pt_tab (write_page m pg ofs bs) pgdir i = pt_tab m pgdir i"
    and "pte_at (write_page m pg ofs bs) pgdir va = pte_at m pgdir va"
    and "pt_pages (write_page m pg ofs bs) pgdir = pt_pages m pgdir"
proof -
  have "pgdir \<in> pt_pages m pgdir" by auto
  then have ne: "pgdir \<noteq> pg" using assms by auto
  show p: "pde_present (write_page m pg ofs bs) pgdir i = pde_present m pgdir i"
    and t: "pt_tab (write_page m pg ofs bs) pgdir i = pt_tab m pgdir i" for i
    using ne by (simp_all add: pde_present_def pt_tab_def write_page_def)
  show "pt_pages (write_page m pg ofs bs) pgdir = pt_pages m pgdir"
    by (simp add: pt_pages_def p t)
  have "pde_present m pgdir (unat (PDX va)) \<Longrightarrow> pt_tab m pgdir (unat (PDX va)) \<noteq> pg"
    using pt_pagesI(2) [OF PDX_less, of m pgdir va] assms by auto
  then show "pte_at (write_page m pg ofs bs) pgdir va = pte_at m pgdir va"
    by (simp add: pte_at_def p t) (simp add: write_page_def)
qed

lemma byte_at_write_page:
  "byte_at (write_page m pg ofs bs) l =
     (if fst l = V2P pg \<and> ofs \<le> snd l \<and> snd l < ofs + length bs then bs ! (snd l - ofs) else byte_at m l)"
  by (auto simp: byte_at_def write_page_def get_put_bytes)

subsection \<open>Copying out to user memory\<close>

lemma page_offset:
  assumes "unat (PTE_FLAGS va) + i < 4096"
  shows "PTE_ADDR (va + of_nat i) = PTE_ADDR va"
    and "unat (PTE_FLAGS (va + of_nat i)) = unat (PTE_FLAGS va) + i"
proof -
  let ?q = "unat va div 4096" and ?o = "unat (PTE_FLAGS va)"
  have va: "unat va = 4096 * ?q + ?o" by (simp add: unat_PTE_FLAGS)
  have "?q < 1048576" using unat_u32_less [of va] by (simp add: div_less_iff_less_mult)
  then have "unat va + i < 4294967296" using va assms by linarith
  then have u: "unat (va + of_nat i) = 4096 * ?q + (?o + i)"
    using va assms by (simp add: unat_word_ariths unat_of_nat)
  then have "unat (va + of_nat i) div 4096 = ?q" and m: "unat (va + of_nat i) mod 4096 = ?o + i"
    using assms by simp_all
  then show "PTE_ADDR (va + of_nat i) = PTE_ADDR va"
    by (simp add: word_unat_eq_iff unat_PTE_ADDR)
  show "unat (PTE_FLAGS (va + of_nat i)) = ?o + i"
    by (simp add: unat_PTE_FLAGS m)
qed

lemma copyout_step:
  assumes "buf \<noteq> []" and "uva2ka m pgdir (PGROUNDDOWN va) = Ok pa" and "pa \<noteq> 0"
  shows "copyout m pgdir va buf =
    (let ofs = va - PGROUNDDOWN va; n = min (length buf) (unat (PGSIZE - ofs))
     in copyout (write_page m pa (unat ofs) (take n buf)) pgdir (PGROUNDDOWN va + PGSIZE) (drop n buf))"
  using assms by (subst copyout.simps) (simp add: Let_def min_def)

lemma copyout_spec:
  assumes "\<forall>i < length buf. umapped m pgdir (va + of_nat i)"
    and "inj_on (\<lambda>i. uloc m pgdir (va + of_nat i)) {..< length buf}"
  shows "\<exists>m'. copyout m pgdir va buf = Ok (0, m') \<and> (\<forall>x. pte_at m' pgdir x = pte_at m pgdir x) \<and>
      (\<forall>i < length buf. byte_at m' (uloc m pgdir (va + of_nat i)) = buf ! i) \<and>
      (\<forall>l. l \<notin> (\<lambda>i. uloc m pgdir (va + of_nat i)) ` {..< length buf} \<longrightarrow> byte_at m' l = byte_at m l)"
  using assms
proof (induction buf arbitrary: m va rule: measure_induct_rule [where f = length])
  case (less buf)
  show ?case
  proof (cases "buf = []")
    case True
    then show ?thesis by (simp add: copyout.simps)
  next
    case False
    define o1 where "o1 = unat (PTE_FLAGS va)"
    define n where "n = min (length buf) (4096 - o1)"
    define pa where "pa = P2V (PTE_ADDR (pte_at m pgdir va))"
    define m1 where "m1 = write_page m pa o1 (take n buf)"
    define va1 where "va1 = PTE_ADDR va + PGSIZE"
    have o1: "o1 < 4096" by (simp add: o1_def unat_PTE_FLAGS)
    then have n: "n \<le> length buf" "o1 + n \<le> 4096" "0 < n" using False by (auto simp: n_def)
    have um: "umapped m pgdir va" using less.prems(1) False by force
    have ka: "uva2ka m pgdir (PGROUNDDOWN va) = Ok pa"
      using uva2ka_umapped [OF um] by (simp add: pa_def PGROUNDDOWN_eq_PTE_ADDR)
    have off: "va - PTE_ADDR va = PTE_FLAGS va"
      using PTE_ADDR_add_PTE_FLAGS [of va] by (metis add_diff_cancel_left')
    have flags_le: "PTE_FLAGS va \<le> 4096" using o1 by (simp add: word_le_nat_alt o1_def)
    then have un: "unat (PGSIZE - PTE_FLAGS va) = 4096 - o1"
      by (simp add: PGSIZE_def unat_sub o1_def)
    have pa0: "pa \<noteq> 0" "V2P pa \<notin> V2P ` pt_pages m pgdir"
      using um by (simp_all add: umapped_def pa_def)
    have step: "copyout m pgdir va buf = copyout m1 pgdir va1 (drop n buf)"
      using copyout_step [OF False ka pa0(1)]
      unfolding PGROUNDDOWN_eq_PTE_ADDR off un Let_def m1_def va1_def n_def o1_def .
    note frame = write_page_frame [OF pa0(2), of o1 "take n buf", folded m1_def]
    have uloc1: "uloc m1 pgdir x = uloc m pgdir x" and um1: "umapped m1 pgdir x = umapped m pgdir x" for x
      by (simp_all add: uloc_def umapped_def frame)
    have chunk: "uloc m pgdir (va + of_nat i) = (V2P pa, o1 + i)" if "i < n" for i
      using page_offset [of va i] pte_at_page [of "va + of_nat i" va m pgdir] that n
      by (simp add: uloc_def pa_def o1_def)
    have va1: "va1 + of_nat i = va + of_nat (n + i)" if "i < length buf - n" for i
    proof -
      have "n = 4096 - o1" using that unfolding n_def min_def by (auto split: if_splits)
      then have "n = unat (PGSIZE - PTE_FLAGS va)" by (simp only: un)
      then have "of_nat n = PGSIZE - PTE_FLAGS va" by (simp only: of_nat_unat ucast_id)
      then have "PTE_ADDR va + PTE_FLAGS va + of_nat n = va1" by (simp add: va1_def)
      then have "va1 = va + of_nat n" by (simp add: PTE_ADDR_add_PTE_FLAGS)
      then show ?thesis by (simp add: add.assoc)
    qed
    have dom: "(\<lambda>i. uloc m pgdir (va + of_nat i)) ` {..< length buf} =
        (\<lambda>i. (V2P pa, o1 + i)) ` {..< n} \<union> (\<lambda>i. uloc m pgdir (va1 + of_nat i)) ` {..< length buf - n}"
    proof -
      have "i \<in> {..< n} \<union> (+) n ` {..< length buf - n}" if "i < length buf" for i
        using that by (cases "i < n") (auto intro: image_eqI [of _ _ "i - n"])
      then have "{..< length buf} = {..< n} \<union> (+) n ` {..< length buf - n}"
        using n by auto
      then show ?thesis by (auto simp: image_Un image_image va1 chunk)
    qed
    have inj: "inj_on (\<lambda>i. uloc m1 pgdir (va1 + of_nat i)) {..< length (drop n buf)}"
    proof (rule inj_onI)
      fix x y
      assume "x \<in> {..< length (drop n buf)}" "y \<in> {..< length (drop n buf)}"
        and "uloc m1 pgdir (va1 + of_nat x) = uloc m1 pgdir (va1 + of_nat y)"
      then have "n + x = n + y"
        by (intro inj_onD [OF less.prems(2)]) (auto simp: uloc1 va1 simp del: of_nat_add)
      then show "x = y" by simp
    qed
    have "\<forall>i < length (drop n buf). umapped m1 pgdir (va1 + of_nat i)"
      using less.prems(1) unfolding um1 by (auto simp: va1 simp del: of_nat_add)
    from less.IH [OF _ this inj] n False obtain m' where
      run: "copyout m1 pgdir va1 (drop n buf) = Ok (0, m')"
      and pte: "\<forall>x. pte_at m' pgdir x = pte_at m1 pgdir x"
      and new: "\<forall>i < length buf - n. byte_at m' (uloc m pgdir (va1 + of_nat i)) = drop n buf ! i"
      and old: "\<forall>l. l \<notin> (\<lambda>i. uloc m pgdir (va1 + of_nat i)) ` {..< length buf - n} \<longrightarrow> byte_at m' l = byte_at m1 l"
      unfolding uloc1 by auto
    have apart: "(V2P pa, o1 + i) \<notin> (\<lambda>i. uloc m pgdir (va1 + of_nat i)) ` {..< length buf - n}"
      if i: "i < n" for i
    proof
      assume "(V2P pa, o1 + i) \<in> (\<lambda>i. uloc m pgdir (va1 + of_nat i)) ` {..< length buf - n}"
      then obtain j where j: "j < length buf - n"
        "uloc m pgdir (va + of_nat i) = uloc m pgdir (va + of_nat (n + j))"
        using chunk [OF i] va1 by auto
      then have "i = n + j"
        using i n by (intro inj_onD [OF less.prems(2)]) auto
      with i show False by simp
    qed
    have "byte_at m' (uloc m pgdir (va + of_nat i)) = buf ! i" if i: "i < length buf" for i
    proof (cases "i < n")
      case True
      then show ?thesis
        using old apart [OF True] n by (simp add: chunk m1_def byte_at_write_page)
    next
      case False
      then obtain j where j: "i = n + j" using le_Suc_ex by (metis not_less)
      then have "j < length buf - n" using i by simp
      then show ?thesis using new n(1) by (simp add: j flip: va1 del: of_nat_add)
    qed
    moreover have "byte_at m' l = byte_at m l"
      if "l \<notin> (\<lambda>i. uloc m pgdir (va + of_nat i)) ` {..< length buf}" for l
    proof -
      have l: "l \<notin> (\<lambda>i. (V2P pa, o1 + i)) ` {..< n}" "byte_at m' l = byte_at m1 l"
        using that old unfolding dom by blast+
      have "\<not> (fst l = V2P pa \<and> o1 \<le> snd l \<and> snd l < o1 + n)"
      proof
        assume a: "fst l = V2P pa \<and> o1 \<le> snd l \<and> snd l < o1 + n"
        then have "l = (V2P pa, o1 + (snd l - o1))" "snd l - o1 < n" by (auto simp: prod_eq_iff)
        then show False using l(1) by blast
      qed
      then show ?thesis using l(2) n by (auto simp: m1_def byte_at_write_page)
    qed
    ultimately show ?thesis
      using step run pte frame(3) by auto
  qed
qed

subsection \<open>Properties\<close>

text \<open>
  A small address space: the page directory at \<open>0x80103000\<close> has one page table, at \<open>0x80104000\<close>,
  which maps the user page \<open>0x1000\<close> to the frame \<open>0x105000\<close>; one page is free.
\<close>

definition kmem_user :: kmem where
  "kmem_user = kmem_one\<lparr>pmem := (\<lambda>pa i. if pa = 0x103000 \<and> i = 0 then 0x104007
     else if pa = 0x104000 \<and> i = 1 then 0x105007 else 0)\<rparr>"

lemma kmem_user_present: "pde_present kmem_user 0x80103000 i \<longleftrightarrow> i = 0"
  by (simp add: pde_present_def kmem_user_def mmu)

lemma kmem_user_tab: "pt_tab kmem_user 0x80103000 0 = 0x80104000"
  by (simp add: pt_tab_def kmem_user_def mmu)

lemma kmem_user_pages: "pt_pages kmem_user 0x80103000 = {0x80103000, 0x80104000}"
proof -
  have "{i. i < 1024 \<and> pde_present kmem_user 0x80103000 i} = {0}" by (auto simp: kmem_user_present)
  then show ?thesis by (simp add: pt_pages_def kmem_user_tab)
qed

lemma kmem_user_inv: "kmem_inv kmem_user [0x80102000]" "pt_wf kmem_user [0x80102000] 0x80103000"
proof -
  show "kmem_inv kmem_user [0x80102000]"
    by (rule kmem_inv_frame [OF kmem_one_inv]) (simp_all add: kmem_user_def kmem_one_def kmem_boot_def refs_def mmu)
  show "pt_wf kmem_user [0x80102000] 0x80103000"
    unfolding pt_wf_def kmem_user_pages
    by (auto simp: kmem_user_present kmem_user_tab)
      (simp_all add: kmem_user_def kmem_one_def kmem_boot_def kpage_def physicalAddrInvalid_def
        page_aligned_def mmu Let_def)
qed

lemma kmem_user_pte:
  "pte_at kmem_user 0x80103000 0x1000 = 0x105007" "pte_at kmem_user 0x80103000 0x2000 = 0"
  "pte_at kmem_user 0x80103000 0x1ffe = 0x105007" "pte_at kmem_user 0x80103000 0x1fff = 0x105007"
  by (simp_all add: pte_at_def pde_present_def pt_tab_def kmem_user_def mmu)

text \<open>
  C6. \<open>mappages\<close> on a range of the address space none of whose pages is mapped never panics. It
  returns 0 with every page of the range mapped, in order, to the pages from \<open>pa\<close> on with the
  given permissions, or -1 when the free list ran out; in both cases no other address's mapping
  changes, and the only pages it writes are the tables and free pages it turns into tables.
\<close>

theorem mappages_correct:
  assumes "kmem_inv m ps" and "pt_wf m ps pgdir" and "0 < sz" and "unat va + unat sz \<le> 4294967296"
    and "\<forall>i \<le> map_span va sz. pte_at m pgdir (nth_page (PGROUNDDOWN va) i) AND PTE_P = 0"
  shows "\<exists>r m' qs. mappages m pgdir va sz pa perm = Ok (r, m') \<and> pt_grow pgdir m ps m' qs \<and>
      (r = 0 \<and> (\<forall>i va'. i \<le> map_span va sz \<and> PTE_ADDR va' = nth_page (PGROUNDDOWN va) i \<longrightarrow>
          pte_at m' pgdir va' = nth_page pa i OR perm OR PTE_P) \<or> r = -1 \<and> qs = []) \<and>
      (\<forall>va'. (\<forall>i \<le> map_span va sz. PTE_ADDR va' \<noteq> nth_page (PGROUNDDOWN va) i) \<longrightarrow>
          pte_at m' pgdir va' = pte_at m pgdir va')"
  using mappages_spec [OF assms, of pa perm] unfolding pages_mapped_def pages_kept_def by blast

theorem mappages_correct_witness:
  "\<exists>r m' qs. mappages kmem_user 0x80103000 0x2000 PGSIZE 0x106000 (PTE_W OR PTE_U) = Ok (r, m') \<and>
     pt_grow 0x80103000 kmem_user [0x80102000] m' qs \<and>
     (r = 0 \<and> pte_at m' 0x80103000 0x2000 = 0x106007 \<or> r = -1 \<and> qs = []) \<and>
     pte_at m' 0x80103000 0x1000 = 0x105007"
proof -
  have span: "map_span 0x2000 PGSIZE = 0" by (simp add: map_span_def mmu)
  have "(0 :: u32) < PGSIZE" "unat (0x2000 :: u32) + unat PGSIZE \<le> 4294967296"
    by (simp_all add: PGSIZE_def)
  note main = mappages_correct [OF kmem_user_inv this, of "0x106000" "PTE_W OR PTE_U"]
  have r: "PGROUNDDOWN 0x2000 = 0x2000" "PTE_ADDR 0x2000 = 0x2000" "PTE_ADDR 0x1000 = 0x1000"
    by (simp_all add: mmu)
  obtain r m' qs where "mappages kmem_user 0x80103000 0x2000 PGSIZE 0x106000 (PTE_W OR PTE_U) = Ok (r, m')"
    "pt_grow 0x80103000 kmem_user [0x80102000] m' qs"
    "r = 0 \<and> pte_at m' 0x80103000 0x2000 = 0x106000 OR (PTE_W OR PTE_U) OR PTE_P \<or> r = -1 \<and> qs = []"
    "pte_at m' 0x80103000 0x1000 = pte_at kmem_user 0x80103000 0x1000"
    using main by (auto simp: span r kmem_user_pte)
  moreover have "0x106000 OR (PTE_W OR PTE_U) OR PTE_P = 0x106007" by (simp add: mmu)
  ultimately show ?thesis by (metis kmem_user_pte(1))
qed

text \<open>
  C5. \<open>copyout\<close> to a range whose pages are all present and user-accessible returns 0, and
  afterwards the user finds exactly the bytes of the buffer there: page boundaries included, no other
  byte of memory changes, and no mapping changes.
\<close>

theorem copyout_correct:
  assumes "\<forall>i < length buf. umapped m pgdir (va + of_nat i)"
    and "inj_on (\<lambda>i. uloc m pgdir (va + of_nat i)) {..< length buf}"
  shows "\<exists>m'. copyout m pgdir va buf = Ok (0, m') \<and> (\<forall>x. pte_at m' pgdir x = pte_at m pgdir x) \<and>
      (\<forall>i < length buf. byte_at m' (uloc m' pgdir (va + of_nat i)) = buf ! i) \<and>
      (\<forall>l. l \<notin> (\<lambda>i. uloc m pgdir (va + of_nat i)) ` {..< length buf} \<longrightarrow> byte_at m' l = byte_at m l)"
  using copyout_spec [OF assms] by (auto simp: uloc_def)

theorem copyout_correct_witness:
  "\<exists>m'. copyout kmem_user 0x80103000 0x1ffe [65, 66] = Ok (0, m') \<and>
     byte_at m' (0x105000, 0xffe) = 65 \<and> byte_at m' (0x105000, 0xfff) = 66 \<and>
     byte_at m' (0x105000, 0) = 0"
proof -
  have l: "uloc kmem_user 0x80103000 0x1ffe = (0x105000, 0xffe)"
    "uloc kmem_user 0x80103000 0x1fff = (0x105000, 0xfff)"
    by (simp_all add: uloc_def kmem_user_pte PTE_ADDR_def PTE_FLAGS_def)
  have u: "umapped kmem_user 0x80103000 0x1ffe" "umapped kmem_user 0x80103000 0x1fff"
    by (simp_all add: umapped_def kmem_user_pte kmem_user_pages mmu)
  have two: "{..< length [65, 66 :: u8]} = {0, 1}" by auto
  have "\<forall>i < length [65, 66 :: u8]. umapped kmem_user 0x80103000 (0x1ffe + of_nat i)"
    "inj_on (\<lambda>i. uloc kmem_user 0x80103000 (0x1ffe + of_nat i)) {..< length [65, 66 :: u8]}"
    using u l by (auto simp: less_Suc_eq two inj_on_def)
  from copyout_correct [OF this] obtain m' where
    m': "copyout kmem_user 0x80103000 0x1ffe [65, 66] = Ok (0, m')"
    "\<forall>x. pte_at m' 0x80103000 x = pte_at kmem_user 0x80103000 x"
    "\<forall>i < length [65, 66 :: u8]. byte_at m' (uloc m' 0x80103000 (0x1ffe + of_nat i)) = [65, 66] ! i"
    "\<forall>l. l \<notin> (\<lambda>i. uloc kmem_user 0x80103000 (0x1ffe + of_nat i)) ` {0, 1} \<longrightarrow>
       byte_at m' l = byte_at kmem_user l"
    unfolding two by blast
  have l': "uloc m' 0x80103000 x = uloc kmem_user 0x80103000 x" for x using m'(2) by (simp add: uloc_def)
  have "byte_at kmem_user (0x105000, 0) = 0"
    by (simp add: byte_at_def get_byte_def kmem_user_def)
  moreover have "byte_at m' (0x105000, 0) = byte_at kmem_user (0x105000, 0)"
    using m'(4) l by (auto simp: image_iff)
  ultimately show ?thesis
    using m'(1,3) l by (auto simp: less_Suc_eq l')
qed

text \<open>
  C21. \<open>clearpteu\<close> makes a guard page: afterwards \<open>uva2ka\<close>, and so every kernel copy on the
  user's behalf, refuses the page, and every other address keeps its mapping. Without a page
  table for the address it panics.
\<close>

theorem clearpteu_guard:
  assumes "kmem_inv m ps" and "pt_wf m ps pgdir"
  shows "if pde_present m pgdir (unat (PDX va))
    then \<exists>m'. clearpteu m pgdir va = Ok m' \<and> uva2ka m' pgdir va = Ok 0 \<and> pt_grow pgdir m ps m' ps \<and>
      (\<forall>va'. PTE_ADDR va' \<noteq> PTE_ADDR va \<longrightarrow> pte_at m' pgdir va' = pte_at m pgdir va')
    else clearpteu m pgdir va = Panic ''clearpteu''"
proof (cases "pde_present m pgdir (unat (PDX va))")
  case True
  let ?w = "pte_at m pgdir va AND NOT PTE_U"
  define m' where "m' = write_pte m (pt_tab m pgdir (unat (PDX va)), unat (PTX va)) ?w"
  note eff = write_pte_grow [OF assms True m'_def]
  have run: "clearpteu m pgdir va = Ok m'"
    using True by (simp add: clearpteu_def walkpgdir_present m'_def read_pte_def pte_at_def)
  have "pte_at m' pgdir va AND PTE_U = 0"
    by (simp add: eff(2) and.assoc)
  then have "uva2ka m' pgdir va = Ok 0 \<or> uva2ka m' pgdir va = Fault ''uva2ka: *pte''"
    by (simp add: uva2ka_eq)
  moreover have "pde_present m' pgdir (unat (PDX va))"
    using True pt_wfD(3) [OF assms(2) _ True]
    by (simp add: pde_present_def m'_def write_pte_def set_word_def)
  ultimately have "uva2ka m' pgdir va = Ok 0" by (auto simp: uva2ka_eq split: if_splits)
  with True run eff show ?thesis by auto
next
  case False
  then show ?thesis by (simp add: clearpteu_def walkpgdir_absent)
qed

theorem clearpteu_guard_witness:
  "\<exists>m'. clearpteu kmem_user 0x80103000 0x1000 = Ok m' \<and> uva2ka m' 0x80103000 0x1000 = Ok 0"
proof -
  have "pde_present kmem_user 0x80103000 (unat (PDX 0x1000))" by (simp add: kmem_user_present mmu)
  with clearpteu_guard [OF kmem_user_inv, of "0x1000"] show ?thesis by auto
qed

end
