(* ===== verification/CString.thy ===== *)
theory CString
  imports Prelude
begin

text \<open>
  The C string and memory routines of \<open>string.c\<close> (kernel) and \<open>ulib.c\<close> (user programs).

  The block routines \<open>memset\<close>, \<open>memmove\<close>, \<open>memcpy\<close> and \<open>memcmp\<close> work on a flat memory
  \<open>u32 \<Rightarrow> u8\<close> with addresses that wrap, because their arguments may overlap. The routines on
  NUL-terminated strings take the bytes from the pointer on as a list, and a destination buffer as a
  list that is updated by index; running off either list is a \<open>Fault\<close>.
\<close>

type_synonym mem8 = "u32 \<Rightarrow> u8"

subsection \<open>Memory blocks\<close>

primrec stosb :: "mem8 \<Rightarrow> u32 \<Rightarrow> u8 \<Rightarrow> nat \<Rightarrow> mem8" where
  "stosb m dst c 0 = m"
| "stosb m dst c (Suc n) = stosb (m(dst := c)) (dst + 1) c n"

definition put_word32 :: "mem8 \<Rightarrow> u32 \<Rightarrow> u32 \<Rightarrow> mem8" where
  "put_word32 m a w = m(a := ucast w, a + 1 := ucast (drop_bit 8 w),
     a + 2 := ucast (drop_bit 16 w), a + 3 := ucast (drop_bit 24 w))"

primrec stosl :: "mem8 \<Rightarrow> u32 \<Rightarrow> u32 \<Rightarrow> nat \<Rightarrow> mem8" where
  "stosl m dst w 0 = m"
| "stosl m dst w (Suc n) = stosl (put_word32 m dst w) (dst + 4) w n"

definition memset :: "mem8 \<Rightarrow> u32 \<Rightarrow> u32 \<Rightarrow> u32 \<Rightarrow> mem8" where
  "memset m dst c n =
     (if dst mod 4 = 0 \<and> n mod 4 = 0 then
        (let c = c AND 0xFF
         in stosl m dst (push_bit 24 c OR push_bit 16 c OR push_bit 8 c OR c) (unat (n div 4)))
      else stosb m dst (ucast c) (unat n))"

primrec memcmp_loop :: "mem8 \<Rightarrow> u32 \<Rightarrow> u32 \<Rightarrow> nat \<Rightarrow> int" where
  "memcmp_loop m s1 s2 0 = 0"
| "memcmp_loop m s1 s2 (Suc n) =
     (if m s1 \<noteq> m s2 then uint (m s1) - uint (m s2) else memcmp_loop m (s1 + 1) (s2 + 1) n)"

definition memcmp :: "mem8 \<Rightarrow> u32 \<Rightarrow> u32 \<Rightarrow> u32 \<Rightarrow> int" where
  "memcmp m v1 v2 n = memcmp_loop m v1 v2 (unat n)"

primrec copy_down :: "mem8 \<Rightarrow> u32 \<Rightarrow> u32 \<Rightarrow> nat \<Rightarrow> mem8" where
  "copy_down m d s 0 = m"
| "copy_down m d s (Suc n) = copy_down (m(d - 1 := m (s - 1))) (d - 1) (s - 1) n"

primrec copy_up :: "mem8 \<Rightarrow> u32 \<Rightarrow> u32 \<Rightarrow> nat \<Rightarrow> mem8" where
  "copy_up m d s 0 = m"
| "copy_up m d s (Suc n) = copy_up (m(d := m s)) (d + 1) (s + 1) n"

definition memmove :: "mem8 \<Rightarrow> u32 \<Rightarrow> u32 \<Rightarrow> u32 \<Rightarrow> mem8" where
  "memmove m dst src n =
     (if src < dst \<and> src + n > dst then copy_down m (dst + n) (src + n) (unat n)
      else copy_up m dst src (unat n))"

definition memcpy :: "mem8 \<Rightarrow> u32 \<Rightarrow> u32 \<Rightarrow> u32 \<Rightarrow> mem8" where
  "memcpy m dst src n = memmove m dst src n"

text \<open>The user library's \<open>memmove\<close> always copies upwards.\<close>

definition ulib_memmove :: "mem8 \<Rightarrow> u32 \<Rightarrow> u32 \<Rightarrow> int \<Rightarrow> mem8" where
  "ulib_memmove m vdst vsrc n = copy_up m vdst vsrc (nat n)"

definition ulib_memset :: "mem8 \<Rightarrow> u32 \<Rightarrow> u32 \<Rightarrow> u32 \<Rightarrow> mem8" where
  "ulib_memset m dst c n = stosb m dst (ucast c) (unat n)"

subsection \<open>Strings\<close>

definition putb :: "u8 list \<Rightarrow> nat \<Rightarrow> u8 \<Rightarrow> u8 list res" where
  "putb buf i b = (if i < length buf then Ok (buf[i := b]) else Fault ''buffer'')"

definition getb :: "u8 list \<Rightarrow> nat \<Rightarrow> u8 res" where
  "getb buf i = (if i < length buf then Ok (buf ! i) else Fault ''buffer'')"

text \<open>Signed overflow of a C \<open>int\<close> is undefined.\<close>

definition chk_int :: "int \<Rightarrow> int res" where
  "chk_int x = (if -2147483648 \<le> x \<and> x \<le> 2147483647 then Ok x else Fault ''int overflow'')"

fun strncmp :: "u8 list \<Rightarrow> u8 list \<Rightarrow> nat \<Rightarrow> int res" where
  "strncmp p q 0 = Ok 0"
| "strncmp (a # p) (b # q) (Suc n) =
     (if a \<noteq> 0 \<and> a = b then strncmp p q n else Ok (uint a - uint b))"
| "strncmp p q (Suc n) = Fault ''strncmp''"

text \<open>\<open>s\<close> is the destination buffer, \<open>i\<close> the position written next.\<close>

primrec zero_fill :: "nat \<Rightarrow> u8 list \<Rightarrow> nat \<Rightarrow> u8 list res" where
  "zero_fill 0 s i = Ok s"
| "zero_fill (Suc n) s i = bindR (putb s i 0) (\<lambda>s. zero_fill n s (Suc i))"

primrec strncpy_from :: "nat \<Rightarrow> u8 list \<Rightarrow> nat \<Rightarrow> u8 list \<Rightarrow> u8 list res" where
  "strncpy_from 0 s i t = Ok s"
| "strncpy_from (Suc n) s i t =
     (case t of [] \<Rightarrow> Fault ''strncpy''
      | c # t \<Rightarrow> bindR (putb s i c) (\<lambda>s. if c \<noteq> 0 then strncpy_from n s (Suc i) t else zero_fill n s (Suc i)))"

definition strncpy :: "u8 list \<Rightarrow> u8 list \<Rightarrow> int \<Rightarrow> u8 list res" where
  "strncpy s t n = strncpy_from (nat n) s 0 t"

primrec safestrcpy_from :: "nat \<Rightarrow> u8 list \<Rightarrow> nat \<Rightarrow> u8 list \<Rightarrow> u8 list res" where
  "safestrcpy_from 0 s i t = putb s i 0"
| "safestrcpy_from (Suc n) s i t =
     (case t of [] \<Rightarrow> Fault ''safestrcpy''
      | c # t \<Rightarrow> bindR (putb s i c) (\<lambda>s.
          if c \<noteq> 0 then safestrcpy_from n s (Suc i) t else putb s (Suc i) 0))"

definition safestrcpy :: "u8 list \<Rightarrow> u8 list \<Rightarrow> int \<Rightarrow> u8 list res" where
  "safestrcpy s t n = (if n \<le> 0 then Ok s else safestrcpy_from (nat n - 1) s 0 t)"

fun strlen :: "u8 list \<Rightarrow> int res" where
  "strlen [] = Fault ''strlen''"
| "strlen (c # s) = (if c \<noteq> 0 then bindR (strlen s) (\<lambda>n. Ok (n + 1)) else Ok 0)"

fun kstrcmp :: "u8 list \<Rightarrow> u8 list \<Rightarrow> int res" where
  "kstrcmp (a # p) (b # q) = (if a \<noteq> 0 \<and> a = b then kstrcmp p q else Ok (uint a - uint b))"
| "kstrcmp _ _ = Fault ''kstrcmp''"

definition strcmp :: "u8 list \<Rightarrow> u8 list \<Rightarrow> int res" where
  "strcmp p q = kstrcmp p q"

primrec strcpy_from :: "u8 list \<Rightarrow> u8 list \<Rightarrow> nat \<Rightarrow> u8 list res" where
  "strcpy_from [] s i = Fault ''strcpy''"
| "strcpy_from (c # t) s i = bindR (putb s i c) (\<lambda>s. if c \<noteq> 0 then strcpy_from t s (Suc i) else Ok s)"

definition strcpy :: "u8 list \<Rightarrow> u8 list \<Rightarrow> u8 list res" where
  "strcpy s t = strcpy_from t s 0"

text \<open>\<open>strchr\<close> returns the offset of the character from \<open>s\<close>, or no pointer.\<close>

fun strchr :: "u8 list \<Rightarrow> u8 \<Rightarrow> nat option res" where
  "strchr [] c = Fault ''strchr''"
| "strchr (x # s) c =
     (if x = 0 then Ok None else if x = c then Ok (Some 0)
      else bindR (strchr s c) (\<lambda>r. Ok (map_option Suc r)))"

fun atoi_from :: "u8 list \<Rightarrow> int \<Rightarrow> int res" where
  "atoi_from [] n = Fault ''atoi''"
| "atoi_from (c # s) n =
     (if 48 \<le> c \<and> c \<le> 57 then
        bindR (chk_int (n * 10)) (\<lambda>x. bindR (chk_int (x + uint c)) (\<lambda>y. atoi_from s (y - 48)))
      else Ok n)"

definition atoi :: "u8 list \<Rightarrow> int res" where
  "atoi s = atoi_from s 0"

text \<open>
  \<open>itoa\<close>: the first loop finds the end of the text, the second writes the digits backwards from
  it. Both are do-while loops on a number that is divided by ten each time round.
\<close>

function itoa_end :: "nat \<Rightarrow> int \<Rightarrow> nat" where
  "itoa_end p shift = (if shift div 10 = 0 \<or> shift \<le> 0 then Suc p else itoa_end (Suc p) (shift div 10))"
  by pat_completeness auto
termination by (relation "measure (\<lambda>(p, shift). nat shift)") auto

function itoa_digits :: "u8 list \<Rightarrow> nat \<Rightarrow> int \<Rightarrow> u8 list res" where
  "itoa_digits s p i =
     (if p = 0 then Fault ''itoa''
      else bindR (putb s (p - 1) (of_int (48 + i mod 10))) (\<lambda>s.
        if i div 10 = 0 \<or> i \<le> 0 then Ok s else itoa_digits s (p - 1) (i div 10)))"
  by pat_completeness auto
termination by (relation "measure (\<lambda>(s, p, i). nat i)") auto

declare itoa_end.simps [simp del] itoa_digits.simps [simp del]

definition itoa :: "int \<Rightarrow> u8 list \<Rightarrow> u8 list res" where
  "itoa i s =
     bindR (if i < 0 then bindR (putb s 0 45) (\<lambda>s. bindR (chk_int (- i)) (\<lambda>i. Ok (s, 1, i)))
            else Ok (s, 0, i)) (\<lambda>(s, p, i).
       (let p = itoa_end p i
        in bindR (putb s p 0) (\<lambda>s. itoa_digits s p i)))"

text \<open>
  \<open>gets\<close> reads one byte at a time through the \<open>read\<close> system call, here a function on the state of
  the program's input that returns no byte at end of file or on an error.
\<close>

primrec gets_loop :: "nat \<Rightarrow> ('s \<Rightarrow> u8 option \<times> 's) \<Rightarrow> 's \<Rightarrow> u8 list \<Rightarrow> nat \<Rightarrow> (u8 list \<times> nat \<times> 's) res" where
  "gets_loop 0 rd st buf i = Ok (buf, i, st)"
| "gets_loop (Suc n) rd st buf i =
     (case rd st of
        (None, st) \<Rightarrow> Ok (buf, i, st)
      | (Some c, st) \<Rightarrow> bindR (putb buf i c) (\<lambda>buf.
          if c = 10 \<or> c = 13 then Ok (buf, Suc i, st) else gets_loop n rd st buf (Suc i)))"

definition gets :: "('s \<Rightarrow> u8 option \<times> 's) \<Rightarrow> 's \<Rightarrow> u8 list \<Rightarrow> int \<Rightarrow> (u8 list \<times> 's) res" where
  "gets rd st buf mx =
     bindR (gets_loop (nat (mx - 1)) rd st buf 0) (\<lambda>(buf, i, st).
       bindR (putb buf i 0) (\<lambda>buf. Ok (buf, st)))"

subsection \<open>Blocks\<close>

lemma unat_minus_1_step:
  assumes "(a :: u32) \<noteq> d"
  shows "unat (a - (d + 1)) = unat (a - d) - 1" "0 < unat (a - d)"
proof -
  show p: "0 < unat (a - d)" using assms by (simp add: unat_gt_0)
  have eq: "a - (d + 1) = (a - d) - 1" by simp
  show "unat (a - (d + 1)) = unat (a - d) - 1"
    unfolding eq using assms by (intro unat_minus_one) simp
qed

lemma stosb_eq:
  "n \<le> 4294967295 \<Longrightarrow> stosb m dst c n a = (if unat (a - dst) < n then c else m a)"
proof (induction n arbitrary: m dst)
  case (Suc n)
  show ?case
  proof (cases "a = dst")
    case True
    then show ?thesis using Suc by simp
  next
    case False
    from unat_minus_1_step [OF this] Suc False show ?thesis by auto
  qed
qed simp

lemma stosb_add: "stosb m d c (i + j) = stosb (stosb m d c i) (d + of_nat i) c j"
  by (induction i arbitrary: m d) (simp_all add: add.assoc)

lemma stosl_stosb:
  assumes "\<And>m a. put_word32 m a w = stosb m a c 4"
  shows "stosl m dst w n = stosb m dst c (4 * n)"
proof (induction n arbitrary: m dst)
  case (Suc n)
  then show ?case
    using stosb_add [of m dst c 4 "4 * n"] by (simp add: assms del: stosb.simps)
qed simp

lemma put_word32_repeat:
  fixes c :: u32
  defines "c' \<equiv> c AND 0xFF"
  shows "put_word32 m a (push_bit 24 c' OR push_bit 16 c' OR push_bit 8 c' OR c') = stosb m a (ucast c) 4"
proof -
  have ff: "(0xFF :: u32) = mask 8" by (simp add: mask_eq_exp_minus_1)
  let ?w = "push_bit 24 c' OR push_bit 16 c' OR push_bit 8 c' OR c'"
  have "ucast ?w = (ucast c :: u8)" "ucast (drop_bit 8 ?w) = (ucast c :: u8)"
    "ucast (drop_bit 16 ?w) = (ucast c :: u8)" "ucast (drop_bit 24 ?w) = (ucast c :: u8)"
    unfolding c'_def ff by (intro bit_word_eqI; auto simp: bit_simps)+
  then show ?thesis
    by (simp add: put_word32_def numeral_eq_Suc fun_upd_twist add.assoc)
qed

lemma copy_up_eq:
  assumes "unat d + n \<le> 4294967296" and "unat s + n \<le> 4294967296"
    and "unat d \<le> unat s \<or> unat s + n \<le> unat d"
  shows "copy_up m d s n a = (if unat (a - d) < n then m (s + (a - d)) else m a)"
  using assms
proof (induction n arbitrary: m d s)
  case (Suc n)
  show ?case
  proof (cases "n = 0")
    case True
    then show ?thesis by (auto simp: less_Suc_eq unat_eq_0)
  next
    case n: False
    have d1: "unat (d + 1) = unat d + 1" and s1: "unat (s + 1) = unat s + 1"
      using Suc.prems n by (simp_all add: unat_word_ariths)
    have IH: "copy_up m' (d + 1) (s + 1) n a =
        (if unat (a - (d + 1)) < n then m' (s + 1 + (a - (d + 1))) else m' a)" for m'
      using Suc.prems d1 s1 by (intro Suc.IH) auto
    show ?thesis
    proof (cases "a = d")
      case True
      have "unat (d - (d + 1)) = unat (4294967295 :: u32)" by (rule arg_cong [of _ _ unat]) simp
      then have "\<not> unat (d - (d + 1)) < n" using Suc.prems by simp
      with True show ?thesis using IH [of "m(d := m s)"] by (simp add: True)
    next
      case False
      note u = unat_minus_1_step [OF False]
      have "s + (a - d) \<noteq> d" if "unat (a - d) < Suc n"
      proof
        assume eq: "s + (a - d) = d"
        have "unat d = unat s + unat (a - d)"
          using that Suc.prems(2) by (subst eq [symmetric], intro unat_add_no_wrap) simp
        with u(2) that Suc.prems(3) show False by auto
      qed
      then show ?thesis using u False by (auto simp: IH)
    qed
  qed
qed simp

lemma copy_down_eq:
  assumes "unat d + n \<le> 4294967296" and "unat s + n \<le> 4294967296" and "unat s \<le> unat d"
  shows "copy_down m (d + of_nat n) (s + of_nat n) n a = (if unat (a - d) < n then m (s + (a - d)) else m a)"
  using assms
proof (induction n arbitrary: m)
  case (Suc n)
  let ?m = "m(d + of_nat n := m (s + of_nat n))"
  have IH: "copy_down ?m (d + of_nat n) (s + of_nat n) n a =
      (if unat (a - d) < n then ?m (s + (a - d)) else ?m a)"
    using Suc.prems by (intro Suc.IH) auto
  have un: "unat (of_nat n :: u32) = n" using Suc.prems by (simp add: unat_of_nat)
  have eq: "a = d + of_nat n \<longleftrightarrow> unat (a - d) = n"
  proof
    assume "unat (a - d) = n"
    then have "a - d = of_nat n" using un by (simp add: word_unat_eq_iff)
    then show "a = d + of_nat n" by (simp add: algebra_simps)
  qed (simp add: un)
  have "s + (a - d) \<noteq> d + of_nat n" if "unat (a - d) < n"
  proof
    assume e: "s + (a - d) = d + of_nat n"
    have "unat (s + (a - d)) = unat s + unat (a - d)" "unat (d + of_nat n) = unat d + n"
      using that Suc.prems by (simp_all add: unat_add_no_wrap un)
    then have "unat s + unat (a - d) = unat d + n" using e by metis
    with that Suc.prems(3) show False by simp
  qed
  moreover have "copy_down m (d + of_nat (Suc n)) (s + of_nat (Suc n)) (Suc n) =
      copy_down ?m (d + of_nat n) (s + of_nat n) n"
    by (simp add: algebra_simps)
  ultimately show ?case
    using IH eq by (auto simp: less_Suc_eq)
qed simp

lemma memcmp_loop_0:
  "n \<le> 4294967295 \<Longrightarrow> memcmp_loop m s1 s2 n = 0 \<longleftrightarrow> (\<forall>i < n. m (s1 + of_nat i) = m (s2 + of_nat i))"
proof (induction n arbitrary: s1 s2)
  case (Suc n)
  have all: "(\<forall>i < Suc n. P i) \<longleftrightarrow> P 0 \<and> (\<forall>i < n. P (Suc i))" for P
    by (metis Suc_less_eq gr0_implies_Suc not_gr_zero zero_less_Suc)
  show ?case
  proof (cases "m s1 = m s2")
    case True
    then show ?thesis using Suc by (simp add: all add.assoc)
  next
    case False
    then have "uint (m s1) \<noteq> uint (m s2)" by (simp add: word_uint_eq_iff)
    with False show ?thesis by (simp add: all)
  qed
qed simp

subsection \<open>Strings\<close>

lemma putb_Ok [simp]: "i < length buf \<Longrightarrow> putb buf i b = Ok (buf[i := b])"
  by (simp add: putb_def)

text \<open>The text of a C string of at most \<open>n\<close> bytes: the bytes before the first NUL.\<close>

definition ctext :: "nat \<Rightarrow> u8 list \<Rightarrow> u8 list" where
  "ctext n t = takeWhile (\<lambda>c. c \<noteq> 0) (take n t)"

lemma ctext_simps [simp]:
  "ctext 0 t = []" "ctext n [] = []"
  "ctext (Suc n) (c # t) = (if c = 0 then [] else c # ctext n t)"
  by (simp_all add: ctext_def)

lemma length_ctext: "length (ctext n t) \<le> n"
  unfolding ctext_def by (metis length_take length_takeWhile_le le_trans min.cobounded2)

lemma take_Suc_update: "i < length s \<Longrightarrow> take (Suc i) (s[i := c]) = take i s @ [c]"
  by (simp add: take_Suc_conv_app_nth)

lemma zero_fill_eq:
  "i + n \<le> length s \<Longrightarrow> zero_fill n s i = Ok (take i s @ replicate n 0 @ drop (i + n) s)"
proof (induction n arbitrary: s i)
  case (Suc n)
  then have "i < length s" by simp
  with Suc show ?case by (simp add: take_Suc_update)
qed simp

lemma strncpy_from_eq:
  "i + n \<le> length s \<Longrightarrow> n \<le> length t \<or> 0 \<in> set t \<Longrightarrow>
   strncpy_from n s i t =
     Ok (take i s @ ctext n t @ replicate (n - length (ctext n t)) 0 @ drop (i + n) s)"
proof (induction n arbitrary: s i t)
  case (Suc n)
  then obtain c t' where t: "t = c # t'" by (cases t) auto
  have i: "i < length s" using Suc.prems by simp
  show ?case
  proof (cases "c = 0")
    case True
    then show ?thesis
      using Suc.prems i by (simp add: t zero_fill_eq take_Suc_update)
  next
    case False
    then show ?thesis
      using Suc.prems i by (auto simp: t Suc.IH take_Suc_update)
  qed
qed simp

lemma strncmp_refl_padded:
  "n \<le> length t \<or> 0 \<in> set t \<Longrightarrow>
   strncmp (ctext n t @ replicate (n - length (ctext n t)) 0 @ r) t n = Ok 0"
proof (induction n arbitrary: t)
  case (Suc n)
  then obtain c t' where t: "t = c # t'" by (cases t) auto
  with Suc show ?case by auto
qed simp

lemma safestrcpy_from_eq:
  "i + Suc n \<le> length s \<Longrightarrow> n \<le> length t \<or> 0 \<in> set t \<Longrightarrow>
   \<exists>s'. safestrcpy_from n s i t = Ok s' \<and> length s' = length s \<and>
     (\<exists>r. s' = take i s @ ctext n t @ 0 # r)"
proof (induction n arbitrary: s i t)
  case 0
  then have "s[i := 0] = take i s @ 0 # drop (Suc i) s" by (simp add: upd_conv_take_nth_drop)
  with 0 show ?case by auto
next
  case (Suc n)
  then obtain c t' where t: "t = c # t'" by (cases t) auto
  have i: "i < length s" "Suc i < length s" using Suc.prems by simp_all
  show ?case
  proof (cases "c = 0")
    case True
    have "s[i := 0, Suc i := 0] = take i s @ 0 # drop (Suc i) (s[Suc i := 0])"
      using i by (simp add: upd_conv_take_nth_drop [of i] list_update_append drop_update_swap)
    with True i show ?thesis by (auto simp: t)
  next
    case False
    then obtain s' r where "safestrcpy_from n (s[i := c]) (Suc i) t' = Ok s'" "length s' = length s"
      "s' = take (Suc i) (s[i := c]) @ ctext n t' @ 0 # r"
      using Suc.IH [of "Suc i" "s[i := c]" t'] Suc.prems by (auto simp: t)
    with False i show ?thesis by (auto simp: t take_Suc_update)
  qed
qed

subsection \<open>Numbers\<close>

text \<open>The decimal digits of a number, most significant first.\<close>

function dec :: "int \<Rightarrow> u8 list" where
  "dec i = (if i div 10 = 0 \<or> i \<le> 0 then [] else dec (i div 10)) @ [of_int (48 + i mod 10)]"
  by pat_completeness auto
termination by (relation "measure nat") auto

declare dec.simps [simp del]

lemma itoa_end_eq: "itoa_end p i = p + length (dec i)"
proof (induction p i rule: itoa_end.induct)
  case (1 p i)
  then show ?case by (subst itoa_end.simps, subst dec.simps) simp
qed

lemma itoa_digits_eq:
  assumes "length (dec i) \<le> p" and "p \<le> length s"
  shows "itoa_digits s p i = Ok (take (p - length (dec i)) s @ dec i @ drop p s)"
  using assms
proof (induction s p i rule: itoa_digits.induct)
  case (1 s p i)
  let ?d = "of_int (48 + i mod 10) :: u8"
  have d: "dec i = (if i div 10 = 0 \<or> i \<le> 0 then [] else dec (i div 10)) @ [?d]"
    by (rule dec.simps)
  then have p: "0 < p" "p - 1 < length s" using "1.prems" by auto
  have tk: "take (p - 1) (s[p - 1 := ?d]) = take (p - 1) s"
    and dr: "drop (p - 1) (s[p - 1 := ?d]) = ?d # drop p s"
    using p by (simp_all add: drop_update_swap Cons_nth_drop_Suc [symmetric])
  show ?case
  proof (cases "i div 10 = 0 \<or> i \<le> 0")
    case True
    have "s[p - 1 := ?d] = take (p - 1) s @ ?d # drop p s"
      using append_take_drop_id [of "p - 1" "s[p - 1 := ?d]"] unfolding tk dr by simp
    then show ?thesis using True p d by (subst itoa_digits.simps) simp
  next
    case False
    have len: "length (dec i) = Suc (length (dec (i div 10)))" using False d by simp
    have "itoa_digits (s[p - 1 := ?d]) (p - 1) (i div 10) =
        Ok (take (p - 1 - length (dec (i div 10))) (s[p - 1 := ?d]) @ dec (i div 10) @
          drop (p - 1) (s[p - 1 := ?d]))"
      using "1.prems" False p len by (intro "1.IH") auto
    moreover have "take (p - 1 - length (dec (i div 10))) (s[p - 1 := ?d]) = take (p - length (dec i)) s"
      using p len by simp
    ultimately show ?thesis
      using False p d dr by (subst itoa_digits.simps) simp
  qed
qed

lemma chk_int_Ok [simp]: "-2147483648 \<le> x \<Longrightarrow> x \<le> 2147483647 \<Longrightarrow> chk_int x = Ok x"
  by (simp add: chk_int_def)

lemma digit_byte:
  assumes "0 \<le> k" "k \<le> 9"
  shows "uint (of_int (48 + k) :: u8) = 48 + k" "48 \<le> (of_int (48 + k) :: u8)" "(of_int (48 + k) :: u8) \<le> 57"
proof -
  show u: "uint (of_int (48 + k) :: u8) = 48 + k"
    using assms by (simp add: uint_word_of_int_eq take_bit_eq_mod del: of_int_add)
  show "48 \<le> (of_int (48 + k) :: u8)" "(of_int (48 + k) :: u8) \<le> 57"
    using assms by (simp_all add: word_le_def u del: of_int_add)
qed

lemma atoi_from_dec:
  "0 \<le> i \<Longrightarrow> i \<le> 2147483599 \<Longrightarrow> atoi_from (dec i @ r) 0 = atoi_from r i"
proof (induction i arbitrary: r rule: dec.induct)
  case (1 i)
  let ?d = "of_int (48 + i mod 10) :: u8"
  note dig = digit_byte [of "i mod 10"]
  have split: "i div 10 * 10 + i mod 10 = i" by simp
  have step: "atoi_from (?d # r) (i div 10) = atoi_from r i"
  proof -
    have "chk_int (i div 10 * 10) = Ok (i div 10 * 10)"
      "chk_int (i div 10 * 10 + (48 + i mod 10)) = Ok (i div 10 * 10 + (48 + i mod 10))"
      using "1.prems" split by (intro chk_int_Ok; linarith)+
    then show ?thesis using dig split by (simp del: of_int_add)
  qed
  show ?case
  proof (cases "i div 10 = 0 \<or> i \<le> 0")
    case True
    with "1.prems" have "i div 10 = 0" by auto
    with step True show ?thesis by (subst dec.simps) simp
  next
    case False
    then have "atoi_from (dec (i div 10) @ (?d # r)) 0 = atoi_from (?d # r) (i div 10)"
      using "1.prems" by (intro "1.IH") auto
    with False step show ?thesis by (subst dec.simps) simp
  qed
qed

lemma atoi_from_dec_overflow:
  assumes "2147483599 < i" and "i \<le> 2147483647"
  shows "atoi_from (dec i @ r) 0 = Fault ''int overflow''"
proof -
  let ?d = "of_int (48 + i mod 10) :: u8"
  have split: "i div 10 * 10 + i mod 10 = i" by simp
  have "dec i = dec (i div 10) @ [?d]" using assms by (subst dec.simps) auto
  then have "atoi_from (dec i @ r) 0 = atoi_from (?d # r) (i div 10)" using assms by (simp add: atoi_from_dec)
  moreover have "chk_int (i div 10 * 10) = Ok (i div 10 * 10)" using assms split by (intro chk_int_Ok; linarith)
  moreover have "chk_int (i div 10 * 10 + (48 + i mod 10)) = Fault ''int overflow''"
    using assms split by (simp add: chk_int_def)
  ultimately show ?thesis using digit_byte [of "i mod 10"] by (simp del: of_int_add)
qed

text \<open>The text of an integer: a minus sign where it is negative, and the digits.\<close>

definition decimal :: "int \<Rightarrow> u8 list" where
  "decimal i = (if i < 0 then 45 # dec (- i) else dec i)"

lemma itoa_decimal:
  assumes "- 2147483648 < i" and "i \<le> 2147483647" and "length (decimal i) < length s"
  shows "itoa i s = Ok (decimal i @ 0 # drop (Suc (length (decimal i))) s)"
proof -
  have tail: "drop n (t[n := 0]) = 0 # drop (Suc n) t" if "n < length t" for n and t :: "u8 list"
    using that by (simp add: drop_update_swap Cons_nth_drop_Suc [symmetric])
  show ?thesis
  proof (cases "i < 0")
    case True
    then have len: "Suc (length (dec (- i))) < length s" using assms(3) by (simp add: decimal_def)
    then obtain c t where s: "s = c # t" by (cases s) auto
    have "itoa i s = Ok (45 # dec (- i) @ drop (length (dec (- i))) (t[length (dec (- i)) := 0]))"
      using True assms(1) len by (simp add: s itoa_def itoa_end_eq itoa_digits_eq Let_def)
    then show ?thesis using True len by (simp add: s decimal_def tail)
  next
    case False
    then have len: "length (dec i) < length s" using assms(3) by (simp add: decimal_def)
    then have "itoa i s = Ok (dec i @ drop (length (dec i)) (s[length (dec i) := 0]))"
      using False by (simp add: itoa_def itoa_end_eq itoa_digits_eq Let_def)
    then show ?thesis using False len by (simp add: decimal_def tail)
  qed
qed

subsection \<open>Properties\<close>

lemma memset_eq: "memset m dst c n a = (if a - dst < n then ucast c else m a)"
proof -
  have "unat n \<le> 4294967295" using unat_u32_less [of n] by linarith
  then have b: "stosb m dst (ucast c) (unat n) a = (if a - dst < n then ucast c else m a)"
    by (simp add: stosb_eq word_less_nat_alt)
  show ?thesis
  proof (cases "dst mod 4 = 0 \<and> n mod 4 = 0")
    case True
    then have "unat (n mod 4) = 0" by simp
    then have "unat n mod 4 = 0" by (simp add: unat_mod)
    then have "4 * unat (n div 4) = unat n"
      using mult_div_mod_eq [of 4 "unat n"] by (simp add: unat_div)
    then show ?thesis
      using True b stosl_stosb [OF put_word32_repeat, of m dst c "unat (n div 4)"]
      by (simp add: memset_def Let_def)
  next
    case False
    show ?thesis unfolding memset_def if_not_P [OF False] by (rule b)
  qed
qed

lemma memcmp_0_iff: "memcmp m v1 v2 n = 0 \<longleftrightarrow> (\<forall>i < unat n. m (v1 + of_nat i) = m (v2 + of_nat i))"
  unfolding memcmp_def by (rule memcmp_loop_0) (use unat_u32_less [of n] in linarith)

text \<open>
  C31. The kernel's \<open>memmove\<close> is a correct move even when the blocks overlap: if neither block runs
  past the end of the address space, each destination byte becomes the byte that was at the same
  place of the source before the call, and nothing else changes.
\<close>

theorem memmove_correct:
  assumes "unat dst + unat n < 4294967296" and "unat src + unat n < 4294967296"
  shows "memmove m dst src n a = (if a - dst < n then m (src + (a - dst)) else m a)"
proof (cases "src < dst \<and> src + n > dst")
  case True
  then have "unat src \<le> unat dst" by (simp add: word_less_nat_alt)
  then show ?thesis
    using copy_down_eq [of dst "unat n" src m a] assms True
    by (simp add: memmove_def word_less_nat_alt)
next
  case False
  have "unat (src + n) = unat src + unat n" using assms(2) by (rule unat_add_no_wrap)
  then have "unat dst \<le> unat src \<or> unat src + unat n \<le> unat dst"
    using False by (auto simp: word_less_nat_alt)
  then show ?thesis
    using copy_up_eq [of dst "unat n" src m a] assms False
    by (auto simp: memmove_def word_less_nat_alt)
qed

theorem memmove_correct_witness:
  "memmove (\<lambda>a. ucast a) 0x1002 0x1000 4 0x1005 = 3 \<and> memmove (\<lambda>a. ucast a) 0x1002 0x1000 4 0x1006 = 6"
proof -
  have "unat (0x1002 :: u32) + unat (4 :: u32) < 4294967296" "unat (0x1000 :: u32) + unat (4 :: u32) < 4294967296"
    by simp_all
  note main = memmove_correct [OF this, of "\<lambda>a. ucast a"]
  show ?thesis by (simp add: main)
qed

text \<open>
  C32. A name stored with \<open>strncpy\<close> into an \<open>n\<close>-byte field, as \<open>dirlink\<close> stores a directory entry's name, is
  the name's text padded with NULs to exactly \<open>n\<close> bytes, leaves the rest of the buffer alone,
  and compares equal to the name under \<open>strncmp\<close> with the same bound, as \<open>dirlookup\<close> compares it.
\<close>

theorem strncpy_strncmp:
  assumes "n \<le> length s" and "n \<le> length t \<or> 0 \<in> set t"
  shows "strncpy s t (int n) = Ok (ctext n t @ replicate (n - length (ctext n t)) 0 @ drop n s) \<and>
    strncmp (ctext n t @ replicate (n - length (ctext n t)) 0 @ drop n s) t n = Ok 0"
  using strncpy_from_eq [of 0 n s t] strncmp_refl_padded [of n t "drop n s"] assms
  by (simp add: strncpy_def)

theorem strncpy_strncmp_witness:
  "strncpy [1, 1, 1, 1, 1] [97, 98, 0] (int 4) = Ok [97, 98, 0, 0, 1] \<and>
   strncmp [97, 98, 0, 0, 1] [97, 98, 0] 4 = Ok 0"
proof -
  have "ctext 4 [97, 98, 0] = [97, 98]" by (simp add: ctext_def)
  then show ?thesis
    using strncpy_strncmp [of 4 "[1, 1, 1, 1, 1]" "[97, 98, 0]"] by (simp add: numeral_2_eq_2)
qed

text \<open>
  C33. \<open>itoa\<close> writes the decimal text of every \<open>int\<close> but the least one, with a minus sign where it is negative, and a NUL, into a
  buffer with room for them, and changes nothing behind them. Reading the text back, \<open>atoi\<close> returns the number for
  \<open>0 \<le> i \<le> 2147483599\<close>. It does not know the sign and returns 0 for every negative number, and for the 48 largest numbers its
  sum overflows before the code of the digit zero is taken off.
\<close>

theorem itoa_atoi:
  assumes "- 2147483648 < i" and "i \<le> 2147483647" and "length (decimal i) < length s"
  shows "\<exists>s'. itoa i s = Ok s' \<and> s' = decimal i @ 0 # drop (Suc (length (decimal i))) s \<and>
    atoi s' = (if i < 0 then Ok 0 else if i \<le> 2147483599 then Ok i else Fault ''int overflow'')"
proof -
  let ?r = "drop (Suc (length (decimal i))) s"
  have "atoi (decimal i @ 0 # ?r) = (if i < 0 then Ok 0 else if i \<le> 2147483599 then Ok i else Fault ''int overflow'')"
    using assms(2) by (auto simp: atoi_def decimal_def atoi_from_dec atoi_from_dec_overflow)
  then show ?thesis using itoa_decimal [OF assms] by simp
qed

theorem itoa_atoi_witness:
  "itoa 42 [1, 1, 1, 1] = Ok [52, 50, 0, 1] \<and> atoi [52, 50, 0, 1] = Ok 42 \<and>
   itoa (-7) [1, 1, 1, 1] = Ok [45, 55, 0, 1] \<and> atoi [45, 55, 0, 1] = Ok 0"
proof -
  have d: "decimal 42 = [52, 50]" "decimal (-7) = [45, 55]" by (simp_all add: decimal_def dec.simps)
  have "itoa 42 [1, 1, 1, 1] = Ok [52, 50, 0, 1] \<and> atoi [52, 50, 0, 1] = Ok 42"
    using itoa_atoi [of 42 "[1, 1, 1, 1]"] by (simp add: d)
  moreover have "itoa (-7) [1, 1, 1, 1] = Ok [45, 55, 0, 1] \<and> atoi [45, 55, 0, 1] = Ok 0"
    using itoa_atoi [of "-7" "[1, 1, 1, 1]"] by (simp add: d)
  ultimately show ?thesis by blast
qed

end
