(* ===== verification/Ring.thy ===== *)
theory Ring
  imports Prelude
begin

text \<open>
  Ring buffers addressed by free-running 32-bit counters, as the pipe and the console input buffer
  use them: \<open>ring N buf a n\<close> is the list of the \<open>n\<close> elements from counter value \<open>a\<close> on. The counters may
  wrap around, so the size of the buffer has to divide \<open>2^32\<close>.

  \<open>bounded_queue\<close> is the contract such a buffer provides to the code above it.
\<close>

definition ring :: "nat \<Rightarrow> 'a list \<Rightarrow> u32 \<Rightarrow> nat \<Rightarrow> 'a list" where
  "ring N buf a n = map (\<lambda>k. buf ! ((unat a + k) mod N)) [0 ..< n]"

lemma ring_simps [simp]: "length (ring N buf a n) = n" "ring N buf a 0 = []"
  by (simp_all add: ring_def)

lemma unat_add_mod:
  assumes "N dvd 4294967296"
  shows "unat ((a :: u32) + of_nat k) mod N = (unat a + k) mod N"
proof -
  have "(unat a + k mod 4294967296) mod 4294967296 mod N = (unat a + k mod 4294967296) mod N"
    using assms by (rule mod_mod_cancel)
  also have "\<dots> = (unat a + k mod 4294967296 mod N) mod N"
    by (simp add: mod_add_right_eq)
  also have "k mod 4294967296 mod N = k mod N"
    using assms by (rule mod_mod_cancel)
  finally show ?thesis
    by (simp add: unat_word_ariths unat_of_nat mod_add_right_eq)
qed

lemma ring_Suc:
  "N dvd 4294967296 \<Longrightarrow> ring N buf a (Suc n) = ring N buf a n @ [buf ! (unat (a + of_nat n) mod N)]"
  by (simp add: ring_def unat_add_mod)

lemma ring_Cons:
  assumes "N dvd 4294967296"
  shows "ring N buf a (Suc n) = buf ! (unat a mod N) # ring N buf (a + 1) n"
proof -
  have "(unat (a + 1) + k) mod N = (unat a + Suc k) mod N" for k
    using unat_add_mod [OF assms, of "a + 1" k] unat_add_mod [OF assms, of a "Suc k"]
    by (simp add: add.assoc)
  then show ?thesis unfolding ring_def map_upt_Suc by simp
qed

lemma ring_update:
  assumes "N dvd 4294967296" and "n < N"
  shows "ring N (buf[unat (a + of_nat n) mod N := c]) a n = ring N buf a n"
proof -
  have "(unat a + n) mod N \<noteq> (unat a + k) mod N" if "k < n" for k
  proof
    assume "(unat a + n) mod N = (unat a + k) mod N"
    then have "N dvd (unat a + n) - (unat a + k)"
      using that by (metis mod_eq_dvd_iff_nat add_le_cancel_left less_imp_le)
    then show False using that assms(2) by (auto dest: dvd_imp_le)
  qed
  then show ?thesis using assms(1) by (simp add: ring_def unat_add_mod)
qed

lemma ring_push:
  assumes "N dvd 4294967296" and "n < N" and "length buf = N"
  shows "ring N (buf[unat (a + of_nat n) mod N := c]) a (Suc n) = ring N buf a n @ [c]"
  using assms ring_update [OF assms(1,2)] by (simp add: ring_Suc)

lemma of_nat_u32_eq_0: "k < 4294967296 \<Longrightarrow> (of_nat k :: u32) = 0 \<longleftrightarrow> k = 0"
  by (simp add: word_unat_eq_iff unat_of_nat)

lemma of_nat_u32_eq_iff:
  "j < 4294967296 \<Longrightarrow> k < 4294967296 \<Longrightarrow> (of_nat j :: u32) = of_nat k \<longleftrightarrow> j = k"
  by (simp add: word_unat_eq_iff unat_of_nat)

subsection \<open>Bounded queues\<close>

text \<open>
  \<open>full\<close> and \<open>nodata\<close> are the tests the code makes before it pushes or pops. The lemmas say what a run
  of pushes or pops does, as the loops of \<open>pipewrite\<close> and \<open>piperead\<close> make them.
\<close>

primrec push_all :: "('s \<Rightarrow> bool) \<Rightarrow> ('a \<Rightarrow> 's \<Rightarrow> 's) \<Rightarrow> 'a list \<Rightarrow> 's \<Rightarrow> 'a list \<times> 's" where
  "push_all full push [] s = ([], s)"
| "push_all full push (x # xs) s = (if full s then (x # xs, s) else push_all full push xs (push x s))"

primrec pop_all :: "('s \<Rightarrow> bool) \<Rightarrow> ('s \<Rightarrow> 'a \<times> 's) \<Rightarrow> nat \<Rightarrow> 's \<Rightarrow> 'a list \<times> 's" where
  "pop_all nodata pop 0 s = ([], s)"
| "pop_all nodata pop (Suc n) s =
     (if nodata s then ([], s)
      else (let (x, s1) = pop s; (xs, s2) = pop_all nodata pop n s1 in (x # xs, s2)))"

locale bounded_queue =
  fixes qrep :: "'s \<Rightarrow> 'a list \<Rightarrow> bool" and cap :: nat
    and push :: "'a \<Rightarrow> 's \<Rightarrow> 's" and pop :: "'s \<Rightarrow> 'a \<times> 's"
    and full :: "'s \<Rightarrow> bool" and nodata :: "'s \<Rightarrow> bool"
  assumes bound: "qrep s q \<Longrightarrow> length q \<le> cap"
    and full_iff: "qrep s q \<Longrightarrow> full s \<longleftrightarrow> length q = cap"
    and nodata_iff: "qrep s q \<Longrightarrow> nodata s \<longleftrightarrow> q = []"
    and push_rep: "qrep s q \<Longrightarrow> length q < cap \<Longrightarrow> qrep (push x s) (q @ [x])"
    and pop_rep: "qrep s (x # q) \<Longrightarrow> fst (pop s) = x \<and> qrep (snd (pop s)) q"
begin

lemma push_all_rep:
  "qrep s q \<Longrightarrow>
   fst (push_all full push xs s) = drop (cap - length q) xs \<and>
   qrep (snd (push_all full push xs s)) (q @ take (cap - length q) xs)"
proof (induction xs arbitrary: s q)
  case (Cons x xs)
  show ?case
  proof (cases "full s")
    case True
    then show ?thesis using Cons.prems full_iff by simp
  next
    case False
    then have lt: "length q < cap" using Cons.prems full_iff bound by (meson le_neq_implies_less)
    with Cons.IH [OF push_rep [OF Cons.prems lt]] False show ?thesis
      by (simp add: Suc_diff_Suc [symmetric])
  qed
qed simp

lemma pop_all_rep:
  "qrep s q \<Longrightarrow>
   fst (pop_all nodata pop n s) = take n q \<and> qrep (snd (pop_all nodata pop n s)) (drop n q)"
proof (induction n arbitrary: s q)
  case (Suc n)
  show ?case
  proof (cases q)
    case Nil
    then show ?thesis using Suc.prems nodata_iff by simp
  next
    case (Cons x q')
    obtain s1 where "pop s = (x, s1)" "qrep s1 q'"
      using pop_rep Suc.prems Cons by (metis prod.collapse)
    then show ?thesis
      using Suc.IH [of s1 q'] Suc.prems nodata_iff Cons by (auto split: prod.split)
  qed
qed simp

text \<open>First in, first out: what is read after a write is what was there, then what was written.\<close>

lemma fifo:
  assumes "qrep s q" and "length q + length xs \<le> cap"
  shows "fst (pop_all nodata pop (length q + length xs) (snd (push_all full push xs s))) = q @ xs"
proof -
  have "qrep (snd (push_all full push xs s)) (q @ xs)"
    using push_all_rep [OF assms(1), of xs] assms(2) by simp
  from pop_all_rep [OF this, of "length q + length xs"] show ?thesis by simp
qed

end

end
