(* ===== verification/Console.thy ===== *)
theory Console
  imports CString Ring
begin

text \<open>
  The console: formatted output (\<open>printint\<close>, \<open>cprintf\<close>), the CGA screen and the serial port
  (\<open>console.c\<close>, \<open>uart.c\<close>), the keyboard decoder (\<open>kbd.c\<close>, \<open>kbd.h\<close>) and the input line discipline
  (\<open>consoleintr\<close>, \<open>consoleread\<close>).

  The devices are part of the state \<open>console\<close>: the screen cells and the cursor register, the bytes
  sent to the serial port, and, for input, the list of scan codes or bytes the device still holds.
  A character a device returns is an \<open>int\<close>, with a negative number for "no data", as in the code.
\<close>

record input_buf =
  in_buf :: "u8 list"
  in_r :: u32
  in_w :: u32
  in_e :: u32

record console =
  panicked :: bool
  cons_locking :: bool
  crt :: "nat \<Rightarrow> u16"
  crt_pos :: nat
  uart :: bool
  uart_tx :: "u8 list"
  input :: input_buf

definition BACKSPACE :: int where "BACKSPACE = 0x100"
definition INPUT_BUF :: u32 where "INPUT_BUF = 128"

text \<open>Bytes of a string literal.\<close>

definition bytes :: "string \<Rightarrow> u8 list" where
  "bytes s = map of_char s"

subsection \<open>Output\<close>

definition uartputc :: "console \<Rightarrow> int \<Rightarrow> console" where
  "uartputc con c = (if \<not> uart con then con else con\<lparr>uart_tx := uart_tx con @ [of_int c]\<rparr>)"

definition cgaputc :: "console \<Rightarrow> int \<Rightarrow> console res" where
  "cgaputc con c =
     (let pos = crt_pos con;
          (m, pos) =
            (if c = 10 then (crt con, pos + (80 - pos mod 80))
             else if c = BACKSPACE then (crt con, if pos > 0 then pos - 1 else pos)
             else ((crt con)(pos := (of_int c AND 0xff) OR 0x0700), pos + 1))
      in if pos > 25 * 80 then Panic ''pos under/overflow''
         else
           (let (m, pos) =
              (if pos div 80 \<ge> 24 then
                 (let m1 = (\<lambda>i. if i < 23 * 80 then m (i + 80) else m i);
                      p1 = pos - 80
                  in ((\<lambda>i. if p1 \<le> i \<and> i < 24 * 80 then 0 else m1 i), p1))
               else (m, pos))
            in Ok (con\<lparr>crt := m(pos := 32 OR 0x0700), crt_pos := pos\<rparr>)))"

definition consputc :: "console \<Rightarrow> int \<Rightarrow> console res" where
  "consputc con c =
     (if panicked con then Sleep ''panicked''
      else if c = BACKSPACE then cgaputc (uartputc (uartputc (uartputc con 8) 32) 8) c
      else cgaputc (uartputc con c) c)"

primrec consputs :: "console \<Rightarrow> int list \<Rightarrow> console res" where
  "consputs con [] = Ok con"
| "consputs con (c # cs) = bindR (consputc con c) (\<lambda>con. consputs con cs)"

definition digits :: "u8 list" where
  "digits = [48, 49, 50, 51, 52, 53, 54, 55, 56, 57, 97, 98, 99, 100, 101, 102]"

text \<open>The do-while loop of \<open>printint\<close>: \<open>buf\<close> holds the digits found so far, least significant first.\<close>

function printint_digits :: "u32 \<Rightarrow> u32 \<Rightarrow> u8 list \<Rightarrow> u8 list res" where
  "printint_digits x base buf =
     (if length buf \<ge> 16 \<or> base < 2 \<or> 16 < base then Fault ''printint''
      else
        (let buf = buf @ [digits ! unat (x mod base)]
         in if x div base \<noteq> 0 then printint_digits (x div base) base buf else Ok buf))"
  by pat_completeness auto
termination
proof (relation "measure (\<lambda>(x, base, buf). unat x)", goal_cases)
  case (2 x base buf)
  then have b: "2 \<le> unat base" by (simp add: not_less word_le_nat_alt)
  have "x \<noteq> 0" using 2 by auto
  then have "0 < unat x" by (simp add: unat_gt_0)
  then show ?case using b by (simp add: unat_div)
qed simp

declare printint_digits.simps [simp del]

definition printint :: "console \<Rightarrow> u32 \<Rightarrow> u32 \<Rightarrow> bool \<Rightarrow> console res" where
  "printint con xx base sign =
     (let neg = sign \<and> xx <s 0;
          x = (if neg then - xx else xx)
      in bindR (printint_digits x base []) (\<lambda>buf.
           let buf = (if neg then buf @ [45] else buf)
           in if length buf > 16 then Fault ''printint''
              else consputs con (map uint (rev buf))))"

text \<open>The arguments of \<open>cprintf\<close> as the caller passes them: words, or pointers to strings (null is \<open>None\<close>).\<close>

datatype parg = PWord u32 | PStr "u8 list option"

fun cprintf :: "console \<Rightarrow> u8 list \<Rightarrow> parg list \<Rightarrow> console res" where
  "cprintf con [] args = Ok con"
| "cprintf con (c # fmt) args =
     (if c = 0 then Ok con
      else if c \<noteq> 37 then bindR (consputc con (uint c)) (\<lambda>con. cprintf con fmt args)
      else
        (case fmt of
           [] \<Rightarrow> Ok con
         | d # fmt \<Rightarrow>
             if d = 0 then Ok con
             else if d = 100 then
               (case args of
                  PWord w # args \<Rightarrow> bindR (printint con w 10 True) (\<lambda>con. cprintf con fmt args)
                | _ \<Rightarrow> Fault ''cprintf'')
             else if d = 120 \<or> d = 112 then
               (case args of
                  PWord w # args \<Rightarrow> bindR (printint con w 16 False) (\<lambda>con. cprintf con fmt args)
                | _ \<Rightarrow> Fault ''cprintf'')
             else if d = 115 then
               (case args of
                  PStr s # args \<Rightarrow>
                    (let s = (case s of None \<Rightarrow> bytes ''(null)'' | Some s \<Rightarrow> takeWhile (\<lambda>c. c \<noteq> 0) s)
                     in bindR (consputs con (map uint s)) (\<lambda>con. cprintf con fmt args))
                | _ \<Rightarrow> Fault ''cprintf'')
             else if d = 37 then bindR (consputc con 37) (\<lambda>con. cprintf con fmt args)
             else bindR (consputs con [37, uint d]) (\<lambda>con. cprintf con fmt args)))"

subsection \<open>Input\<close>

text \<open>
  What one character does to the input buffer: the new buffer, the characters echoed to the
  console, and whether a reader is woken.
\<close>

function kill_line :: "input_buf \<Rightarrow> input_buf \<times> int list" where
  "kill_line inp =
     (if in_e inp \<noteq> in_w inp \<and> in_buf inp ! unat ((in_e inp - 1) mod INPUT_BUF) \<noteq> 10 then
        (let (inp, echo) = kill_line (inp\<lparr>in_e := in_e inp - 1\<rparr>) in (inp, BACKSPACE # echo))
      else (inp, []))"
  by pat_completeness auto
termination
proof (relation "measure (\<lambda>inp. unat (in_e inp - in_w inp))", goal_cases)
  case (2 inp)
  then have "in_e inp - in_w inp \<noteq> 0" by simp
  then show ?case
    using unat_minus_one [of "in_e inp - in_w inp"] unat_gt_0 [of "in_e inp - in_w inp"]
    by (simp add: diff_right_commute)
qed simp

declare kill_line.simps [simp del]

definition input_char :: "input_buf \<Rightarrow> int \<Rightarrow> input_buf \<times> int list \<times> bool" where
  "input_char inp c =
     (if c = 21 then (let (inp, echo) = kill_line inp in (inp, echo, False))
      else if c = 8 \<or> c = 127 then
        (if in_e inp \<noteq> in_w inp then (inp\<lparr>in_e := in_e inp - 1\<rparr>, [BACKSPACE], False) else (inp, [], False))
      else if c \<noteq> 0 \<and> in_e inp - in_r inp < INPUT_BUF then
        (let c = (if c = 13 then 10 else c);
             inp = inp\<lparr>in_buf := (in_buf inp)[unat (in_e inp mod INPUT_BUF) := of_int c], in_e := in_e inp + 1\<rparr>
         in if c = 10 \<or> c = 4 \<or> in_e inp = in_r inp + INPUT_BUF
            then (inp\<lparr>in_w := in_e inp\<rparr>, [c], True) else (inp, [c], False))
      else (inp, [], False))"

text \<open>
  \<open>consoleintr\<close> on the characters its \<open>getc\<close> returns before it reports that there are no more.
  The result says whether \<open>wakeup(&input.r)\<close> was called and whether \<open>procdump\<close> is to be run.
\<close>

fun consoleintr :: "console \<Rightarrow> int list \<Rightarrow> bool \<Rightarrow> bool \<Rightarrow> (console \<times> bool \<times> bool) res" where
  "consoleintr con [] wake dump = Ok (con, wake, dump)"
| "consoleintr con (c # cs) wake dump =
     (if c = 16 then consoleintr con cs wake True
      else
        (let (inp, echo, w) = input_char (input con) c
         in bindR (consputs (con\<lparr>input := inp\<rparr>) echo) (\<lambda>con. consoleintr con cs (wake \<or> w) dump)))"

text \<open>
  The loop of \<open>consoleread\<close>: the bytes stored at \<open>dst\<close> and the buffer after it, or no result when
  it has to sleep. \<open>got\<close> says that \<open>n < target\<close>, that is, that at least one byte was stored.
\<close>

datatype cread = Read "u8 list" input_buf | Killed input_buf | Wait "u8 list" input_buf

fun consoleread_loop :: "bool \<Rightarrow> input_buf \<Rightarrow> nat \<Rightarrow> u8 list \<Rightarrow> cread" where
  "consoleread_loop killed inp 0 acc = Read acc inp"
| "consoleread_loop killed inp (Suc n) acc =
     (if in_r inp = in_w inp then (if killed then Killed inp else Wait acc inp)
      else
        (let c = in_buf inp ! unat (in_r inp mod INPUT_BUF)
         in if c = 4 then
              Read acc (if acc \<noteq> [] then inp else inp\<lparr>in_r := in_r inp + 1\<rparr>)
            else if c = 10 then Read (acc @ [c]) (inp\<lparr>in_r := in_r inp + 1\<rparr>)
            else consoleread_loop killed (inp\<lparr>in_r := in_r inp + 1\<rparr>) n (acc @ [c])))"

subsection \<open>Keyboard\<close>

definition SHIFT :: u32 where "SHIFT = 1"
definition CTL :: u32 where "CTL = 2"
definition ALT :: u32 where "ALT = 4"
definition CAPSLOCK :: u32 where "CAPSLOCK = 8"
definition NUMLOCK :: u32 where "NUMLOCK = 16"
definition SCROLLLOCK :: u32 where "SCROLLLOCK = 32"
definition E0ESC :: u32 where "E0ESC = 64"

definition shiftcode :: "nat \<Rightarrow> u32" where
  "shiftcode d = (if d = 0x1D then CTL else if d = 0x2A then SHIFT else if d = 0x36 then SHIFT
     else if d = 0x38 then ALT else if d = 0x9D then CTL else if d = 0xB8 then ALT else 0)"

definition togglecode :: "nat \<Rightarrow> u32" where
  "togglecode d = (if d = 0x3A then CAPSLOCK else if d = 0x45 then NUMLOCK
     else if d = 0x46 then SCROLLLOCK else 0)"

text \<open>The special keys are in the same places of all three maps.\<close>

definition special_keys :: "nat \<Rightarrow> u32" where
  "special_keys d = (if d = 0xC8 then 0xE2 else if d = 0xD0 then 0xE3 else if d = 0xC9 then 0xE6
     else if d = 0xD1 then 0xE7 else if d = 0xCB then 0xE4 else if d = 0xCD then 0xE5
     else if d = 0x97 then 0xE0 else if d = 0xCF then 0xE1 else if d = 0xD2 then 0xE8
     else if d = 0xD3 then 0xE9 else 0)"

definition normal_keys :: "u32 list" where
  "normal_keys = [
     0, 0x1B, 49, 50, 51, 52, 53, 54,  55, 56, 57, 48, 45, 61, 8, 9,
     113, 119, 101, 114, 116, 121, 117, 105,  111, 112, 91, 93, 10, 0, 97, 115,
     100, 102, 103, 104, 106, 107, 108, 59,  39, 96, 0, 92, 122, 120, 99, 118,
     98, 110, 109, 44, 46, 47, 0, 42,  0, 32, 0, 0, 0, 0, 0, 0,
     0, 0, 0, 0, 0, 0, 0, 55,  56, 57, 45, 52, 53, 54, 43, 49,
     50, 51, 48, 46, 0, 0, 0, 0]"

definition shift_keys :: "u32 list" where
  "shift_keys = [
     0, 27, 33, 64, 35, 36, 37, 94,  38, 42, 40, 41, 95, 43, 8, 9,
     81, 87, 69, 82, 84, 89, 85, 73,  79, 80, 123, 125, 10, 0, 65, 83,
     68, 70, 71, 72, 74, 75, 76, 58,  34, 126, 0, 124, 90, 88, 67, 86,
     66, 78, 77, 60, 62, 63, 0, 42,  0, 32, 0, 0, 0, 0, 0, 0,
     0, 0, 0, 0, 0, 0, 0, 55,  56, 57, 45, 52, 53, 54, 43, 49,
     50, 51, 48, 46, 0, 0, 0, 0]"

text \<open>\<open>C(x)\<close> is \<open>x - '@'\<close>, stored in an unsigned char.\<close>

definition ctl_keys :: "u32 list" where
  "ctl_keys = [
     0, 0, 0, 0, 0, 0, 0, 0,  0, 0, 0, 0, 0, 0, 0, 0,
     17, 23, 5, 18, 20, 25, 21, 9,  15, 16, 0, 0, 13, 0, 1, 19,
     4, 6, 7, 8, 10, 11, 12, 0,  0, 0, 0, 28, 26, 24, 3, 22,
     2, 14, 13, 0, 0, 239, 0, 0]"

definition normalmap :: "nat \<Rightarrow> u32" where
  "normalmap d = (if d < length normal_keys then normal_keys ! d
     else if d = 0x9C then 10 else if d = 0xB5 then 47 else special_keys d)"

definition shiftmap :: "nat \<Rightarrow> u32" where
  "shiftmap d = (if d < length shift_keys then shift_keys ! d
     else if d = 0x9C then 10 else if d = 0xB5 then 47 else special_keys d)"

definition ctlmap :: "nat \<Rightarrow> u32" where
  "ctlmap d = (if d < length ctl_keys then ctl_keys ! d
     else if d = 0x9C then 13 else if d = 0xB5 then 239 else special_keys d)"

definition charcode :: "u32 \<Rightarrow> nat \<Rightarrow> u32" where
  "charcode s d = (if s = 0 then normalmap d else if s = 1 then shiftmap d else ctlmap d)"

text \<open>
  \<open>kbdgetc\<close> on the shift state and the scan codes waiting in the controller: the returned value,
  the new shift state and the remaining codes.
\<close>

fun kbdgetc :: "u32 \<Rightarrow> u8 list \<Rightarrow> int \<times> u32 \<times> u8 list" where
  "kbdgetc shift [] = (-1, shift, [])"
| "kbdgetc shift (d # ds) =
     (let data = ucast d :: u32
      in if data = 0xE0 then (0, shift OR E0ESC, ds)
         else if data AND 0x80 \<noteq> 0 then
           (let data = (if shift AND E0ESC \<noteq> 0 then data else data AND 0x7F)
            in (0, shift AND NOT (shiftcode (unat data) OR E0ESC), ds))
         else
           (let (data, shift) =
              (if shift AND E0ESC \<noteq> 0 then (data OR 0x80, shift AND NOT E0ESC) else (data, shift));
                shift = shift OR shiftcode (unat data);
                shift = shift XOR togglecode (unat data);
                c = charcode (shift AND (CTL OR SHIFT)) (unat data);
                c = (if shift AND CAPSLOCK \<noteq> 0 then
                       (if 97 \<le> c \<and> c \<le> 122 then c - 32
                        else if 65 \<le> c \<and> c \<le> 90 then c + 32 else c)
                     else c)
            in (uint c, shift, ds)))"

fun kbd_chars :: "u32 \<Rightarrow> u8 list \<Rightarrow> int list \<times> u32" where
  "kbd_chars shift [] = ([], shift)"
| "kbd_chars shift (d # ds) =
     (let (c, shift, _) = kbdgetc shift (d # ds); (cs, shift) = kbd_chars shift ds in (c # cs, shift))"

definition kbdintr :: "console \<Rightarrow> u32 \<Rightarrow> u8 list \<Rightarrow> (console \<times> bool \<times> bool) res" where
  "kbdintr con shift pending = consoleintr con (fst (kbd_chars shift pending)) False False"

definition uartintr :: "console \<Rightarrow> u8 list \<Rightarrow> (console \<times> bool \<times> bool) res" where
  "uartintr con pending = consoleintr con (if uart con then map uint pending else []) False False"

subsection \<open>The line discipline\<close>

text \<open>
  The contract of the input buffer, without indices: \<open>q\<close> holds the bytes a reader may take, \<open>l\<close> the
  line being edited. \<open>in_rep inp q l\<close> says that the ring buffer represents the pair.
\<close>

definition in_rep :: "input_buf \<Rightarrow> u8 list \<Rightarrow> u8 list \<Rightarrow> bool" where
  "in_rep inp q l \<longleftrightarrow>
     length (in_buf inp) = 128 \<and> in_w inp = in_r inp + of_nat (length q) \<and>
     in_e inp = in_r inp + of_nat (length q + length l) \<and> length q + length l \<le> 128 \<and>
     ring 128 (in_buf inp) (in_r inp) (length q + length l) = q @ l \<and> 10 \<notin> set l"

definition line_char :: "u8 list \<times> u8 list \<Rightarrow> int \<Rightarrow> (u8 list \<times> u8 list) \<times> bool" where
  "line_char ql c =
     (let (q, l) = ql
      in if c = 21 then ((q, []), False)
         else if c = 8 \<or> c = 127 then ((q, butlast l), False)
         else if c \<noteq> 0 \<and> length q + length l < 128 then
           (let c = (if c = 13 then 10 else c); l = l @ [of_int c]
            in if c = 10 \<or> c = 4 \<or> length q + length l = 128 then ((q @ l, []), True) else ((q, l), False))
         else ((q, l), False))"

datatype lread = LRead "u8 list" "u8 list" | LKilled | LWait "u8 list" "u8 list"

fun line_read :: "bool \<Rightarrow> u8 list \<Rightarrow> nat \<Rightarrow> u8 list \<Rightarrow> lread" where
  "line_read killed q 0 acc = LRead acc q"
| "line_read killed [] (Suc n) acc = (if killed then LKilled else LWait acc [])"
| "line_read killed (c # q) (Suc n) acc =
     (if c = 4 then LRead acc (if acc \<noteq> [] then c # q else q)
      else if c = 10 then LRead (acc @ [c]) q
      else line_read killed q n (acc @ [c]))"

lemma unat_mod_INPUT_BUF: "unat (a mod INPUT_BUF) = unat a mod 128"
  by (simp add: INPUT_BUF_def unat_mod)

lemma ring_128: "128 dvd (4294967296 :: nat)"
  by simp

lemmas ring_128_simps = ring_Suc [OF ring_128] ring_Cons [OF ring_128] ring_update [OF ring_128]

lemma in_rep_e_eq_w: "in_rep inp q l \<Longrightarrow> in_e inp = in_w inp \<longleftrightarrow> l = []"
  using of_nat_u32_eq_0 [of "length l"] by (auto simp: in_rep_def)

lemma in_rep_r_eq_w: "in_rep inp q l \<Longrightarrow> in_r inp = in_w inp \<longleftrightarrow> q = []"
  using of_nat_u32_eq_0 [of "length q"] by (auto simp: in_rep_def)

lemma in_rep_snoc:
  assumes "in_rep inp q (l @ [x])"
  shows "in_buf inp ! unat ((in_e inp - 1) mod INPUT_BUF) = x" and "in_rep (inp\<lparr>in_e := in_e inp - 1\<rparr>) q l"
proof -
  let ?n = "length q + length l"
  have e: "in_e inp - 1 = in_r inp + of_nat ?n" using assms by (simp add: in_rep_def)
  have "ring 128 (in_buf inp) (in_r inp) (Suc ?n) = (q @ l) @ [x]" using assms by (simp add: in_rep_def)
  then have "ring 128 (in_buf inp) (in_r inp) ?n = q @ l \<and> in_buf inp ! (unat (in_r inp + of_nat ?n) mod 128) = x"
    unfolding ring_128_simps(1) by (simp only: append1_eq_conv)
  then show "in_buf inp ! unat ((in_e inp - 1) mod INPUT_BUF) = x"
    and "in_rep (inp\<lparr>in_e := in_e inp - 1\<rparr>) q l"
    using assms unfolding e unat_mod_INPUT_BUF by (auto simp: in_rep_def)
qed

lemma kill_line_rep: "in_rep inp q l \<Longrightarrow> \<exists>inp'. kill_line inp = (inp', replicate (length l) BACKSPACE) \<and> in_rep inp' q []"
proof (induction l arbitrary: inp rule: rev_induct)
  case Nil
  then show ?case using in_rep_e_eq_w [OF Nil] by (subst kill_line.simps) simp
next
  case (snoc x l)
  note s = in_rep_snoc [OF snoc.prems]
  from snoc.IH [OF s(2)] obtain inp' where
    "kill_line (inp\<lparr>in_e := in_e inp - 1\<rparr>) = (inp', replicate (length l) BACKSPACE)" "in_rep inp' q []"
    by blast
  moreover have "x \<noteq> 10" using snoc.prems by (auto simp: in_rep_def)
  ultimately show ?case
    using in_rep_e_eq_w [OF snoc.prems] s(1) by (subst kill_line.simps) (auto simp: replicate_append_same)
qed

lemma in_rep_push:
  assumes "in_rep inp q l" and "length q + length l < 128" and "c \<noteq> 10"
  shows "in_rep (inp\<lparr>in_buf := (in_buf inp)[unat (in_e inp mod INPUT_BUF) := c], in_e := in_e inp + 1\<rparr>) q (l @ [c])"
proof -
  let ?n = "length q + length l"
  have e: "in_e inp = in_r inp + of_nat ?n" using assms by (simp add: in_rep_def)
  show ?thesis
    using assms ring_128_simps(3) [OF assms(2), of "in_buf inp" "in_r inp" c]
    by (simp add: in_rep_def ring_128_simps(1) unat_mod_INPUT_BUF e)
qed

text \<open>The same for a byte that ends the line: the whole line is handed to the reader.\<close>

lemma in_rep_commit:
  assumes "in_rep inp q l" and "length q + length l < 128"
  shows "in_rep (inp\<lparr>in_buf := (in_buf inp)[unat (in_e inp mod INPUT_BUF) := c], in_e := in_e inp + 1,
    in_w := in_e inp + 1\<rparr>) (q @ l @ [c]) []"
proof -
  let ?n = "length q + length l"
  have e: "in_e inp = in_r inp + of_nat ?n" using assms by (simp add: in_rep_def)
  show ?thesis
    using assms ring_128_simps(3) [OF assms(2), of "in_buf inp" "in_r inp" c]
    by (simp add: in_rep_def ring_128_simps(1) unat_mod_INPUT_BUF e)
qed

lemma in_rep_room:
  assumes "in_rep inp q l"
  shows "in_e inp - in_r inp < INPUT_BUF \<longleftrightarrow> length q + length l < 128"
    and "in_e inp + 1 = in_r inp + INPUT_BUF \<longleftrightarrow> Suc (length q + length l) = 128"
proof -
  let ?n = "length q + length l"
  have n: "unat (of_nat ?n :: u32) = ?n" and n1: "unat (of_nat (Suc ?n) :: u32) = Suc ?n"
    using assms by (simp_all add: in_rep_def unat_of_nat del: of_nat_Suc of_nat_add)
  have e: "in_e inp = in_r inp + of_nat ?n" using assms by (simp add: in_rep_def)
  show "in_e inp - in_r inp < INPUT_BUF \<longleftrightarrow> ?n < 128"
    using n by (simp add: e word_less_nat_alt INPUT_BUF_def del: of_nat_add)
  have "in_e inp + 1 = in_r inp + INPUT_BUF \<longleftrightarrow> of_nat (Suc ?n) = INPUT_BUF"
    by (simp add: e add.commute)
  also have "\<dots> \<longleftrightarrow> Suc ?n = 128"
    using n1 by (simp add: word_unat_eq_iff INPUT_BUF_def del: of_nat_Suc of_nat_add)
  finally show "in_e inp + 1 = in_r inp + INPUT_BUF \<longleftrightarrow> Suc ?n = 128" .
qed

lemma of_int_eq_10:
  assumes "0 \<le> c" "c \<le> 255"
  shows "(of_int c :: u8) = 10 \<longleftrightarrow> c = 10"
proof
  assume "(of_int c :: u8) = 10"
  then have "uint (of_int c :: u8) = uint (10 :: u8)" by simp
  then show "c = 10" using assms by (simp add: uint_word_of_int_eq take_bit_eq_mod)
qed simp

lemma input_char_rep:
  assumes rep: "in_rep inp q l" and c: "0 \<le> c" "c \<le> 255" and res: "input_char inp c = (inp', echo, wake)"
  shows "in_rep inp' (fst (fst (line_char (q, l) c))) (snd (fst (line_char (q, l) c))) \<and>
    wake = snd (line_char (q, l) c)"
proof -
  consider (kill) "c = 21" | (bs) "c = 8 \<or> c = 127"
    | (add) "c \<noteq> 21" "c \<noteq> 8" "c \<noteq> 127" "c \<noteq> 0" "length q + length l < 128"
    | (none) "c \<noteq> 21" "c \<noteq> 8" "c \<noteq> 127" "\<not> (c \<noteq> 0 \<and> length q + length l < 128)"
    by blast
  then show ?thesis
  proof cases
    case kill
    then show ?thesis using kill_line_rep [OF rep] res by (auto simp: input_char_def line_char_def)
  next
    case bs
    then show ?thesis
      using res rep in_rep_e_eq_w [OF rep] in_rep_snoc(2) [of inp q "butlast l" "last l"]
      by (auto simp: input_char_def line_char_def split: if_splits)
  next
    case add
    define d where "d = (if c = 13 then 10 else c)"
    have d: "0 \<le> d" "d \<le> 255" using c by (simp_all add: d_def)
    note room = in_rep_room [OF rep]
    show ?thesis
    proof (cases "d = 10 \<or> d = 4 \<or> Suc (length q + length l) = 128")
      case True
      then show ?thesis
        using res add room in_rep_commit [OF rep add(5), of "of_int d"]
        by (auto simp: input_char_def line_char_def Let_def simp flip: d_def)
    next
      case False
      then have "(of_int d :: u8) \<noteq> 10" using of_int_eq_10 [OF d] by simp
      with False show ?thesis
        using res add room in_rep_push [OF rep add(5), of "of_int d"]
        by (auto simp: input_char_def line_char_def Let_def simp flip: d_def)
    qed
  next
    case none
    then show ?thesis
      using res rep in_rep_room(1) [OF rep] by (auto simp: input_char_def line_char_def)
  qed
qed

lemma in_rep_pop:
  assumes "in_rep inp (c # q) l"
  shows "in_buf inp ! unat (in_r inp mod INPUT_BUF) = c" and "in_rep (inp\<lparr>in_r := in_r inp + 1\<rparr>) q l"
proof -
  have "ring 128 (in_buf inp) (in_r inp) (Suc (length q + length l)) = c # q @ l" using assms by (simp add: in_rep_def)
  then show "in_buf inp ! unat (in_r inp mod INPUT_BUF) = c" "in_rep (inp\<lparr>in_r := in_r inp + 1\<rparr>) q l"
    using assms unfolding ring_128_simps(2) unat_mod_INPUT_BUF by (auto simp: in_rep_def)
qed

fun cread_rep :: "cread \<Rightarrow> lread \<Rightarrow> u8 list \<Rightarrow> bool" where
  "cread_rep (Read acc inp) (LRead acc' q) l \<longleftrightarrow> acc = acc' \<and> in_rep inp q l"
| "cread_rep (Killed inp) LKilled l \<longleftrightarrow> True"
| "cread_rep (Wait acc inp) (LWait acc' q) l \<longleftrightarrow> acc = acc' \<and> in_rep inp q l"
| "cread_rep _ _ l \<longleftrightarrow> False"

lemma consoleread_loop_rep:
  "in_rep inp q l \<Longrightarrow> cread_rep (consoleread_loop killed inp n acc) (line_read killed q n acc) l"
proof (induction killed q n acc arbitrary: inp rule: line_read.induct)
  case (2 killed n acc)
  then show ?case using in_rep_r_eq_w by auto
next
  case (3 killed c q n acc)
  show ?case
    using 3 in_rep_pop [OF "3.prems"] in_rep_r_eq_w [OF "3.prems"] by (auto simp: Let_def)
qed simp

subsection \<open>The screen\<close>

text \<open>The cursor never leaves the first 24 lines, so the bounds check of \<open>cgaputc\<close> never fires.\<close>

definition screen_ok :: "console \<Rightarrow> bool" where
  "screen_ok con \<longleftrightarrow> \<not> panicked con \<and> crt_pos con < 24 * 80"

lemma cgaputc_ok:
  assumes "crt_pos con < 24 * 80"
  shows "\<exists>m p. cgaputc con c = Ok (con\<lparr>crt := m, crt_pos := p\<rparr>) \<and> p < 24 * 80"
proof -
  define q where "q = (if c = 10 then crt_pos con + (80 - crt_pos con mod 80)
    else if c = BACKSPACE then (if crt_pos con > 0 then crt_pos con - 1 else crt_pos con) else crt_pos con + 1)"
  have "crt_pos con + (80 - crt_pos con mod 80) \<le> 24 * 80"
  proof -
    have "crt_pos con = 80 * (crt_pos con div 80) + crt_pos con mod 80" by simp
    moreover have "crt_pos con div 80 < 24" using assms by (simp add: div_less_iff_less_mult)
    ultimately show ?thesis by linarith
  qed
  then have q: "q \<le> 24 * 80" using assms by (auto simp: q_def)
  define m where "m = (if c = 10 \<or> c = BACKSPACE then crt con
    else (crt con)(crt_pos con := (of_int c AND 0xff) OR 0x0700))"
  have first: "(if c = 10 then (crt con, crt_pos con + (80 - crt_pos con mod 80))
      else if c = BACKSPACE then (crt con, if crt_pos con > 0 then crt_pos con - 1 else crt_pos con)
      else ((crt con)(crt_pos con := (of_int c AND 0xff) OR 0x0700), crt_pos con + 1)) = (m, q)"
    by (simp add: m_def q_def)
  have "\<not> q > 25 * 80" using q by simp
  then have put: "cgaputc con c =
      (let (m, pos) = (if q div 80 \<ge> 24 then
         (let m1 = (\<lambda>i. if i < 23 * 80 then m (i + 80) else m i); p1 = q - 80
          in ((\<lambda>i. if p1 \<le> i \<and> i < 24 * 80 then 0 else m1 i), p1)) else (m, q))
       in Ok (con\<lparr>crt := m(pos := 32 OR 0x0700), crt_pos := pos\<rparr>))"
    unfolding cgaputc_def Let_def first by (simp only: prod.case if_False)
  show ?thesis
  proof (cases "q div 80 \<ge> 24")
    case True
    with q have "q - 80 < 24 * 80" by simp
    then show ?thesis unfolding put if_P [OF True] Let_def prod.case by blast
  next
    case False
    then have "q < 24 * 80" by simp
    then show ?thesis unfolding put if_not_P [OF False] Let_def prod.case by blast
  qed
qed

lemma uartputc_simps [simp]:
  "crt_pos (uartputc con c) = crt_pos con" "panicked (uartputc con c) = panicked con"
  "input (uartputc con c) = input con"
  by (simp_all add: uartputc_def)

lemma consputs_ok:
  "screen_ok con \<Longrightarrow> \<exists>con'. consputs con cs = Ok con' \<and> screen_ok con' \<and> input con' = input con"
proof (induction cs arbitrary: con)
  case (Cons c cs)
  let ?con = "if c = BACKSPACE then uartputc (uartputc (uartputc con 8) 32) 8 else uartputc con c"
  have con: "screen_ok ?con" "input ?con = input con" using Cons.prems by (simp_all add: screen_ok_def)
  then obtain m p where "cgaputc ?con c = Ok (?con\<lparr>crt := m, crt_pos := p\<rparr>)" "p < 24 * 80"
    using cgaputc_ok [of ?con c] by (auto simp: screen_ok_def)
  then have "consputc con c = Ok (?con\<lparr>crt := m, crt_pos := p\<rparr>)" "screen_ok (?con\<lparr>crt := m, crt_pos := p\<rparr>)"
    using Cons.prems con by (auto simp: consputc_def screen_ok_def split: if_splits)
  with Cons.IH con show ?case by fastforce
qed simp

fun line_chars :: "u8 list \<times> u8 list \<Rightarrow> int list \<Rightarrow> (u8 list \<times> u8 list) \<times> bool" where
  "line_chars ql [] = (ql, False)"
| "line_chars ql (c # cs) =
     (if c = 16 then line_chars ql cs
      else (let (ql, w) = line_char ql c; (ql, w') = line_chars ql cs in (ql, w \<or> w')))"

lemma consoleintr_rep:
  assumes "in_rep (input con) q l" and "screen_ok con" and "\<forall>c \<in> set cs. 0 \<le> c \<and> c \<le> 255"
  shows "\<exists>con' dump'. consoleintr con cs wake dump = Ok (con', wake \<or> snd (line_chars (q, l) cs), dump') \<and>
    screen_ok con' \<and> in_rep (input con') (fst (fst (line_chars (q, l) cs))) (snd (fst (line_chars (q, l) cs)))"
  using assms
proof (induction con cs wake dump arbitrary: q l rule: consoleintr.induct)
  case (1 con wake dump)
  then show ?case by auto
next
  case (2 con c cs wake dump)
  show ?case
  proof (cases "c = 16")
    case True
    then show ?thesis using 2 by auto
  next
    case False
    obtain inp echo w where ic: "input_char (input con) c = (inp, echo, w)" by (cases "input_char (input con) c")
    obtain q' l' w' where lc: "line_char (q, l) c = ((q', l'), w')" by (metis surj_pair)
    have rep: "in_rep inp q' l'" and w: "w = w'"
      using input_char_rep [OF "2.prems"(1) _ _ ic] "2.prems"(3) lc by auto
    have "screen_ok (con\<lparr>input := inp\<rparr>)" using "2.prems"(2) by (simp add: screen_ok_def)
    then obtain con' where put: "consputs (con\<lparr>input := inp\<rparr>) echo = Ok con'" "screen_ok con'"
      "input con' = inp" using consputs_ok by fastforce
    have "\<exists>con'' dump'. consoleintr con' cs (wake \<or> w) dump =
        Ok (con'', (wake \<or> w) \<or> snd (line_chars (q', l') cs), dump') \<and> screen_ok con'' \<and>
        in_rep (input con'') (fst (fst (line_chars (q', l') cs))) (snd (fst (line_chars (q', l') cs)))"
      using "2.IH"(2) [OF False ic [symmetric] refl refl put(1), of q' l'] put(2,3) rep "2.prems"(3) by auto
    then show ?thesis
      using False ic lc w put(1) by (auto simp: disj_assoc split: prod.split)
  qed
qed

subsection \<open>Numbers\<close>

definition digit_val :: "u8 \<Rightarrow> nat" where
  "digit_val d = (if d < 58 then unat d - 48 else unat d - 87)"

primrec digits_val :: "nat \<Rightarrow> u8 list \<Rightarrow> nat" where
  "digits_val b [] = 0"
| "digits_val b (d # ds) = digit_val d + b * digits_val b ds"

lemma digit_val_digits:
  assumes "i < 16"
  shows "digit_val (digits ! i) = i"
proof -
  have all: "map digit_val digits = [0 ..< 16]" by (simp add: digits_def digit_val_def upt_rec)
  have "length digits = 16" by (simp add: digits_def)
  then have "digit_val (digits ! i) = map digit_val digits ! i" using assms by simp
  then show ?thesis using assms unfolding all by simp
qed

lemma printint_digits_ok:
  assumes "2 \<le> unat base" and "unat base \<le> 16" and "length buf + k \<le> 16" and "unat x < unat base ^ k" and "0 < k"
  shows "\<exists>ds. printint_digits x base buf = Ok (buf @ ds) \<and> digits_val (unat base) ds = unat x \<and>
    ds \<noteq> [] \<and> length ds \<le> k"
  using assms(3-5)
proof (induction k arbitrary: x buf)
  case (Suc k)
  let ?d = "digits ! unat (x mod base)"
  have ok: "\<not> (length buf \<ge> 16 \<or> base < 2 \<or> 16 < base)"
    using assms(1,2) Suc.prems by (simp add: word_less_nat_alt)
  have "unat x mod unat base < unat base" using assms(1) by (intro mod_less_divisor) simp
  then have "unat (x mod base) < 16" using assms(2) by (simp add: unat_mod)
  then have d: "digit_val ?d = unat x mod unat base" by (simp add: digit_val_digits unat_mod)
  show ?case
  proof (cases "x div base = 0")
    case True
    then have "unat x div unat base = 0" by (simp flip: unat_div)
    then have "unat x mod unat base = unat x" using mult_div_mod_eq [of "unat base" "unat x"] by simp
    then show ?thesis
      using True ok d by (subst printint_digits.simps) (auto simp: Let_def)
  next
    case False
    have lt: "unat (x div base) < unat base ^ k"
      using Suc.prems(2) assms(1) by (simp add: unat_div div_less_iff_less_mult mult.commute)
    moreover have "0 < k"
      using lt False by (cases k) (auto simp: unat_eq_0)
    ultimately obtain ds where
      "printint_digits (x div base) base (buf @ [?d]) = Ok ((buf @ [?d]) @ ds)"
      "digits_val (unat base) ds = unat (x div base)" "ds \<noteq> []" "length ds \<le> k"
      using Suc.IH [of "buf @ [?d]" "x div base"] Suc.prems by auto
    then show ?thesis
      using False ok d by (subst printint_digits.simps) (auto simp: Let_def unat_div)
  qed
qed simp

subsection \<open>Properties\<close>

definition con_init :: console where
  "con_init = \<lparr>panicked = False, cons_locking = True, crt = (\<lambda>_. 0), crt_pos = 0, uart = True, uart_tx = [],
     input = \<lparr>in_buf = replicate 128 0, in_r = 0, in_w = 0, in_e = 0\<rparr>\<rparr>"

lemma con_init_ok: "in_rep (input con_init) [] []" "screen_ok con_init"
  by (simp_all add: in_rep_def con_init_def screen_ok_def)

text \<open>
  C7. The console interrupt handler implements the line discipline: whatever characters arrive, it
  returns (the echo never trips the screen's bounds check), the ring buffer and its three indices
  represent exactly the committed bytes and the line being edited that the index-free specification
  \<open>line_chars\<close> gives, and a reader is woken exactly when the specification hands over a line.
\<close>

theorem consoleintr_refines_line:
  assumes "in_rep (input con) q l" and "screen_ok con" and "\<forall>c \<in> set cs. 0 \<le> c \<and> c \<le> 255"
  shows "\<exists>con' dump' q' l' w. line_chars (q, l) cs = ((q', l'), w) \<and>
    consoleintr con cs False False = Ok (con', w, dump') \<and> screen_ok con' \<and> in_rep (input con') q' l'"
  using consoleintr_rep [OF assms, of False False] by (metis prod.collapse simp_thms(32))

theorem consoleintr_refines_line_witness:
  "\<exists>con' dump'. consoleintr con_init [97, 120, 8, 98, 13] False False = Ok (con', True, dump') \<and>
     in_rep (input con') [97, 98, 10] []"
proof -
  have "\<forall>c \<in> set [97, 120, 8, 98, 13 :: int]. 0 \<le> c \<and> c \<le> 255" by simp
  note main = consoleintr_refines_line [OF con_init_ok this]
  have "line_chars ([], []) [97, 120, 8, 98, 13] = (([97, 98, 10], []), True)"
    by (simp add: line_char_def)
  with main show ?thesis by (auto simp del: consoleintr.simps)
qed

text \<open>
  C8. A console read takes bytes from the front of the committed input, in order, up to the count,
  a newline or a ^D, and leaves the rest of the input and the line being edited as they were; with no
  input it waits, or fails when the process has been killed.
\<close>

theorem consoleread_refines_line:
  assumes "in_rep inp q l"
  shows "case consoleread_loop killed inp n [] of
      Read got inp' \<Rightarrow> (\<exists>q'. line_read killed q n [] = LRead got q' \<and> in_rep inp' q' l)
    | Killed _ \<Rightarrow> line_read killed q n [] = LKilled
    | Wait got inp' \<Rightarrow> (\<exists>q'. line_read killed q n [] = LWait got q' \<and> in_rep inp' q' l)"
proof -
  have "cread_rep (consoleread_loop killed inp n []) (line_read killed q n []) l"
    using assms by (rule consoleread_loop_rep)
  then show ?thesis
    by (cases "consoleread_loop killed inp n []"; cases "line_read killed q n []") auto
qed

theorem consoleread_refines_line_witness:
  "\<exists>inp'. consoleread_loop False \<lparr>in_buf = [97, 10] @ replicate 126 0, in_r = 0, in_w = 2, in_e = 2\<rparr> (Suc (Suc 3)) []
     = Read [97, 10] inp' \<and> in_rep inp' [] []"
proof -
  let ?inp = "\<lparr>in_buf = [97, 10] @ replicate 126 0, in_r = 0, in_w = 2, in_e = 2\<rparr>"
  have "in_rep ?inp [97, 10] []" by (simp add: in_rep_def ring_def numeral_2_eq_2)
  note main = consoleread_refines_line [OF this, of False "Suc (Suc 3)"]
  have "line_read False [97, 10] (Suc (Suc n)) [] = LRead [97, 10] []" for n by simp
  from main this [of 3] show ?thesis by (cases "consoleread_loop False ?inp (Suc (Suc 3)) []") auto
qed

text \<open>
  C34. The number printer always fits its 16-byte buffer in the two bases it is called with, and the
  digits it produces (least significant first) denote the number.
\<close>

theorem printint_digits_correct:
  assumes "base = 10 \<or> base = 16"
  shows "\<exists>ds. printint_digits x base [] = Ok ds \<and> digits_val (unat base) ds = unat x \<and> 0 < length ds \<and> length ds \<le> 10"
proof -
  have "unat x < unat base ^ 10"
    using assms unat_u32_less [of x] by (auto simp del: unat_u32_less)
  then show ?thesis
    using printint_digits_ok [of base "[]" 10 x] assms by auto
qed

theorem printint_digits_correct_witness:
  "\<exists>ds. printint_digits 255 16 [] = Ok ds \<and> digits_val 16 ds = 255"
  using printint_digits_correct [of 16 255] by auto

end
