(* ===== verification/Pipe.thy ===== *)
theory Pipe
  imports Ring
begin

text \<open>
  Pipes (\<open>pipe.c\<close>): a 512-byte ring buffer with free-running read and write counters.

  A writer or reader that has to wait goes to sleep with the pipe unlocked, and takes up its loop
  again when it is woken. So \<open>pipewrite\<close> and \<open>piperead\<close> are given as one activation of the loop:
  it either returns a value or sleeps at a known point, and the step relation \<open>pipe_step\<close> puts the
  activations of one writer, one reader and the two \<open>close\<close> calls together in any order.
\<close>

definition PIPESIZE :: nat where "PIPESIZE = 512"

record pipe =
  p_data :: "u8 list"
  nread :: u32
  nwrite :: u32
  readopen :: bool
  writeopen :: bool

definition pipe_init :: "pipe \<Rightarrow> pipe" where
  "pipe_init p = p\<lparr>readopen := True, writeopen := True, nwrite := 0, nread := 0\<rparr>"

text \<open>Outcome of an activation: a return value, and whether the other side was woken; or asleep.\<close>

datatype pipe_out = Returns int pipe bool | Sleeps pipe

definition pipe_full :: "pipe \<Rightarrow> bool" where
  "pipe_full p \<longleftrightarrow> nwrite p = nread p + of_nat PIPESIZE"

definition pipe_empty :: "pipe \<Rightarrow> bool" where
  "pipe_empty p \<longleftrightarrow> nread p = nwrite p"

definition pipe_put :: "u8 \<Rightarrow> pipe \<Rightarrow> pipe" where
  "pipe_put c p = p\<lparr>p_data := (p_data p)[unat (nwrite p mod of_nat PIPESIZE) := c], nwrite := nwrite p + 1\<rparr>"

definition pipe_get :: "pipe \<Rightarrow> u8 \<times> pipe" where
  "pipe_get p = (p_data p ! unat (nread p mod of_nat PIPESIZE), p\<lparr>nread := nread p + 1\<rparr>)"

text \<open>
  \<open>pipewrite\<close> from byte \<open>i\<close> on: \<open>rest\<close> are the bytes still to be written and \<open>n\<close> the count that is
  returned at the end. When it sleeps, the number of bytes left is the second component.
\<close>

fun pipewrite :: "bool \<Rightarrow> pipe \<Rightarrow> u8 list \<Rightarrow> int \<Rightarrow> pipe_out \<times> u8 list" where
  "pipewrite killed p [] n = (Returns n p True, [])"
| "pipewrite killed p (c # rest) n =
     (if pipe_full p then
        (if \<not> readopen p \<or> killed then (Returns (-1) p False, c # rest) else (Sleeps p, c # rest))
      else pipewrite killed (pipe_put c p) rest n)"

fun piperead_copy :: "nat \<Rightarrow> pipe \<Rightarrow> u8 list \<times> pipe" where
  "piperead_copy 0 p = ([], p)"
| "piperead_copy (Suc n) p =
     (if pipe_empty p then ([], p)
      else (let (c, p1) = pipe_get p; (cs, p2) = piperead_copy n p1 in (c # cs, p2)))"

definition piperead :: "bool \<Rightarrow> pipe \<Rightarrow> nat \<Rightarrow> pipe_out \<times> u8 list" where
  "piperead killed p n =
     (if pipe_empty p \<and> writeopen p then (if killed then (Returns (-1) p False, []) else (Sleeps p, []))
      else (let (cs, p) = piperead_copy n p in (Returns (int (length cs)) p True, cs)))"

text \<open>\<open>pipeclose\<close>: the new pipe and whether its page is freed. It wakes the other side in any case.\<close>

definition pipeclose :: "pipe \<Rightarrow> bool \<Rightarrow> pipe \<times> bool" where
  "pipeclose p writable =
     (let p = (if writable then p\<lparr>writeopen := False\<rparr> else p\<lparr>readopen := False\<rparr>)
      in (p, \<not> readopen p \<and> \<not> writeopen p))"

subsection \<open>The pipe is a bounded queue\<close>

definition pipe_rep :: "pipe \<Rightarrow> u8 list \<Rightarrow> bool" where
  "pipe_rep p q \<longleftrightarrow>
     length (p_data p) = PIPESIZE \<and> length q \<le> PIPESIZE \<and> nwrite p = nread p + of_nat (length q) \<and>
     ring PIPESIZE (p_data p) (nread p) (length q) = q"

lemma PIPESIZE_dvd: "PIPESIZE dvd 4294967296"
  by (simp add: PIPESIZE_def)

lemma unat_mod_PIPESIZE: "unat (a mod of_nat PIPESIZE) = unat a mod PIPESIZE" for a :: u32
  by (simp add: PIPESIZE_def unat_mod)

interpretation pq: bounded_queue pipe_rep PIPESIZE pipe_put pipe_get pipe_full pipe_empty
proof unfold_locales
  fix p :: pipe and q :: "u8 list" and c :: u8
  assume rep: "pipe_rep p q"
  then show le: "length q \<le> PIPESIZE" by (simp add: pipe_rep_def)
  then have small: "length q < 4294967296" by (simp add: PIPESIZE_def)
  show "pipe_full p \<longleftrightarrow> length q = PIPESIZE"
    using rep of_nat_u32_eq_iff [OF small, of PIPESIZE]
    by (simp add: pipe_rep_def pipe_full_def PIPESIZE_def)
  show "pipe_empty p \<longleftrightarrow> q = []"
    using rep of_nat_u32_eq_0 [OF small] by (auto simp: pipe_rep_def pipe_empty_def)
  show "pipe_rep (pipe_put c p) (q @ [c])" if "length q < PIPESIZE"
    using rep that ring_push [OF PIPESIZE_dvd that, of "p_data p" "nread p" c]
    by (simp add: pipe_rep_def pipe_put_def unat_mod_PIPESIZE)
next
  fix p :: pipe and q :: "u8 list" and c :: u8
  assume "pipe_rep p (c # q)"
  then show "fst (pipe_get p) = c \<and> pipe_rep (snd (pipe_get p)) q"
    using ring_Cons [OF PIPESIZE_dvd, of "p_data p" "nread p" "length q"]
    by (auto simp: pipe_rep_def pipe_get_def unat_mod_PIPESIZE)
qed

lemma piperead_copy_pop_all: "piperead_copy n p = pop_all pipe_empty pipe_get n p"
  by (induction n arbitrary: p) (auto split: prod.split)

lemma pipe_put_simps [simp]:
  "readopen (pipe_put c p) = readopen p" "writeopen (pipe_put c p) = writeopen p"
  by (simp_all add: pipe_put_def)

lemma pipewrite_push_all:
  "pipewrite killed p cs n =
     (case push_all pipe_full pipe_put cs p of
        ([], p') \<Rightarrow> (Returns n p' True, [])
      | (rest, p') \<Rightarrow> (if \<not> readopen p' \<or> killed then (Returns (-1) p' False, rest) else (Sleeps p', rest)))"
  by (induction killed p cs n rule: pipewrite.induct) auto

lemma pipewrite_rep:
  assumes "pipe_rep p q"
  shows "\<exists>p'. pipe_rep p' (q @ take (PIPESIZE - length q) cs) \<and>
    pipewrite killed p cs n =
      (if length q + length cs \<le> PIPESIZE then (Returns n p' True, [])
       else (if \<not> readopen p' \<or> killed then Returns (-1) p' False else Sleeps p', drop (PIPESIZE - length q) cs))"
proof -
  obtain rest p' where pa: "push_all pipe_full pipe_put cs p = (rest, p')" by (metis surj_pair)
  then have rest: "rest = drop (PIPESIZE - length q) cs" and rep: "pipe_rep p' (q @ take (PIPESIZE - length q) cs)"
    using pq.push_all_rep [OF assms, of cs] by simp_all
  have "rest = [] \<longleftrightarrow> length q + length cs \<le> PIPESIZE"
    using rest pq.bound [OF assms] by auto
  then show ?thesis
    using rep unfolding pipewrite_push_all pa
    by (intro exI [of _ p']) (auto simp: rest split: list.split)
qed

lemma piperead_rep:
  assumes "pipe_rep p q"
  shows "\<exists>p'. pipe_rep p' (drop n q) \<and>
    piperead killed p n =
      (if q = [] \<and> writeopen p then (if killed then Returns (-1) p False else Sleeps p, [])
       else (Returns (int (length (take n q))) p' True, take n q))"
proof -
  obtain cs p' where pa: "pop_all pipe_empty pipe_get n p = (cs, p')" by (metis surj_pair)
  then have "cs = take n q" "pipe_rep p' (drop n q)"
    using pq.pop_all_rep [OF assms, of n] by simp_all
  then show ?thesis
    using pq.nodata_iff [OF assms] pa
    by (intro exI [of _ p']) (auto simp: piperead_def piperead_copy_pop_all)
qed

subsection \<open>A writer and a reader\<close>

text \<open>
  The pipe with the history of one writer and one reader: \<open>todo\<close> is what the writer's current call still
  has to write, \<open>sent\<close> and \<open>got\<close> are the bytes put in and taken out so far.
\<close>

record pipe_sys =
  ps_pipe :: pipe
  todo :: "u8 list"
  sent :: "u8 list"
  got :: "u8 list"

fun out_pipe :: "pipe_out \<Rightarrow> pipe" where
  "out_pipe (Returns r p w) = p"
| "out_pipe (Sleeps p) = p"

inductive pipe_step :: "pipe_sys \<Rightarrow> pipe_sys \<Rightarrow> bool" where
  write_call: "todo s = [] \<Longrightarrow> pipe_step s (s\<lparr>todo := cs\<rparr>)"
| write_run: "pipewrite killed (ps_pipe s) (todo s) n = (out, rest) \<Longrightarrow>
    pipe_step s (s\<lparr>ps_pipe := out_pipe out,
      sent := sent s @ take (length (todo s) - length rest) (todo s),
      todo := (case out of Returns r p w \<Rightarrow> [] | Sleeps p \<Rightarrow> rest)\<rparr>)"
| read_run: "piperead killed (ps_pipe s) n = (out, cs) \<Longrightarrow>
    pipe_step s (s\<lparr>ps_pipe := out_pipe out, got := got s @ cs\<rparr>)"
| close_end: "pipe_step s (s\<lparr>ps_pipe := fst (pipeclose (ps_pipe s) w)\<rparr>)"

inductive_cases pipe_stepE: "pipe_step s s'"

definition pipe_start :: "pipe \<Rightarrow> pipe_sys" where
  "pipe_start p = \<lparr>ps_pipe = pipe_init p, todo = [], sent = [], got = []\<rparr>"

definition pipe_inv :: "pipe_sys \<Rightarrow> bool" where
  "pipe_inv s \<longleftrightarrow> (\<exists>q. pipe_rep (ps_pipe s) q \<and> sent s = got s @ q)"

lemma pipe_rep_flags [simp]:
  "pipe_rep (p\<lparr>writeopen := b\<rparr>) q \<longleftrightarrow> pipe_rep p q" "pipe_rep (p\<lparr>readopen := b\<rparr>) q \<longleftrightarrow> pipe_rep p q"
  by (simp_all add: pipe_rep_def)

lemma pipe_inv_step:
  assumes "pipe_step s s'" and "pipe_inv s"
  shows "pipe_inv s'"
  using assms
proof (induction rule: pipe_step.induct)
  case (write_call s cs)
  then show ?case by (simp add: pipe_inv_def)
next
  case (write_run killed s n out rest)
  then obtain q where q: "pipe_rep (ps_pipe s) q" "sent s = got s @ q" by (auto simp: pipe_inv_def)
  from pipewrite_rep [OF q(1), of "todo s" killed n] write_run(1) obtain p' where
    p': "pipe_rep p' (q @ take (PIPESIZE - length q) (todo s))" "out_pipe out = p'"
    "rest = drop (PIPESIZE - length q) (todo s)"
    by (auto split: if_splits)
  have "take (length (todo s) - length rest) (todo s) = take (PIPESIZE - length q) (todo s)"
    unfolding p'(3) by (cases "PIPESIZE - length q \<le> length (todo s)") simp_all
  then show ?case using p' q by (auto simp: pipe_inv_def)
next
  case (read_run killed s n out cs)
  then obtain q where q: "pipe_rep (ps_pipe s) q" "sent s = got s @ q" by (auto simp: pipe_inv_def)
  from piperead_rep [OF q(1), of n killed] obtain p' where rep: "pipe_rep p' (drop n q)"
    and run: "piperead killed (ps_pipe s) n =
      (if q = [] \<and> writeopen (ps_pipe s) then (if killed then Returns (-1) (ps_pipe s) False else Sleeps (ps_pipe s), [])
       else (Returns (int (length (take n q))) p' True, take n q))"
    by blast
  show ?case
  proof (cases "q = [] \<and> writeopen (ps_pipe s)")
    case True
    then have "out_pipe out = ps_pipe s" "cs = []" using run read_run(1) by auto
    then show ?thesis using q by (auto simp: pipe_inv_def)
  next
    case False
    then have "out_pipe out = p'" "cs = take n q" using run read_run(1) by auto
    then show ?thesis using q rep by (auto simp: pipe_inv_def)
  qed
next
  case (close_end s w)
  then show ?case by (auto simp: pipe_inv_def pipeclose_def Let_def)
qed

subsection \<open>Properties\<close>

lemma pipe_init_rep: "length (p_data p) = PIPESIZE \<Longrightarrow> pipe_rep (pipe_init p) []"
  by (simp add: pipe_rep_def pipe_init_def)

definition pipe_blank :: pipe where
  "pipe_blank = \<lparr>p_data = replicate PIPESIZE 0, nread = 0, nwrite = 0, readopen = False, writeopen = False\<rparr>"

lemma pipe_blank_length: "length (p_data pipe_blank) = PIPESIZE"
  by (simp add: pipe_blank_def)

text \<open>
  C4. A pipe is a faithful byte stream: after any interleaving of activations of the writer, the
  reader and the close calls, from a fresh pipe on, the bytes sent are the bytes received so far
  followed by at most 512 bytes still in the buffer. No byte is lost, repeated or reordered, also
  when the 32-bit counters wrap around.
\<close>

theorem pipe_stream:
  assumes "pipe_step\<^sup>*\<^sup>* (pipe_start p) s" and "length (p_data p) = PIPESIZE"
  shows "\<exists>q. pipe_rep (ps_pipe s) q \<and> length q \<le> PIPESIZE \<and> sent s = got s @ q"
proof -
  have "pipe_inv s"
    using assms(1)
  proof (induction rule: rtranclp_induct)
    case base
    then show ?case using pipe_init_rep [OF assms(2)] by (auto simp: pipe_inv_def pipe_start_def)
  next
    case (step s s')
    then show ?case using pipe_inv_step by blast
  qed
  then show ?thesis using pq.bound by (auto simp: pipe_inv_def)
qed

theorem pipe_stream_witness:
  "\<exists>s. pipe_step\<^sup>*\<^sup>* (pipe_start pipe_blank) s \<and> sent s = [104, 105] \<and> got s = [104] \<and>
     pipe_rep (ps_pipe s) [105]"
proof -
  define s0 where "s0 = pipe_start pipe_blank"
  define s1 where "s1 = s0\<lparr>todo := [104, 105]\<rparr>"
  have "pipe_rep (ps_pipe s1) []"
    using pipe_init_rep [OF pipe_blank_length] by (simp add: s1_def s0_def pipe_start_def)
  from pipewrite_rep [OF this, of "[104, 105]" False 2]
  obtain p1 where p1: "pipewrite False (ps_pipe s1) [104, 105] 2 = (Returns 2 p1 True, [])" "pipe_rep p1 [104, 105]"
    by (auto simp: PIPESIZE_def simp del: pipewrite.simps)
  define s2 where "s2 = s1\<lparr>ps_pipe := p1, sent := [104, 105], todo := []\<rparr>"
  from piperead_rep [OF p1(2), of 1 False]
  obtain p2 where p2: "piperead False p1 1 = (Returns 1 p2 True, [104])"
    by auto
  define s3 where "s3 = s2\<lparr>ps_pipe := p2, got := [104]\<rparr>"
  have st1: "pipe_step s0 s1"
    unfolding s1_def by (rule pipe_step.write_call) (simp add: s0_def pipe_start_def)
  have st2: "pipe_step s1 s2"
    using pipe_step.write_run [of False s1 2 "Returns 2 p1 True" "[]"] p1(1)
    by (simp add: s2_def s1_def s0_def pipe_start_def)
  have st3: "pipe_step s2 s3"
    using pipe_step.read_run [of False s2 1 "Returns 1 p2 True" "[104]"] p2
    by (simp add: s3_def s2_def s1_def s0_def pipe_start_def)
  have run: "pipe_step\<^sup>*\<^sup>* (pipe_start pipe_blank) s3"
    unfolding s0_def [symmetric]
    by (intro converse_rtranclp_into_rtranclp [of pipe_step, OF st1]
        converse_rtranclp_into_rtranclp [of pipe_step, OF st2] r_into_rtranclp [of pipe_step, OF st3])
  have s3: "sent s3 = [104, 105]" "got s3 = [104]" by (simp_all add: s3_def s2_def)
  with pipe_stream [OF run pipe_blank_length] have "pipe_rep (ps_pipe s3) [105]" by auto
  with run s3 show ?thesis by blast
qed

text \<open>
  C20. One activation of \<open>pipewrite\<close>: it fills the buffer in order and returns the count when everything
  fits; otherwise it stops exactly when the 512 bytes are full, and returns -1 if the reader is gone
  or the process was killed, or sleeps with the bytes that did not fit still to be written.
\<close>

theorem pipewrite_correct:
  assumes "pipe_rep p q"
  shows "\<exists>p'. pipe_rep p' (q @ take (512 - length q) cs) \<and>
    pipewrite killed p cs n =
      (if length q + length cs \<le> 512 then (Returns n p' True, [])
       else (if \<not> readopen p' \<or> killed then Returns (-1) p' False else Sleeps p', drop (512 - length q) cs))"
  using pipewrite_rep [OF assms, of cs killed n] unfolding PIPESIZE_def .

theorem pipewrite_correct_witness:
  "\<exists>p'. pipewrite False (pipe_init pipe_blank) [7, 8] 2 = (Returns 2 p' True, []) \<and> pipe_rep p' [7, 8]"
  using pipewrite_correct [OF pipe_init_rep [OF pipe_blank_length], of "[7, 8]" False 2]
  by (auto simp del: pipewrite.simps)

end
