(* ===== verification/Lock.thy ===== *)
theory Lock
  imports Prelude
begin

text \<open>
  Spin locks (\<open>spinlock.c\<close>) and sleep locks (\<open>sleeplock.c\<close>).

  The spin lock is modelled at the level of its atomic actions: \<open>pushcli\<close>, the \<open>xchg\<close>, the stores of
  \<open>acquire\<close> and \<open>release\<close>, \<open>popcli\<close>. The step relation \<open>lock_step\<close> interleaves them over any number
  of CPUs; it is what justifies that the other theories take each critical section as one step.
\<close>

subsection \<open>Interrupts\<close>

text \<open>The part of \<open>struct cpu\<close> that the locks use, and the CPU's interrupt flag (\<open>FL_IF\<close> of \<open>eflags\<close>).\<close>

record cpu =
  fl_if :: bool
  ncli :: int
  intena :: bool

definition pushcli :: "cpu \<Rightarrow> cpu" where
  "pushcli c =
     (let eflags = fl_if c;
          c = c\<lparr>fl_if := False\<rparr>;
          c = (if ncli c = 0 then c\<lparr>intena := eflags\<rparr> else c)
      in c\<lparr>ncli := ncli c + 1\<rparr>)"

definition popcli :: "cpu \<Rightarrow> cpu res" where
  "popcli c =
     (if fl_if c then Panic ''popcli - interruptible''
      else
        (let c = c\<lparr>ncli := ncli c - 1\<rparr>
         in if ncli c < 0 then Panic ''popcli''
            else Ok (if ncli c = 0 \<and> intena c then c\<lparr>fl_if := True\<rparr> else c)))"

subsection \<open>Spin locks\<close>

record spinlock =
  locked :: u32
  lk_name :: string
  lk_cpu :: "nat option"
  pcs :: "u32 list"

definition initlock :: "spinlock \<Rightarrow> string \<Rightarrow> spinlock" where
  "initlock lk nm = lk\<lparr>lk_name := nm, locked := 0, lk_cpu := None\<rparr>"

definition holding :: "spinlock \<Rightarrow> nat \<Rightarrow> bool" where
  "holding lock me \<longleftrightarrow> locked lock \<noteq> 0 \<and> lk_cpu lock = Some me"

text \<open>
  \<open>getcallerpcs\<close> follows the chain of saved frame pointers: \<open>stk\<close> is the stack memory by word
  address, \<open>ebp\<close> the frame pointer and \<open>n\<close> the number of slots left.
\<close>

primrec getcallerpcs :: "(u32 \<Rightarrow> u32) \<Rightarrow> u32 \<Rightarrow> nat \<Rightarrow> u32 list" where
  "getcallerpcs stk ebp 0 = []"
| "getcallerpcs stk ebp (Suc n) =
     (if ebp = 0 \<or> ebp < 0x80000000 \<or> ebp = 0xffffffff then replicate (Suc n) 0
      else stk (ebp + 4) # getcallerpcs stk (stk ebp) n)"

text \<open>The three stages of \<open>acquire\<close>: the checks, one turn of the spin loop, and taking ownership.\<close>

definition acquire_enter :: "spinlock \<Rightarrow> nat \<Rightarrow> cpu \<Rightarrow> cpu res" where
  "acquire_enter lk me c = (let c = pushcli c in if holding lk me then Panic ''acquire'' else Ok c)"

definition acquire_xchg :: "spinlock \<Rightarrow> u32 \<times> spinlock" where
  "acquire_xchg lk = (locked lk, lk\<lparr>locked := 1\<rparr>)"

definition acquire_own :: "spinlock \<Rightarrow> nat \<Rightarrow> (u32 \<Rightarrow> u32) \<Rightarrow> u32 \<Rightarrow> spinlock" where
  "acquire_own lk me stk ebp = lk\<lparr>lk_cpu := Some me, pcs := getcallerpcs stk ebp 10\<rparr>"

text \<open>The stages of \<open>release\<close>: giving up ownership (after the check), clearing the word, \<open>popcli\<close>.\<close>

definition release_disown :: "spinlock \<Rightarrow> nat \<Rightarrow> spinlock res" where
  "release_disown lk me =
     (if \<not> holding lk me then Panic ''release'' else Ok (lk\<lparr>pcs := (pcs lk)[0 := 0], lk_cpu := None\<rparr>))"

definition release_clear :: "spinlock \<Rightarrow> spinlock" where
  "release_clear lk = lk\<lparr>locked := 0\<rparr>"

subsection \<open>Sleep locks\<close>

record sleeplock =
  sl_locked :: bool
  sl_name :: string
  sl_pid :: int

definition initsleeplock :: "sleeplock \<Rightarrow> string \<Rightarrow> sleeplock" where
  "initsleeplock lk nm = lk\<lparr>sl_name := nm, sl_locked := False, sl_pid := 0\<rparr>"

text \<open>\<open>acquiresleep\<close> by the process \<open>pid\<close>; it sleeps while the lock is taken.\<close>

definition acquiresleep :: "sleeplock \<Rightarrow> int \<Rightarrow> sleeplock res" where
  "acquiresleep lk pid =
     (if sl_locked lk then Sleep ''sleeplock'' else Ok (lk\<lparr>sl_locked := True, sl_pid := pid\<rparr>))"

definition releasesleep :: "sleeplock \<Rightarrow> sleeplock" where
  "releasesleep lk = lk\<lparr>sl_locked := False, sl_pid := 0\<rparr>"

definition holdingsleep :: "sleeplock \<Rightarrow> bool" where
  "holdingsleep lk = sl_locked lk"

subsection \<open>Contention for one spin lock\<close>

datatype lock_pc = Outside | Spinning | Won | Critical | Leaving | Popping

record lock_sys =
  the_lock :: spinlock
  cpus :: "nat \<Rightarrow> cpu"
  pc :: "nat \<Rightarrow> lock_pc"

inductive lock_step :: "lock_sys \<Rightarrow> lock_sys \<Rightarrow> bool" where
  enter: "pc s i = Outside \<Longrightarrow> acquire_enter (the_lock s) i (cpus s i) = Ok c \<Longrightarrow>
    lock_step s (s\<lparr>cpus := (cpus s)(i := c), pc := (pc s)(i := Spinning)\<rparr>)"
| spin: "pc s i = Spinning \<Longrightarrow> acquire_xchg (the_lock s) = (old, lk) \<Longrightarrow>
    lock_step s (s\<lparr>the_lock := lk, pc := (pc s)(i := if old \<noteq> 0 then Spinning else Won)\<rparr>)"
| own: "pc s i = Won \<Longrightarrow>
    lock_step s (s\<lparr>the_lock := acquire_own (the_lock s) i stk ebp, pc := (pc s)(i := Critical)\<rparr>)"
| disown: "pc s i = Critical \<Longrightarrow> release_disown (the_lock s) i = Ok lk \<Longrightarrow>
    lock_step s (s\<lparr>the_lock := lk, pc := (pc s)(i := Leaving)\<rparr>)"
| clear: "pc s i = Leaving \<Longrightarrow>
    lock_step s (s\<lparr>the_lock := release_clear (the_lock s), pc := (pc s)(i := Popping)\<rparr>)"
| pop: "pc s i = Popping \<Longrightarrow> popcli (cpus s i) = Ok c \<Longrightarrow>
    lock_step s (s\<lparr>cpus := (cpus s)(i := c), pc := (pc s)(i := Outside)\<rparr>)"

inductive_cases lock_stepE: "lock_step s s'"

text \<open>Before the first acquisition: the lock is free, and a CPU that is nested in \<open>pushcli\<close> runs with interrupts off.\<close>

definition cpu_ok :: "cpu \<Rightarrow> bool" where
  "cpu_ok c \<longleftrightarrow> 0 \<le> ncli c \<and> (0 < ncli c \<longrightarrow> \<not> fl_if c)"

definition lock_start :: "lock_sys \<Rightarrow> bool" where
  "lock_start s \<longleftrightarrow> locked (the_lock s) = 0 \<and> lk_cpu (the_lock s) = None \<and>
     (\<forall>i. pc s i = Outside \<and> cpu_ok (cpus s i))"

definition inside :: "lock_pc \<Rightarrow> bool" where
  "inside p \<longleftrightarrow> p = Won \<or> p = Critical \<or> p = Leaving"

definition lock_inv :: "lock_sys \<Rightarrow> bool" where
  "lock_inv s \<longleftrightarrow>
     (\<forall>i. inside (pc s i) \<longrightarrow> locked (the_lock s) \<noteq> 0) \<and>
     (\<forall>i j. inside (pc s i) \<and> inside (pc s j) \<longrightarrow> i = j) \<and>
     (\<forall>i. lk_cpu (the_lock s) = Some i \<longleftrightarrow> pc s i = Critical) \<and>
     (\<forall>i. cpu_ok (cpus s i)) \<and>
     (\<forall>i. pc s i \<noteq> Outside \<longrightarrow> 0 < ncli (cpus s i))"

lemma inside_simps [simp]:
  "inside Won" "inside Critical" "inside Leaving" "\<not> inside Outside" "\<not> inside Spinning" "\<not> inside Popping"
  by (simp_all add: inside_def)

lemma lock_inv_start: "lock_start s \<Longrightarrow> lock_inv s"
  by (simp add: lock_start_def lock_inv_def)

lemma pushcli_ok: "cpu_ok c \<Longrightarrow> cpu_ok (pushcli c) \<and> 0 < ncli (pushcli c)"
  by (auto simp: cpu_ok_def pushcli_def Let_def)

lemma popcli_ok:
  "cpu_ok c \<Longrightarrow> 0 < ncli c \<Longrightarrow> \<exists>c'. popcli c = Ok c' \<and> cpu_ok c' \<and> ncli c' = ncli c - 1"
  by (auto simp: cpu_ok_def popcli_def Let_def)

lemma lock_inv_step:
  assumes "lock_step s s'" and "lock_inv s"
  shows "lock_inv s'"
  using assms
proof (induction rule: lock_step.induct)
  case (enter s i c)
  then have "c = pushcli (cpus s i)" by (simp add: acquire_enter_def Let_def split: if_splits)
  with enter pushcli_ok [of "cpus s i"] show ?case by (auto simp: lock_inv_def)
next
  case (spin s i old lk)
  then have "old = locked (the_lock s)" "lk = (the_lock s)\<lparr>locked := 1\<rparr>" by (simp_all add: acquire_xchg_def)
  with spin show ?case by (auto simp: lock_inv_def inside_def split: if_splits)
next
  case (own s i stk ebp)
  then have "inside (pc s i)" by simp
  with own show ?case by (auto simp: lock_inv_def acquire_own_def inside_def)
next
  case (disown s i lk)
  then have "lk = (the_lock s)\<lparr>pcs := (pcs (the_lock s))[0 := 0], lk_cpu := None\<rparr>"
    by (simp add: release_disown_def split: if_splits)
  moreover have "inside (pc s i)" using disown by simp
  ultimately show ?case using disown by (auto simp: lock_inv_def inside_def)
next
  case (clear s i)
  then have "inside (pc s i)" by simp
  with clear show ?case by (auto simp: lock_inv_def release_clear_def inside_def)
next
  case (pop s i c)
  moreover have "0 < ncli (cpus s i)" "cpu_ok (cpus s i)" using pop by (auto simp: lock_inv_def)
  ultimately show ?case using popcli_ok [of "cpus s i"] by (auto simp: lock_inv_def)
qed

lemma lock_inv_reachable: "lock_step\<^sup>*\<^sup>* s0 s \<Longrightarrow> lock_start s0 \<Longrightarrow> lock_inv s"
  by (induction rule: rtranclp_induct) (auto intro: lock_inv_start lock_inv_step)

subsection \<open>Properties\<close>

text \<open>
  C3. Spin locks exclude each other on any number of CPUs: in every reachable state at most one CPU is
  between winning the \<open>xchg\<close> and clearing the lock word, that CPU runs with interrupts off, and
  neither \<open>acquire\<close>'s nor \<open>release\<close>'s panic can happen.
\<close>

theorem spinlock_mutex:
  assumes "lock_step\<^sup>*\<^sup>* s0 s" and "lock_start s0"
  shows "(\<forall>i j. inside (pc s i) \<and> inside (pc s j) \<longrightarrow> i = j) \<and>
    (\<forall>i. inside (pc s i) \<longrightarrow> \<not> fl_if (cpus s i)) \<and>
    (\<forall>i. pc s i = Outside \<longrightarrow> is_Ok (acquire_enter (the_lock s) i (cpus s i))) \<and>
    (\<forall>i. pc s i = Critical \<longrightarrow> is_Ok (release_disown (the_lock s) i)) \<and>
    (\<forall>i. pc s i = Popping \<longrightarrow> is_Ok (popcli (cpus s i)))"
proof -
  have inv: "lock_inv s" using assms by (rule lock_inv_reachable)
  have "\<not> fl_if (cpus s i)" if "inside (pc s i)" for i
    using inv that by (auto simp: lock_inv_def cpu_ok_def inside_def)
  moreover have "is_Ok (acquire_enter (the_lock s) i (cpus s i))" if "pc s i = Outside" for i
    using inv that by (auto simp: lock_inv_def acquire_enter_def Let_def holding_def)
  moreover have "is_Ok (release_disown (the_lock s) i)" if "pc s i = Critical" for i
  proof -
    have "inside (pc s i)" using that by simp
    then have "locked (the_lock s) \<noteq> 0" using inv unfolding lock_inv_def by blast
    then have "holding (the_lock s) i" using inv that by (simp add: lock_inv_def holding_def)
    then show ?thesis by (simp add: release_disown_def)
  qed
  moreover have "is_Ok (popcli (cpus s i))" if "pc s i = Popping" for i
  proof -
    have "cpu_ok (cpus s i)" "0 < ncli (cpus s i)" using inv that by (auto simp: lock_inv_def)
    then show ?thesis using popcli_ok by (auto simp: is_Ok_iff)
  qed
  ultimately show ?thesis using inv by (auto simp: lock_inv_def)
qed

text \<open>
  A run: CPU 0 enters and wins the lock, CPU 1 enters and finds it taken, CPU 0 goes on into the critical section; CPU 2 stays
  outside.
\<close>

definition demo_cpu :: cpu where
  "demo_cpu = \<lparr>fl_if = True, ncli = 0, intena = False\<rparr>"

definition demo_free :: lock_sys where
  "demo_free = \<lparr>the_lock = \<lparr>locked = 0, lk_name = ''kmem'', lk_cpu = None, pcs = []\<rparr>, cpus = (\<lambda>_. demo_cpu), pc = (\<lambda>_. Outside)\<rparr>"

definition demo_taken :: lock_sys where
  "demo_taken = \<lparr>the_lock = acquire_own ((the_lock demo_free)\<lparr>locked := 1\<rparr>) 0 (\<lambda>_. 0) 0,
     cpus = (\<lambda>_. demo_cpu)(0 := pushcli demo_cpu, 1 := pushcli demo_cpu), pc = (\<lambda>_. Outside)(0 := Critical, 1 := Spinning)\<rparr>"

lemma demo_free_start: "lock_start demo_free"
  by (simp add: lock_start_def demo_free_def cpu_ok_def demo_cpu_def)

lemma demo_taken_reachable: "lock_step\<^sup>*\<^sup>* demo_free demo_taken"
proof -
  define s1 where "s1 = demo_free\<lparr>cpus := (cpus demo_free)(0 := pushcli demo_cpu), pc := (pc demo_free)(0 := Spinning)\<rparr>"
  define s2 where "s2 = s1\<lparr>the_lock := (the_lock s1)\<lparr>locked := 1\<rparr>, pc := (pc s1)(0 := Won)\<rparr>"
  define s3 where "s3 = s2\<lparr>cpus := (cpus s2)(1 := pushcli demo_cpu), pc := (pc s2)(1 := Spinning)\<rparr>"
  define s4 where "s4 = s3\<lparr>the_lock := (the_lock s3)\<lparr>locked := 1\<rparr>, pc := (pc s3)(1 := Spinning)\<rparr>"
  note states = s4_def s3_def s2_def s1_def demo_free_def
  have "lock_step demo_free s1"
    unfolding s1_def by (rule lock_step.enter) (simp_all add: demo_free_def acquire_enter_def holding_def)
  moreover have "lock_step s1 s2"
    using lock_step.spin [of s1 0 0 "(the_lock s1)\<lparr>locked := 1\<rparr>"] by (simp add: states acquire_xchg_def)
  moreover have "lock_step s2 s3"
    unfolding s3_def by (rule lock_step.enter) (simp_all add: states acquire_enter_def holding_def)
  moreover have "lock_step s3 s4"
    using lock_step.spin [of s3 1 1 "(the_lock s3)\<lparr>locked := 1\<rparr>"] by (simp add: states acquire_xchg_def)
  moreover have "lock_step s4 demo_taken"
    using lock_step.own [of s4 0 "\<lambda>_. 0" 0] by (simp add: states demo_taken_def fun_upd_twist)
  ultimately show ?thesis
    by (meson converse_rtranclp_into_rtranclp r_into_rtranclp)
qed

theorem spinlock_mutex_witness:
  "lock_start demo_free \<and> lock_step\<^sup>*\<^sup>* demo_free demo_taken \<and> pc demo_taken 0 = Critical \<and> pc demo_taken 1 = Spinning \<and>
   {i. inside (pc demo_taken i)} = {0} \<and> \<not> fl_if (cpus demo_taken 0) \<and>
   is_Ok (release_disown (the_lock demo_taken) 0) \<and> is_Ok (acquire_enter (the_lock demo_taken) 2 (cpus demo_taken 2))"
proof -
  note main = spinlock_mutex [OF demo_taken_reachable demo_free_start]
  have at: "pc demo_taken 0 = Critical" "pc demo_taken 1 = Spinning" "pc demo_taken 2 = Outside"
    by (simp_all add: demo_taken_def)
  have "inside (pc demo_taken 0)" using at by simp
  then have "{i. inside (pc demo_taken i)} = {0}" "\<not> fl_if (cpus demo_taken 0)" using main by blast+
  then show ?thesis using main at demo_taken_reachable demo_free_start by blast
qed

text \<open>\<open>n\<close> calls of \<open>popcli\<close> in a row.\<close>

primrec popclis :: "nat \<Rightarrow> cpu \<Rightarrow> cpu res" where
  "popclis 0 c = Ok c"
| "popclis (Suc n) c = bindR (popcli c) (popclis n)"

lemma popclis_last: "popclis (Suc n) c = bindR (popclis n c) popcli"
proof (induction n arbitrary: c)
  case 0
  then show ?case by (cases "popcli c") simp_all
next
  case (Suc n)
  then show ?case by (cases "popcli c") (simp_all del: bindR_assoc)
qed

lemma push_pop_inner:
  assumes "cpu_ok c" and "0 < ncli c"
  shows "popcli (pushcli c) = Ok c"
  using assms by (simp add: cpu_ok_def popcli_def pushcli_def Let_def)

lemma pushcli_nest: "cpu_ok c \<Longrightarrow> popclis n ((pushcli ^^ n) (pushcli c)) = Ok (pushcli c)"
proof (induction n)
  case (Suc n)
  have "cpu_ok ((pushcli ^^ n) (pushcli c)) \<and> 0 < ncli ((pushcli ^^ n) (pushcli c))"
    using Suc.prems by (induction n) (auto simp: pushcli_ok)
  then show ?case using Suc by (simp add: push_pop_inner)
qed simp

text \<open>
  C30. \<open>pushcli\<close> and \<open>popcli\<close> nest: \<open>n\<close> pushes followed by \<open>n\<close> pops never panic, and restore the CPU's
  interrupt flag and nesting depth; in between interrupts are off.
\<close>

theorem pushcli_popcli_restore:
  assumes "cpu_ok c"
  shows "\<exists>c'. popclis (Suc n) ((pushcli ^^ Suc n) c) = Ok c' \<and> fl_if c' = fl_if c \<and> ncli c' = ncli c \<and>
    \<not> fl_if ((pushcli ^^ Suc n) c)"
proof -
  have "popclis (Suc n) ((pushcli ^^ Suc n) c) = popcli (pushcli c)"
    using pushcli_nest [OF assms, of n] unfolding popclis_last by (simp add: funpow_swap1)
  moreover have "\<exists>c'. popcli (pushcli c) = Ok c' \<and> fl_if c' = fl_if c \<and> ncli c' = ncli c"
    using assms by (auto simp: cpu_ok_def popcli_def pushcli_def Let_def)
  moreover have "\<not> fl_if ((pushcli ^^ Suc n) c)"
    by (simp add: pushcli_def [of "(pushcli ^^ n) c"] Let_def)
  ultimately show ?thesis by simp
qed

theorem pushcli_popcli_restore_witness:
  "\<exists>c'. popclis 2 ((pushcli ^^ 2) \<lparr>fl_if = True, ncli = 0, intena = False\<rparr>) = Ok c' \<and> fl_if c' \<and> ncli c' = 0"
proof -
  have "cpu_ok \<lparr>fl_if = True, ncli = 0, intena = False\<rparr>" by (simp add: cpu_ok_def)
  from pushcli_popcli_restore [OF this, of 1] show ?thesis by (auto simp: numeral_2_eq_2)
qed

end
