(* ===== verification/Kernel.thy ===== *)
theory Kernel
  imports Copyout Console Pipe Lock
begin

text \<open>
  The state of the kernel: the structures of \<open>proc.h\<close>, \<open>VirtualMemory.h\<close>, \<open>SharedMemory.h\<close>,
  \<open>file.h\<close>, \<open>fs.h\<close>, \<open>buf.h\<close> and \<open>x86.h\<close>, and one record \<open>kernel\<close> with the global variables of the C files, the
  disk and the control registers.

  Pointers into the kernel's static tables (processes, files, inodes, buffers) are indices, with
  \<open>None\<close> for null. Pointers to pages from \<open>kalloc\<close> are kernel addresses. The pages that hold memory tables,
  swap tables and pipes are kept as typed heaps (\<open>mtab\<close>, \<open>stab\<close>, \<open>pipes\<close>) indexed by the page's address; all
  other pages are in the byte-level memory \<open>pmem\<close> of the allocator.

  The routines of this theory and of those that import it describe one kernel thread: a critical
  section is one step, and a call that has to wait for another process ends in \<open>Sleep\<close>.
\<close>

definition NPROC :: nat where "NPROC = 64"
definition KSTACKSIZE :: u32 where "KSTACKSIZE = 4096"
definition NOFILE :: nat where "NOFILE = 16"
definition NFILE :: nat where "NFILE = 100"
definition NINODE :: nat where "NINODE = 50"
definition NDEV :: int where "NDEV = 10"
definition ROOTDEV :: u32 where "ROOTDEV = 1"
definition MAXARG :: nat where "MAXARG = 32"
definition MAXOPBLOCKS :: int where "MAXOPBLOCKS = 10"
definition LOGSIZE :: int where "LOGSIZE = MAXOPBLOCKS * 3"
definition NBUF :: nat where "NBUF = 30"
definition FSSIZE :: u32 where "FSSIZE = 1000"

subsection \<open>Processes\<close>

datatype procstate = UNUSED | EMBRYO | SLEEPING | RUNNABLE | RUNNING | ZOMBIE

text \<open>The C enumeration is ordered by its integer values.\<close>

primrec procstate_int :: "procstate \<Rightarrow> nat" where
  "procstate_int UNUSED = 0"
| "procstate_int EMBRYO = 1"
| "procstate_int SLEEPING = 2"
| "procstate_int RUNNABLE = 3"
| "procstate_int RUNNING = 4"
| "procstate_int ZOMBIE = 5"

lemma procstate_int_inject: "procstate_int a = procstate_int b \<longleftrightarrow> a = b"
  by (cases a; cases b) simp_all

instantiation procstate :: linorder
begin

definition less_eq_procstate :: "procstate \<Rightarrow> procstate \<Rightarrow> bool" where
  "less_eq_procstate a b \<longleftrightarrow> procstate_int a \<le> procstate_int b"

definition less_procstate :: "procstate \<Rightarrow> procstate \<Rightarrow> bool" where
  "less_procstate a b \<longleftrightarrow> procstate_int a < procstate_int b"

instance
  by standard (auto simp: less_eq_procstate_def less_procstate_def procstate_int_inject)

end

record trapframe =
  tf_edi :: u32
  tf_esi :: u32
  tf_ebp :: u32
  tf_ebx :: u32
  tf_edx :: u32
  tf_ecx :: u32
  tf_eax :: u32
  tf_gs :: u16
  tf_fs :: u16
  tf_es :: u16
  tf_ds :: u16
  tf_trapno :: u32
  tf_err :: u32
  tf_eip :: u32
  tf_cs :: u16
  tf_eflags :: u32
  tf_esp :: u32
  tf_ss :: u16

record kcontext =
  cx_edi :: u32
  cx_esi :: u32
  cx_ebx :: u32
  cx_ebp :: u32
  cx_eip :: u32

text \<open>What a process can sleep on: the address the code passes as \<open>chan\<close>.\<close>

datatype chan = ChProc nat | ChBuf nat | ChBufLock nat | ChInodeLock nat | ChLog | ChTicks | ChInput
  | ChPipeRead u32 | ChPipeWrite u32

subsection \<open>Virtual memory tables\<close>

definition MEMORY_TABLE_ENTRY_NUM :: nat where "MEMORY_TABLE_ENTRY_NUM = 340"
definition MEMORY_TABLE_LENGTH :: nat where "MEMORY_TABLE_LENGTH = 25"
definition MEMORY_TABLE_TOTAL_ENTRYS :: int where
  "MEMORY_TABLE_TOTAL_ENTRYS = int (MEMORY_TABLE_ENTRY_NUM * MEMORY_TABLE_LENGTH)"
definition SWAP_TABLE_ENTRY_NUM :: nat where "SWAP_TABLE_ENTRY_NUM = 1022"
definition SWAP_TABLE_PAGE_OFFSET :: nat where "SWAP_TABLE_PAGE_OFFSET = SWAP_TABLE_ENTRY_NUM * 4096"
definition SWAP_FILE_SIZE :: u32 where "SWAP_FILE_SIZE = 65536"
definition SWAP_FILE_MAX_NUM :: nat where "SWAP_FILE_MAX_NUM = 6"
definition SWAP_BUFFER_SIZE :: nat where "SWAP_BUFFER_SIZE = 1024"

text \<open>A pointer to an entry of a table is the page's address and the index of the entry.\<close>

type_synonym entry_ptr = "u32 \<times> nat"

record MemoryTableEntry =
  VirtualAddress :: u32
  Next :: "entry_ptr option"
  Last :: "entry_ptr option"

record MemoryTablePage =
  mp_last :: u32
  mp_next :: u32
  mp_entries :: "MemoryTableEntry list"

text \<open>An entry of a swap table is just its virtual address.\<close>

record SwapTablePage =
  sp_last :: u32
  sp_next :: u32
  sp_entries :: "u32 list"

definition SHARED_MEMORY_PER_PROC :: nat where "SHARED_MEMORY_PER_PROC = 8"
definition SHARED_MEMORY_GLOBAL :: nat where "SHARED_MEMORY_GLOBAL = 256"

record SharedMemoryEntry =
  sm_va :: u32
  Signature :: int
  UserNumber :: int

record proc =
  p_sz :: u32
  p_pgdir :: u32
  p_kstack :: u32
  p_state :: procstate
  p_pid :: int
  p_parent :: "nat option"
  p_tf :: trapframe
  p_context :: kcontext
  p_chan :: "chan option"
  p_killed :: bool
  p_ofile :: "nat option list"
  p_cwd :: "nat option"
  p_name :: "u8 list"
  p_stackSize :: u32
  MemoryTableListHead :: u32
  MemoryTableListTail :: u32
  SwapTableListHead :: u32
  SwapTableListTail :: u32
  MemoryListHead :: "entry_ptr option"
  MemoryListTail :: "entry_ptr option"
  MemoryEntryNum :: int
  SwapPageNum :: int
  FilesForSwap :: "nat option list"
  SelfSharedMemory :: "int list"

subsection \<open>Files\<close>

datatype ftype = FD_NONE | FD_PIPE | FD_INODE

record kfile =
  f_type :: ftype
  f_ref :: int
  f_readable :: u8
  f_writable :: u8
  f_pipe :: u32
  f_ip :: "nat option"
  f_off :: u32

definition T_DIR :: u16 where "T_DIR = 1"
definition T_FILE :: u16 where "T_FILE = 2"
definition T_DEV :: u16 where "T_DEV = 3"

record inode =
  i_dev :: u32
  i_inum :: u32
  i_ref :: int
  i_lock :: sleeplock
  i_valid :: bool
  i_type :: u16
  i_major :: u16
  i_minor :: u16
  i_nlink :: u16
  i_size :: u32
  i_addrs :: "u32 list"

definition ROOTINO :: u32 where "ROOTINO = 1"
definition BSIZE :: nat where "BSIZE = 512"
definition NDIRECT :: nat where "NDIRECT = 12"
definition NINDIRECT :: nat where "NINDIRECT = 128"
definition MAXFILE :: nat where "MAXFILE = NDIRECT + NINDIRECT"
definition DIRSIZ :: nat where "DIRSIZ = 14"
definition DINODE_SIZE :: nat where "DINODE_SIZE = 64"
definition IPB :: nat where "IPB = BSIZE div DINODE_SIZE"
definition BPB :: nat where "BPB = BSIZE * 8"

record superblock =
  sb_size :: u32
  sb_nblocks :: u32
  sb_ninodes :: u32
  sb_nlog :: u32
  sb_logstart :: u32
  sb_inodestart :: u32
  sb_bmapstart :: u32

definition B_VALID :: u32 where "B_VALID = 2"
definition B_DIRTY :: u32 where "B_DIRTY = 4"

record buf =
  b_flags :: u32
  b_dev :: u32
  b_blockno :: u32
  b_lock :: sleeplock
  b_refcnt :: u32
  b_prev :: nat
  b_next :: nat
  b_qnext :: "nat option"
  b_data :: "u8 list"

text \<open>\<open>struct log\<close> with its header; \<open>lh_block\<close> has \<open>LOGSIZE\<close> elements.\<close>

record logst =
  l_start :: int
  l_size :: int
  l_outstanding :: int
  l_committing :: bool
  l_dev :: u32
  lh_n :: int
  lh_block :: "int list"

record stat =
  st_type :: u16
  st_dev :: u32
  st_ino :: u32
  st_nlink :: u16
  st_size :: u32

subsection \<open>The kernel\<close>

text \<open>
  \<open>bufs\<close> is the array of the buffer cache with the list head as element \<open>NBUF\<close>. \<open>disk d s\<close> is sector
  \<open>s\<close> of drive \<open>d\<close>, \<open>dwrites\<close> the sector writes the
  drives have carried out, in order (drive, sector, contents), and \<open>ide_fault\<close> the error bits the drive reports once
  it is ready. \<open>kdata\<close> and
  \<open>kforkret\<close> are the linker symbols \<open>data\<close> and \<open>forkret\<close>, \<open>forkret_first\<close> is the static variable of \<open>forkret\<close>. \<open>curproc\<close> is \<open>mycpu()->proc\<close> on the CPU that runs the thread.
\<close>

record kernel =
  km :: kmem
  kdata :: u32
  kforkret :: u32
  forkret_first :: bool
  kpgdir :: u32
  cr2 :: u32
  cr3 :: u32
  ptable :: "proc list"
  initproc :: "nat option"
  nextpid :: int
  curproc :: "nat option"
  cpu_id :: int
  mtab :: "u32 \<Rightarrow> MemoryTablePage"
  stab :: "u32 \<Rightarrow> SwapTablePage"
  shm :: "SharedMemoryEntry list"
  bufs :: "buf list"
  idequeue :: "nat option"
  havedisk1 :: bool
  ide_fault :: bool
  disk :: "u32 \<Rightarrow> nat \<Rightarrow> u8 list"
  dwrites :: "(u32 \<times> nat \<times> u8 list) list"
  lg :: logst
  sb :: superblock
  icache :: "inode list"
  ftable :: "kfile list"
  pipes :: "u32 \<Rightarrow> pipe"
  con :: console
  devsw_console :: bool
  ticks :: u32

abbreviation proc_at :: "kernel \<Rightarrow> nat \<Rightarrow> proc" where
  "proc_at k p \<equiv> ptable k ! p"

definition upd_proc :: "kernel \<Rightarrow> nat \<Rightarrow> (proc \<Rightarrow> proc) \<Rightarrow> kernel" where
  "upd_proc k p f = k\<lparr>ptable := (ptable k)[p := f (ptable k ! p)]\<rparr>"

definition upd_buf :: "kernel \<Rightarrow> nat \<Rightarrow> (buf \<Rightarrow> buf) \<Rightarrow> kernel" where
  "upd_buf k b f = k\<lparr>bufs := (bufs k)[b := f (bufs k ! b)]\<rparr>"

definition upd_inode :: "kernel \<Rightarrow> nat \<Rightarrow> (inode \<Rightarrow> inode) \<Rightarrow> kernel" where
  "upd_inode k i f = k\<lparr>icache := (icache k)[i := f (icache k ! i)]\<rparr>"

definition upd_file :: "kernel \<Rightarrow> nat \<Rightarrow> (kfile \<Rightarrow> kfile) \<Rightarrow> kernel" where
  "upd_file k i f = k\<lparr>ftable := (ftable k)[i := f (ftable k ! i)]\<rparr>"

text \<open>\<open>myproc()\<close>, where the code then follows the pointer.\<close>

definition myproc :: "kernel \<Rightarrow> nat res" where
  "myproc k = (case curproc k of None \<Rightarrow> Fault ''myproc()'' | Some p \<Rightarrow> Ok p)"

definition deref :: "string \<Rightarrow> 'a option \<Rightarrow> 'a res" where
  "deref what x = (case x of None \<Rightarrow> Fault what | Some y \<Rightarrow> Ok y)"

text \<open>Array access with the index checked.\<close>

definition idx :: "string \<Rightarrow> 'a list \<Rightarrow> nat \<Rightarrow> 'a res" where
  "idx what xs i = (if i < length xs then Ok (xs ! i) else Fault what)"

definition wakeup1 :: "kernel \<Rightarrow> chan \<Rightarrow> kernel" where
  "wakeup1 k ch = k\<lparr>ptable := map (\<lambda>p. if p_state p = SLEEPING \<and> p_chan p = Some ch
     then p\<lparr>p_state := RUNNABLE\<rparr> else p) (ptable k)\<rparr>"

definition wakeup :: "kernel \<Rightarrow> chan \<Rightarrow> kernel" where
  "wakeup k ch = wakeup1 k ch"

text \<open>Console output from the kernel.\<close>

definition kprintf :: "kernel \<Rightarrow> string \<Rightarrow> parg list \<Rightarrow> kernel res" where
  "kprintf k fmt args = bindR (cprintf (con k) (bytes fmt) args) (\<lambda>c. Ok (k\<lparr>con := c\<rparr>))"

lemma upd_simps [simp]:
  "ptable (upd_proc k p f) = (ptable k)[p := f (ptable k ! p)]"
  "bufs (upd_buf k b g) = (bufs k)[b := g (bufs k ! b)]"
  "icache (upd_inode k i h) = (icache k)[i := h (icache k ! i)]"
  "ftable (upd_file k i e) = (ftable k)[i := e (ftable k ! i)]"
  by (simp_all add: upd_proc_def upd_buf_def upd_inode_def upd_file_def)

lemma deref_simps [simp]: "deref w (Some x) = Ok x" "deref w None = Fault w"
  by (simp_all add: deref_def)

lemma deref_eq_Ok [simp]: "deref w x = Ok y \<longleftrightarrow> x = Some y"
  by (cases x) simp_all

lemma myproc_eq_Ok [simp]: "myproc k = Ok p \<longleftrightarrow> curproc k = Some p"
  by (simp add: myproc_def split: option.split)

lemma idx_Ok [simp]: "i < length xs \<Longrightarrow> idx w xs i = Ok (xs ! i)"
  by (simp add: idx_def)

lemma idx_eq_Ok [simp]: "idx w xs i = Ok x \<longleftrightarrow> i < length xs \<and> x = xs ! i"
  by (auto simp: idx_def)

end
