(* ===== verification/VirtualMemory.thy ===== *)
theory VirtualMemory
  imports Kernel
begin

text \<open>
  The tables behind demand paging (\<open>VirtualMemory.c\<close>): every process has a chain of pages with memory-table
  entries, threaded by a doubly linked list from the newest resident page (\<open>MemoryListHead\<close>) to the
  oldest (\<open>MemoryListTail\<close>), and a chain of swap-table pages whose entry number gives the place of a page in
  the swap files.

  \<open>mlist k p es\<close> says that the linked list of process \<open>p\<close> consists of the entries \<open>es\<close>, newest first; the list
  operations are specified by what they do to \<open>es\<close>.
\<close>

text \<open>Position of the first element that satisfies a test: what a \<open>for\<close> loop that returns at a hit computes.\<close>

primrec find_index :: "('a \<Rightarrow> bool) \<Rightarrow> 'a list \<Rightarrow> nat option" where
  "find_index P [] = None"
| "find_index P (x # xs) = (if P x then Some 0 else map_option Suc (find_index P xs))"

definition ent :: "kernel \<Rightarrow> entry_ptr \<Rightarrow> MemoryTableEntry" where
  "ent k e = mp_entries (mtab k (fst e)) ! snd e"

definition upd_ent :: "kernel \<Rightarrow> entry_ptr \<Rightarrow> (MemoryTableEntry \<Rightarrow> MemoryTableEntry) \<Rightarrow> kernel" where
  "upd_ent k e f =
     (let pg = mtab k (fst e)
      in k\<lparr>mtab := (mtab k)(fst e := pg\<lparr>mp_entries := (mp_entries pg)[snd e := f (mp_entries pg ! snd e)]\<rparr>)\<rparr>)"

definition blank_entry :: MemoryTableEntry where
  "blank_entry = \<lparr>VirtualAddress = SLOT_USABLE, Next = None, Last = None\<rparr>"

text \<open>
  Bounds of the loops over page chains: a process has \<open>MEMORY_TABLE_LENGTH\<close> memory-table pages, and a
  chain of distinct pages is never longer than physical memory.
\<close>

definition MAXPAGES :: nat where "MAXPAGES = 57344"

subsection \<open>The list of resident pages\<close>

definition GetMemoryListTail :: "kernel \<Rightarrow> nat \<Rightarrow> (entry_ptr \<times> kernel) res" where
  "GetMemoryListTail k p =
     (case MemoryListHead (proc_at k p) of
        None \<Rightarrow> Panic ''[ERROR] It is impossible for the memory list used to be full!''
      | Some h \<Rightarrow>
          if Next (ent k h) = None then Panic ''[ERROR] It is impossible for the memory list used to be full!''
          else
            (case MemoryListTail (proc_at k p) of
               None \<Rightarrow> Panic ''[ERROR] The Last of the memory list should not be NULL!''
             | Some t \<Rightarrow>
                 (case Last (ent k t) of
                    None \<Rightarrow> Panic ''[ERROR] The Last of the memory list should not be NULL!''
                  | Some l \<Rightarrow>
                      (let k = upd_proc k p (\<lambda>q. q\<lparr>MemoryListTail := Some l\<rparr>);
                           k = upd_ent k l (\<lambda>e. e\<lparr>Next := None\<rparr>);
                           k = upd_ent k t (\<lambda>e. e\<lparr>Last := None\<rparr>)
                       in Ok (t, k)))))"

definition SetMemoryListHead :: "kernel \<Rightarrow> nat \<Rightarrow> entry_ptr option \<Rightarrow> u32 \<Rightarrow> kernel res" where
  "SetMemoryListHead k p TheEntry TheVirtualAddress =
     bindR (deref ''SetMemoryListHead: TheEntry'' TheEntry) (\<lambda>e.
       (let k = upd_ent k e (\<lambda>x. x\<lparr>Next := MemoryListHead (proc_at k p)\<rparr>)
        in bindR (deref ''SetMemoryListHead: MemoryListHead'' (MemoryListHead (proc_at k p))) (\<lambda>h.
             let k = upd_ent k h (\<lambda>x. x\<lparr>Last := Some e\<rparr>);
                 k = upd_proc k p (\<lambda>q. q\<lparr>MemoryListHead := Some e\<rparr>);
                 k = upd_ent k e (\<lambda>x. x\<lparr>VirtualAddress := TheVirtualAddress\<rparr>)
             in Ok k)))"

text \<open>The loop that looks for the entry before \<open>e\<close>; it follows a null pointer if \<open>e\<close> is not in the list.\<close>

fun find_before :: "nat \<Rightarrow> kernel \<Rightarrow> entry_ptr option \<Rightarrow> entry_ptr \<Rightarrow> entry_ptr res" where
  "find_before 0 k c e = Fault ''RemoveFromMemoryList: loop''"
| "find_before (Suc n) k c e =
     bindR (deref ''RemoveFromMemoryList: CurrentPlace'' c) (\<lambda>c.
       if Next (ent k c) \<noteq> Some e then find_before n k (Next (ent k c)) e else Ok c)"

definition RemoveFromMemoryList :: "kernel \<Rightarrow> nat \<Rightarrow> entry_ptr \<Rightarrow> kernel res" where
  "RemoveFromMemoryList k p e =
     (let k = upd_ent k e (\<lambda>x. x\<lparr>VirtualAddress := SLOT_USABLE\<rparr>)
      in bindR
          (if MemoryListHead (proc_at k p) = Some e then
             (let k = (case Next (ent k e) of None \<Rightarrow> k | Some n \<Rightarrow> upd_ent k n (\<lambda>x. x\<lparr>Last := None\<rparr>))
              in Ok (upd_proc k p (\<lambda>q. q\<lparr>MemoryListHead := Next (ent k e)\<rparr>)))
           else
             bindR (find_before (Suc (nat MEMORY_TABLE_TOTAL_ENTRYS)) k (MemoryListHead (proc_at k p)) e) (\<lambda>c.
               (case Next (ent k e) of
                  Some n \<Rightarrow>
                    (let k = upd_ent k n (\<lambda>x. x\<lparr>Last := Some c\<rparr>)
                     in Ok (upd_ent k c (\<lambda>x. x\<lparr>Next := Next (ent k e)\<rparr>)))
                | None \<Rightarrow> Ok (upd_ent k c (\<lambda>x. x\<lparr>Next := None\<rparr>)))))
          (\<lambda>k. let k = upd_ent k e (\<lambda>x. x\<lparr>Next := None\<rparr>);
                   k = upd_ent k e (\<lambda>x. x\<lparr>Last := None\<rparr>)
               in Ok (upd_proc k p (\<lambda>q. q\<lparr>MemoryEntryNum := MemoryEntryNum q - 1\<rparr>))))"

subsection \<open>Looking up tables\<close>

fun find_memory_page :: "nat \<Rightarrow> kernel \<Rightarrow> u32 \<Rightarrow> u32 \<Rightarrow> entry_ptr option res" where
  "find_memory_page 0 k pg va = Fault ''memory table: loop''"
| "find_memory_page (Suc n) k pg va =
     (if pg = 0 then Ok None
      else
        (case find_index (\<lambda>e. VirtualAddress e = va) (mp_entries (mtab k pg)) of
           Some i \<Rightarrow> Ok (Some (pg, i))
         | None \<Rightarrow> find_memory_page n k (mp_next (mtab k pg)) va))"

definition GetAddressInMemoryTable :: "kernel \<Rightarrow> nat \<Rightarrow> u32 \<Rightarrow> entry_ptr res" where
  "GetAddressInMemoryTable k p va =
     bindR (find_memory_page (Suc MEMORY_TABLE_LENGTH) k (MemoryTableListHead (proc_at k p)) va) (\<lambda>r.
       case r of Some e \<Rightarrow> Ok e | None \<Rightarrow> Panic ''[ERROR] Should find a record in memory table!'')"

text \<open>A place in the swap table: the entry, and the offset into the swap files it stands for.\<close>

type_synonym SwapTablePlace = "entry_ptr \<times> nat"

text \<open>The search returns the place, or the number of pages it looked at.\<close>

fun find_swap_page :: "nat \<Rightarrow> kernel \<Rightarrow> u32 \<Rightarrow> u32 \<Rightarrow> nat \<Rightarrow> (SwapTablePlace + nat) res" where
  "find_swap_page 0 k pg va PageNum = Fault ''swap table: loop''"
| "find_swap_page (Suc n) k pg va PageNum =
     (if pg = 0 then Ok (Inr PageNum)
      else
        (case find_index (\<lambda>e. e = va) (sp_entries (stab k pg)) of
           Some i \<Rightarrow> Ok (Inl ((pg, i), PageNum * SWAP_TABLE_PAGE_OFFSET + i * 4096))
         | None \<Rightarrow> find_swap_page n k (sp_next (stab k pg)) va (Suc PageNum)))"

definition GetAddressInSwapTable :: "kernel \<Rightarrow> nat \<Rightarrow> u32 \<Rightarrow> SwapTablePlace res" where
  "GetAddressInSwapTable k p va =
     bindR (find_swap_page (Suc MAXPAGES) k (SwapTableListHead (proc_at k p)) va 0) (\<lambda>r.
       case r of Inl pl \<Rightarrow> Ok pl | Inr _ \<Rightarrow> Panic ''[ERROR] Should find the place in the swap table!'')"

definition set_swap_entry :: "kernel \<Rightarrow> entry_ptr \<Rightarrow> u32 \<Rightarrow> kernel" where
  "set_swap_entry k e va =
     (let pg = stab k (fst e) in k\<lparr>stab := (stab k)(fst e := pg\<lparr>sp_entries := (sp_entries pg)[snd e := va]\<rparr>)\<rparr>)"

definition RemoveFromSwapTable :: "kernel \<Rightarrow> nat \<Rightarrow> u32 \<Rightarrow> kernel res" where
  "RemoveFromSwapTable k p va =
     bindR (GetAddressInSwapTable k p va) (\<lambda>pl. Ok (set_swap_entry k (fst pl) SLOT_USABLE))"

subsection \<open>Building and clearing tables\<close>

definition ClearMemoryPage :: "kernel \<Rightarrow> u32 \<Rightarrow> bool \<Rightarrow> kernel" where
  "ClearMemoryPage k pg WhetherClearLink =
     (let x = (mtab k pg)\<lparr>mp_entries := replicate MEMORY_TABLE_ENTRY_NUM blank_entry\<rparr>;
          x = (if WhetherClearLink then x\<lparr>mp_next := 0, mp_last := 0\<rparr> else x)
      in k\<lparr>mtab := (mtab k)(pg := x)\<rparr>)"

definition AllocMemoryPage :: "kernel \<Rightarrow> u32 \<times> kernel" where
  "AllocMemoryPage k =
     (let (NewPage, m) = kalloc (km k); k = k\<lparr>km := m\<rparr>
      in if NewPage = 0 then (0, k) else (NewPage, ClearMemoryPage k NewPage True))"

fun ClearMemoryTable_loop :: "nat \<Rightarrow> kernel \<Rightarrow> u32 \<Rightarrow> kernel res" where
  "ClearMemoryTable_loop 0 k pg = Fault ''ClearMemoryTable: loop''"
| "ClearMemoryTable_loop (Suc n) k pg =
     (if pg = 0 then Ok k
      else (let k = ClearMemoryPage k pg False in ClearMemoryTable_loop n k (mp_next (mtab k pg))))"

definition ClearMemoryTable :: "kernel \<Rightarrow> nat \<Rightarrow> kernel res" where
  "ClearMemoryTable k p =
     bindR (ClearMemoryTable_loop (Suc MEMORY_TABLE_LENGTH) k (MemoryTableListHead (proc_at k p))) (\<lambda>k.
       Ok (upd_proc k p (\<lambda>q. q\<lparr>MemoryEntryNum := 0, MemoryListHead := None, MemoryListTail := None\<rparr>)))"

text \<open>\<open>n\<close> pages are still to be allocated; \<open>prev\<close> is \<open>None\<close> before the first.\<close>

primrec AllocMemoryTable_loop :: "nat \<Rightarrow> kernel \<Rightarrow> nat \<Rightarrow> u32 option \<Rightarrow> (u32 option \<times> kernel) res" where
  "AllocMemoryTable_loop 0 k p prev = Ok (prev, k)"
| "AllocMemoryTable_loop (Suc n) k p prev =
     (let (pg, k) = AllocMemoryPage k
      in if pg = 0 then Panic ''Alloc Memory Table Failure!''
         else
           (case prev of
              None \<Rightarrow> AllocMemoryTable_loop n (upd_proc k p (\<lambda>q. q\<lparr>MemoryTableListHead := pg\<rparr>)) p (Some pg)
            | Some pv \<Rightarrow>
                (let k = k\<lparr>mtab := (mtab k)(pv := (mtab k pv)\<lparr>mp_next := pg\<rparr>)\<rparr>;
                     k = k\<lparr>mtab := (mtab k)(pg := (mtab k pg)\<lparr>mp_last := pv\<rparr>)\<rparr>
                 in AllocMemoryTable_loop n k p (Some pg))))"

definition AllocMemoryTable :: "kernel \<Rightarrow> nat \<Rightarrow> kernel res" where
  "AllocMemoryTable k p =
     bindR (AllocMemoryTable_loop MEMORY_TABLE_LENGTH k p None) (\<lambda>(prev, k).
       bindR (deref ''AllocMemoryTable'' prev) (\<lambda>pg.
         Ok (upd_proc k p (\<lambda>q. q\<lparr>MemoryTableListTail := pg\<rparr>))))"

definition ClearSwapPage :: "kernel \<Rightarrow> u32 \<Rightarrow> bool \<Rightarrow> kernel" where
  "ClearSwapPage k pg WhetherClearLink =
     (let x = (stab k pg)\<lparr>sp_entries := replicate SWAP_TABLE_ENTRY_NUM SLOT_USABLE\<rparr>;
          x = (if WhetherClearLink then x\<lparr>sp_next := 0, sp_last := 0\<rparr> else x)
      in k\<lparr>stab := (stab k)(pg := x)\<rparr>)"

definition AllocSwapPage :: "kernel \<Rightarrow> u32 \<times> kernel" where
  "AllocSwapPage k =
     (let (NewPage, m) = kalloc (km k); k = k\<lparr>km := m\<rparr>
      in if NewPage = 0 then (0, k) else (NewPage, ClearSwapPage k NewPage True))"

fun ClearSwapTable_loop :: "nat \<Rightarrow> kernel \<Rightarrow> u32 \<Rightarrow> kernel res" where
  "ClearSwapTable_loop 0 k pg = Fault ''ClearSwapTable: loop''"
| "ClearSwapTable_loop (Suc n) k pg =
     (if pg = 0 then Ok k
      else (let k = ClearSwapPage k pg False in ClearSwapTable_loop n k (sp_next (stab k pg))))"

definition ClearSwapTable :: "kernel \<Rightarrow> nat \<Rightarrow> kernel res" where
  "ClearSwapTable k p = ClearSwapTable_loop (Suc MAXPAGES) k (SwapTableListHead (proc_at k p))"

definition GrowSwapTable :: "kernel \<Rightarrow> nat \<Rightarrow> (int \<times> kernel) res" where
  "GrowSwapTable k p =
     (if SwapTableListHead (proc_at k p) = 0 then
        (let (pg, k) = AllocSwapPage k;
             k = upd_proc k p (\<lambda>q. q\<lparr>SwapTableListHead := pg\<rparr>)
         in if pg = 0 then Ok (-1, k) else Ok (0, upd_proc k p (\<lambda>q. q\<lparr>SwapTableListTail := pg\<rparr>)))
      else
        (let temp = SwapTableListTail (proc_at k p);
             (pg, k) = AllocSwapPage k;
             k = upd_proc k p (\<lambda>q. q\<lparr>SwapTableListTail := pg\<rparr>)
         in if pg = 0 then Ok (-1, k)
            else if temp = 0 then Fault ''GrowSwapTable: temp''
            else
              (let k = k\<lparr>stab := (stab k)(temp := (stab k temp)\<lparr>sp_next := pg\<rparr>)\<rparr>;
                   k = k\<lparr>stab := (stab k)(pg := (stab k pg)\<lparr>sp_last := temp\<rparr>)\<rparr>
               in Ok (0, k))))"

definition GetEmptyInSwapTable :: "kernel \<Rightarrow> nat \<Rightarrow> (SwapTablePlace \<times> kernel) res" where
  "GetEmptyInSwapTable k p =
     bindR (find_swap_page (Suc MAXPAGES) k (SwapTableListHead (proc_at k p)) SLOT_USABLE 0) (\<lambda>r.
       case r of
         Inl pl \<Rightarrow> Ok (pl, k)
       | Inr PageNum \<Rightarrow>
           bindR (GrowSwapTable k p) (\<lambda>(_, k).
             let pg = SwapTableListTail (proc_at k p)
             in if pg = 0 then Fault ''GetEmptyInSwapTable: CurrentPage''
                else
                  (case find_index (\<lambda>e. e = SLOT_USABLE) (sp_entries (stab k pg)) of
                     Some i \<Rightarrow> Ok (((pg, i), PageNum * SWAP_TABLE_PAGE_OFFSET + i * 4096), k)
                   | None \<Rightarrow> Panic ''[ERROR] Should find an empty place in the swap table!'')))"

subsection \<open>Copying the tables in fork\<close>

text \<open>
  The loop that copies the list of resident pages: \<open>src\<close> is the next source entry, \<open>(pg, i)\<close> the next
  destination entry and \<open>prev\<close> the destination entry filled before.
\<close>

fun copy_list :: "nat \<Rightarrow> kernel \<Rightarrow> entry_ptr option \<Rightarrow> u32 \<Rightarrow> nat \<Rightarrow> entry_ptr option \<Rightarrow>
    (entry_ptr option \<times> kernel) res" where
  "copy_list 0 k src pg i prev = Fault ''CopyVirtualMemoryData: loop''"
| "copy_list (Suc n) k src pg i prev =
     (case src of
        None \<Rightarrow> Ok (prev, k)
      | Some s \<Rightarrow>
          (let k = (case prev of None \<Rightarrow> k | Some pv \<Rightarrow> upd_ent k pv (\<lambda>x. x\<lparr>Next := Some (pg, i)\<rparr>))
           in if pg = 0 then Fault ''CopyVirtualMemoryData: CurrentDestinationPage''
              else
                (let k = upd_ent k (pg, i) (\<lambda>x. x\<lparr>Last := prev\<rparr>);
                     k = upd_ent k (pg, i) (\<lambda>x. x\<lparr>VirtualAddress := VirtualAddress (ent k s)\<rparr>);
                     src = Next (ent k s)
                 in if Suc i = MEMORY_TABLE_ENTRY_NUM
                    then copy_list n k src (mp_next (mtab k pg)) 0 (Some (pg, i))
                    else copy_list n k src pg (Suc i) (Some (pg, i)))))"

primrec grow_to :: "nat \<Rightarrow> kernel \<Rightarrow> nat \<Rightarrow> (bool \<times> kernel) res" where
  "grow_to 0 k p = Ok (True, k)"
| "grow_to (Suc n) k p =
     bindR (GrowSwapTable k p) (\<lambda>(r, k).
       if r = 0 then Ok (False, k)
       else grow_to n (upd_proc k p (\<lambda>q. q\<lparr>SwapPageNum := SwapPageNum q + 1\<rparr>)) p)"

fun copy_swap :: "nat \<Rightarrow> kernel \<Rightarrow> u32 \<Rightarrow> u32 \<Rightarrow> kernel res" where
  "copy_swap 0 k src dst = Fault ''CopyVirtualMemoryData: loop''"
| "copy_swap (Suc n) k src dst =
     (if src = 0 then Ok k
      else if dst = 0 then Fault ''CopyVirtualMemoryData: DestinationSwapPage''
      else
        (let k = k\<lparr>stab := (stab k)(dst := (stab k dst)\<lparr>sp_entries := sp_entries (stab k src)\<rparr>)\<rparr>
         in copy_swap n k (sp_next (stab k src)) (sp_next (stab k dst))))"

definition CopyVirtualMemoryData :: "kernel \<Rightarrow> nat \<Rightarrow> nat \<Rightarrow> (int \<times> kernel) res" where
  "CopyVirtualMemoryData k dst src =
     bindR (ClearMemoryTable k dst) (\<lambda>k.
       let k = upd_proc k dst (\<lambda>q. q\<lparr>MemoryEntryNum := MemoryEntryNum (proc_at k src),
                 MemoryListHead := None, MemoryListTail := None\<rparr>);
           pg = MemoryTableListHead (proc_at k dst);
           s = MemoryListHead (proc_at k src);
           k = (if s \<noteq> None then upd_proc k dst (\<lambda>q. q\<lparr>MemoryListHead := Some (pg, 0)\<rparr>) else k)
       in bindR (copy_list (Suc (nat MEMORY_TABLE_TOTAL_ENTRYS)) k s pg 0 None) (\<lambda>(prev, k).
            let k = upd_proc k dst (\<lambda>q. q\<lparr>MemoryListTail := prev\<rparr>)
            in bindR (grow_to (nat (SwapPageNum (proc_at k src) - SwapPageNum (proc_at k dst))) k dst) (\<lambda>(ok, k).
                 if \<not> ok then Ok (-1, k)
                 else
                   bindR (copy_swap (Suc MAXPAGES) k (SwapTableListHead (proc_at k src))
                       (SwapTableListHead (proc_at k dst))) (\<lambda>k. Ok (0, k)))))"

subsection \<open>The linked list\<close>

lemma find_index_Some:
  "find_index P xs = Some i \<Longrightarrow> i < length xs \<and> P (xs ! i) \<and> (\<forall>j < i. \<not> P (xs ! j))"
proof (induction xs arbitrary: i)
  case (Cons x xs)
  show ?case
  proof (cases "P x")
    case False
    then obtain j where "find_index P xs = Some j" "i = Suc j" using Cons.prems by auto
    with Cons.IH False show ?thesis by (auto simp: less_Suc_eq_0_disj)
  qed (use Cons.prems in auto)
qed simp

lemma find_index_None: "find_index P xs = None \<longleftrightarrow> (\<forall>x \<in> set xs. \<not> P x)"
  by (induction xs) auto

definition ent_ok :: "kernel \<Rightarrow> entry_ptr \<Rightarrow> bool" where
  "ent_ok k e \<longleftrightarrow> snd e < length (mp_entries (mtab k (fst e)))"

lemma ent_upd_ent [simp]: "ent_ok k e \<Longrightarrow> ent (upd_ent k e f) = (ent k)(e := f (ent k e))"
  by (cases e) (auto simp: ent_def upd_ent_def ent_ok_def Let_def fun_eq_iff)

lemma upd_ent_simps [simp]:
  "ptable (upd_ent k e f) = ptable k" "ent_ok (upd_ent k e f) e' = ent_ok k e'"
  "ent (upd_proc k p g) = ent k" "ent_ok (upd_proc k p g) e' = ent_ok k e'"
  "stab (upd_ent k e f) = stab k" "km (upd_ent k e f) = km k" "curproc (upd_ent k e f) = curproc k"
  by (auto simp: upd_ent_def ent_ok_def upd_proc_def ent_def fun_eq_iff Let_def)

text \<open>
  \<open>dlseg h prev x es t y\<close>: from pointer \<open>x\<close> on, with \<open>prev\<close> before it, the links of the heap \<open>h\<close> run through
  \<open>es\<close>, whose last element is \<open>t\<close>, and go on to \<open>y\<close>.
\<close>

fun dlseg :: "(entry_ptr \<Rightarrow> MemoryTableEntry) \<Rightarrow> entry_ptr option \<Rightarrow> entry_ptr option \<Rightarrow> entry_ptr list \<Rightarrow>
    entry_ptr option \<Rightarrow> entry_ptr option \<Rightarrow> bool" where
  "dlseg h prev x [] t y \<longleftrightarrow> x = y \<and> t = prev"
| "dlseg h prev x (e # es) t y \<longleftrightarrow> x = Some e \<and> Last (h e) = prev \<and> dlseg h (Some e) (Next (h e)) es t y"

definition mlist :: "kernel \<Rightarrow> nat \<Rightarrow> entry_ptr list \<Rightarrow> bool" where
  "mlist k p es \<longleftrightarrow> p < length (ptable k) \<and> distinct es \<and> (\<forall>e \<in> set es. ent_ok k e) \<and>
     dlseg (ent k) None (MemoryListHead (proc_at k p)) es (MemoryListTail (proc_at k p)) None"

lemma dlseg_frame:
  "(\<forall>e \<in> set es. Next (h' e) = Next (h e) \<and> Last (h' e) = Last (h e)) \<Longrightarrow>
   dlseg h' prev x es t y \<longleftrightarrow> dlseg h prev x es t y"
  by (induction h prev x es t y rule: dlseg.induct) auto

lemma dlseg_append:
  "dlseg h prev x (es @ fs) t y \<longleftrightarrow> (\<exists>t' y'. dlseg h prev x es t' y' \<and> dlseg h t' y' fs t y)"
  by (induction h prev x es t y rule: dlseg.induct) auto

text \<open>The pieces of a list around an element.\<close>

lemma mlist_split:
  "mlist k p (xs @ e # ys) \<longleftrightarrow>
     p < length (ptable k) \<and> distinct (xs @ e # ys) \<and> (\<forall>e \<in> set (xs @ e # ys). ent_ok k e) \<and>
     dlseg (ent k) None (MemoryListHead (proc_at k p)) xs (Last (ent k e)) (Some e) \<and>
     dlseg (ent k) (Some e) (Next (ent k e)) ys (MemoryListTail (proc_at k p)) None"
  by (auto simp: mlist_def dlseg_append)

lemma dlseg_last: "dlseg h prev x (xs @ [c]) t y \<Longrightarrow> t = Some c \<and> Next (h c) = y"
  by (auto simp: dlseg_append)

lemma dlseg_next_some: "dlseg h prev x (c # xs) t (Some y) \<Longrightarrow> Next (h c) \<noteq> None"
  by (cases xs) auto

lemma GetMemoryListTail_spec:
  assumes "mlist k p (es @ [a, e])"
  shows "\<exists>k'. GetMemoryListTail k p = Ok (e, k') \<and> mlist k' p (es @ [a]) \<and>
    Last (ent k' e) = None \<and> Next (ent k' e) = None \<and> ent_ok k' e \<and>
    (\<forall>x. VirtualAddress (ent k' x) = VirtualAddress (ent k x)) \<and> (\<forall>x. ent_ok k' x = ent_ok k x)"
proof -
  let ?q = "proc_at k p"
  have p: "p < length (ptable k)" and dist: "distinct (es @ [a, e])"
    and ok: "\<forall>x \<in> set (es @ [a, e]). ent_ok k x"
    and seg: "dlseg (ent k) None (MemoryListHead ?q) es (Last (ent k a)) (Some a)"
    and links: "Next (ent k a) = Some e" "Last (ent k e) = Some a" "Next (ent k e) = None"
    "MemoryListTail ?q = Some e"
    using assms by (auto simp: mlist_def dlseg_append)
  obtain hd0 where hd0: "MemoryListHead ?q = Some hd0" "Next (ent k hd0) \<noteq> None"
  proof (cases es)
    case Nil
    then show ?thesis using seg links that by simp
  next
    case (Cons c cs)
    with seg have "Next (ent k c) \<noteq> None" using dlseg_next_some by blast
    with seg Cons that show ?thesis by simp
  qed
  define k' where "k' = upd_ent (upd_ent (upd_proc k p (\<lambda>q. q\<lparr>MemoryListTail := Some a\<rparr>)) a
    (\<lambda>x. x\<lparr>Next := None\<rparr>)) e (\<lambda>x. x\<lparr>Last := None\<rparr>)"
  have run: "GetMemoryListTail k p = Ok (e, k')"
    using hd0 links by (auto simp: GetMemoryListTail_def k'_def Let_def)
  have h: "ent k' = (ent k)(a := (ent k a)\<lparr>Next := None\<rparr>, e := (ent k e)\<lparr>Last := None\<rparr>)"
    using ok dist by (auto simp: k'_def)
  have "dlseg (ent k') None (MemoryListHead ?q) es (Last (ent k a)) (Some a)"
    using seg dist by (subst dlseg_frame [where h = "ent k"]) (auto simp: h)
  then have "mlist k' p (es @ [a])"
    using p dist ok by (auto simp: mlist_def dlseg_append h k'_def)
  then show ?thesis using run links ok by (auto simp: h k'_def)
qed

lemma SetMemoryListHead_spec:
  assumes "mlist k p es" and "es \<noteq> []" and "e \<notin> set es" and "ent_ok k e" and "Last (ent k e) = None"
  shows "\<exists>k'. SetMemoryListHead k p (Some e) va = Ok k' \<and> mlist k' p (e # es) \<and>
    (\<forall>x. VirtualAddress (ent k' x) = (if x = e then va else VirtualAddress (ent k x)))"
proof -
  obtain h hs where es: "es = h # hs" using assms(2) by (cases es) auto
  define k1 where "k1 = upd_ent k e (\<lambda>x. x\<lparr>Next := MemoryListHead (proc_at k p)\<rparr>)"
  define k' where "k' = upd_ent (upd_proc (upd_ent k1 h (\<lambda>x. x\<lparr>Last := Some e\<rparr>)) p
    (\<lambda>q. q\<lparr>MemoryListHead := Some e\<rparr>)) e (\<lambda>x. x\<lparr>VirtualAddress := va\<rparr>)"
  have hd: "MemoryListHead (proc_at k p) = Some h" using assms(1) by (simp add: mlist_def es)
  have run: "SetMemoryListHead k p (Some e) va = Ok k'"
    using hd by (simp add: SetMemoryListHead_def Let_def k'_def k1_def)
  have ok: "ent_ok k h" and ne: "h \<noteq> e" "h \<notin> set hs" using assms(1,3) by (auto simp: mlist_def es)
  have heap: "ent k' = (ent k)(e := (ent k e)\<lparr>Next := Some h, VirtualAddress := va\<rparr>,
      h := (ent k h)\<lparr>Last := Some e\<rparr>)"
    using ok assms(4) ne hd by (auto simp: k'_def k1_def fun_eq_iff)
  have "dlseg (ent k') (Some h) (Next (ent k h)) hs (MemoryListTail (proc_at k p)) None"
    using assms(1,3) ne by (subst dlseg_frame [where h = "ent k"]) (auto simp: heap mlist_def es)
  then have "mlist k' p (e # es)"
    using assms ne by (auto simp: mlist_def es heap k'_def k1_def)
  moreover have "\<forall>x. VirtualAddress (ent k' x) = (if x = e then va else VirtualAddress (ent k x))"
    using ne by (auto simp: heap)
  ultimately show ?thesis using run by blast
qed

lemma find_before_spec:
  assumes "dlseg (ent k) prev x (xs @ [c]) t (Some e)" and "e \<notin> set (xs @ [c])" and "length xs < n"
  shows "find_before n k x e = Ok c"
  using assms
proof (induction xs arbitrary: prev x n)
  case Nil
  then obtain m where "n = Suc m" by (cases n) auto
  with Nil show ?case by simp
next
  case (Cons a xs)
  then obtain m where m: "n = Suc m" by (cases n) auto
  have "Next (ent k a) \<noteq> Some e" using Cons.prems by (cases xs) auto
  with Cons.IH [of "Some a" "Next (ent k a)" m] Cons.prems m show ?case by simp
qed

declare find_before.simps [simp del]

lemma RemoveFromMemoryList_head:
  assumes "mlist k p (e # ys)" and "ys \<noteq> []"
  shows "\<exists>k'. RemoveFromMemoryList k p e = Ok k' \<and> mlist k' p ys \<and>
    VirtualAddress (ent k' e) = SLOT_USABLE \<and> Last (ent k' e) = None \<and>
    MemoryEntryNum (proc_at k' p) = MemoryEntryNum (proc_at k p) - 1"
proof -
  obtain n ns where ys: "ys = n # ns" using assms(2) by (cases ys) auto
  have l: "p < length (ptable k)" "ent_ok k e" "ent_ok k n" "e \<noteq> n" "e \<notin> set ns" "n \<notin> set ns" "distinct ns"
    "MemoryListHead (proc_at k p) = Some e" "Next (ent k e) = Some n" "\<forall>x \<in> set ns. ent_ok k x"
    "dlseg (ent k) (Some n) (Next (ent k n)) ns (MemoryListTail (proc_at k p)) None"
    using assms(1) by (auto simp: mlist_def ys)
  define k' where "k' = upd_proc (upd_ent (upd_ent (upd_proc (upd_ent (upd_ent k e
      (\<lambda>x. x\<lparr>VirtualAddress := SLOT_USABLE\<rparr>)) n (\<lambda>x. x\<lparr>Last := None\<rparr>)) p
      (\<lambda>q. q\<lparr>MemoryListHead := Some n\<rparr>)) e (\<lambda>x. x\<lparr>Next := None\<rparr>)) e (\<lambda>x. x\<lparr>Last := None\<rparr>)) p
      (\<lambda>q. q\<lparr>MemoryEntryNum := MemoryEntryNum q - 1\<rparr>)"
  have run: "RemoveFromMemoryList k p e = Ok k'"
    using l by (simp add: RemoveFromMemoryList_def Let_def k'_def)
  have heap: "ent k' = (ent k)(e := \<lparr>VirtualAddress = SLOT_USABLE, Next = None, Last = None\<rparr>,
      n := (ent k n)\<lparr>Last := None\<rparr>)"
    using l by (auto simp: k'_def fun_eq_iff)
  have "dlseg (ent k') (Some n) (Next (ent k n)) ns (MemoryListTail (proc_at k p)) None"
    using l by (subst dlseg_frame [where h = "ent k"]) (auto simp: heap)
  then have "mlist k' p ys" using l by (auto simp: mlist_def ys heap k'_def)
  then show ?thesis using run l by (simp add: heap k'_def)
qed

lemma RemoveFromMemoryList_run:
  assumes "mlist k p (xs @ c # e # ys)" and "length xs < nat MEMORY_TABLE_TOTAL_ENTRYS"
  shows "RemoveFromMemoryList k p e = Ok
    (let k1 = upd_ent k e (\<lambda>x. x\<lparr>VirtualAddress := SLOT_USABLE\<rparr>);
         k2 = (case ys of [] \<Rightarrow> k1 | n # ns \<Rightarrow> upd_ent k1 n (\<lambda>x. x\<lparr>Last := Some c\<rparr>));
         k3 = upd_ent k2 c (\<lambda>x. x\<lparr>Next := (case ys of [] \<Rightarrow> None | n # ns \<Rightarrow> Some n)\<rparr>);
         k4 = upd_ent (upd_ent k3 e (\<lambda>x. x\<lparr>Next := None\<rparr>)) e (\<lambda>x. x\<lparr>Last := None\<rparr>)
     in upd_proc k4 p (\<lambda>q. q\<lparr>MemoryEntryNum := MemoryEntryNum q - 1\<rparr>))"
proof -
  let ?k1 = "upd_ent k e (\<lambda>x. x\<lparr>VirtualAddress := SLOT_USABLE\<rparr>)"
  have l: "distinct (xs @ c # e # ys)" "ent_ok k e" "\<forall>x \<in> set ys. ent_ok k x"
    "Next (ent k e) = (case ys of [] \<Rightarrow> None | n # ns \<Rightarrow> Some n)"
    "dlseg (ent k) None (MemoryListHead (proc_at k p)) (xs @ [c]) (Some c) (Some e)"
    using assms(1) by (auto simp: mlist_def dlseg_append split: list.split)
  have "dlseg (ent ?k1) None (MemoryListHead (proc_at ?k1 p)) (xs @ [c]) (Some c) (Some e)"
    using l by (subst dlseg_frame [where h = "ent k"]) auto
  then have fb: "find_before (Suc (nat MEMORY_TABLE_TOTAL_ENTRYS)) ?k1 (MemoryListHead (proc_at ?k1 p)) e = Ok c"
    using l assms(2) by (intro find_before_spec) auto
  have hd: "MemoryListHead (proc_at k p) \<noteq> Some e"
    using l by (cases xs) auto
  show ?thesis
  proof (cases ys)
    case Nil
    then show ?thesis
      using fb hd l by (simp add: RemoveFromMemoryList_def Let_def)
  next
    case (Cons n ns)
    then have "ent_ok k n" "n \<noteq> e" using l by auto
    then show ?thesis
      using fb hd l Cons by (simp add: RemoveFromMemoryList_def Let_def)
  qed
qed

lemma RemoveFromMemoryList_mid:
  assumes "mlist k p (xs @ c # e # ys)" and "ys \<noteq> []" and "length xs < nat MEMORY_TABLE_TOTAL_ENTRYS"
  shows "\<exists>k'. RemoveFromMemoryList k p e = Ok k' \<and> mlist k' p (xs @ c # ys) \<and>
    VirtualAddress (ent k' e) = SLOT_USABLE \<and> Last (ent k' e) = None \<and>
    MemoryEntryNum (proc_at k' p) = MemoryEntryNum (proc_at k p) - 1"
proof -
  obtain n ns where ys: "ys = n # ns" using assms(2) by (cases ys) auto
  have dist: "distinct (xs @ c # e # n # ns)" and p: "p < length (ptable k)"
    and ok: "\<forall>x \<in> set (xs @ c # e # n # ns). ent_ok k x"
    and seg: "dlseg (ent k) None (MemoryListHead (proc_at k p)) xs (Last (ent k c)) (Some c)"
    "dlseg (ent k) (Some n) (Next (ent k n)) ns (MemoryListTail (proc_at k p)) None"
    using assms(1) by (auto simp: mlist_def dlseg_append ys)
  define k' where "k' = upd_proc (upd_ent (upd_ent (upd_ent (upd_ent (upd_ent k e
      (\<lambda>x. x\<lparr>VirtualAddress := SLOT_USABLE\<rparr>)) n (\<lambda>x. x\<lparr>Last := Some c\<rparr>)) c (\<lambda>x. x\<lparr>Next := Some n\<rparr>)) e
      (\<lambda>x. x\<lparr>Next := None\<rparr>)) e (\<lambda>x. x\<lparr>Last := None\<rparr>)) p (\<lambda>q. q\<lparr>MemoryEntryNum := MemoryEntryNum q - 1\<rparr>)"
  have run: "RemoveFromMemoryList k p e = Ok k'"
    using RemoveFromMemoryList_run [OF assms(1,3)] by (simp add: ys k'_def)
  have heap: "ent k' = (ent k)(e := \<lparr>VirtualAddress = SLOT_USABLE, Next = None, Last = None\<rparr>,
      n := (ent k n)\<lparr>Last := Some c\<rparr>, c := (ent k c)\<lparr>Next := Some n\<rparr>)"
    using ok dist by (auto simp: k'_def fun_eq_iff)
  have "dlseg (ent k') None (MemoryListHead (proc_at k p)) xs (Last (ent k c)) (Some c)"
    "dlseg (ent k') (Some n) (Next (ent k n)) ns (MemoryListTail (proc_at k p)) None"
    using seg dist by (subst dlseg_frame [where h = "ent k"]; auto simp: heap)+
  then have "mlist k' p (xs @ c # ys)"
    using p dist ok by (auto simp: mlist_def dlseg_append ys heap k'_def)
  moreover have "MemoryEntryNum (proc_at k' p) = MemoryEntryNum (proc_at k p) - 1"
    using p by (simp add: k'_def)
  ultimately show ?thesis using run dist by (auto simp: heap)
qed

text \<open>Removing the oldest entry: the links are right, but \<open>MemoryListTail\<close> still points to the removed entry.\<close>

lemma RemoveFromMemoryList_last:
  assumes "mlist k p (xs @ [c, e])" and "length xs < nat MEMORY_TABLE_TOTAL_ENTRYS"
  shows "\<exists>k'. RemoveFromMemoryList k p e = Ok k' \<and>
    dlseg (ent k') None (MemoryListHead (proc_at k' p)) (xs @ [c]) (Some c) None \<and>
    MemoryListTail (proc_at k' p) = Some e \<and> Last (ent k' e) = None"
proof -
  have dist: "distinct (xs @ [c, e])" and p: "p < length (ptable k)"
    and ok: "\<forall>x \<in> set (xs @ [c, e]). ent_ok k x"
    and seg: "dlseg (ent k) None (MemoryListHead (proc_at k p)) xs (Last (ent k c)) (Some c)"
    and tl: "MemoryListTail (proc_at k p) = Some e"
    using assms(1) by (auto simp: mlist_def dlseg_append)
  define k' where "k' = upd_proc (upd_ent (upd_ent (upd_ent (upd_ent k e
      (\<lambda>x. x\<lparr>VirtualAddress := SLOT_USABLE\<rparr>)) c (\<lambda>x. x\<lparr>Next := None\<rparr>)) e
      (\<lambda>x. x\<lparr>Next := None\<rparr>)) e (\<lambda>x. x\<lparr>Last := None\<rparr>)) p (\<lambda>q. q\<lparr>MemoryEntryNum := MemoryEntryNum q - 1\<rparr>)"
  have run: "RemoveFromMemoryList k p e = Ok k'"
    using RemoveFromMemoryList_run [of k p xs c e "[]"] assms by (simp add: k'_def)
  have heap: "ent k' = (ent k)(e := \<lparr>VirtualAddress = SLOT_USABLE, Next = None, Last = None\<rparr>,
      c := (ent k c)\<lparr>Next := None\<rparr>)"
    using ok dist by (auto simp: k'_def fun_eq_iff)
  have pt: "MemoryListHead (proc_at k' p) = MemoryListHead (proc_at k p)" "MemoryListTail (proc_at k' p) = Some e"
    using p tl by (simp_all add: k'_def)
  have "dlseg (ent k') None (MemoryListHead (proc_at k' p)) xs (Last (ent k c)) (Some c)"
    using seg dist unfolding pt by (subst dlseg_frame [where h = "ent k"]) (auto simp: heap)
  then have "dlseg (ent k') None (MemoryListHead (proc_at k' p)) (xs @ [c]) (Some c) None"
    using dist by (auto simp: dlseg_append heap)
  with run pt dist show ?thesis by (auto simp: heap)
qed

subsection \<open>The swap table\<close>

text \<open>The chain of swap-table pages from address \<open>x\<close> on.\<close>

fun schain :: "kernel \<Rightarrow> u32 \<Rightarrow> u32 list \<Rightarrow> bool" where
  "schain k x [] \<longleftrightarrow> x = 0"
| "schain k x (p # ps) \<longleftrightarrow> x = p \<and> p \<noteq> 0 \<and> schain k (sp_next (stab k p)) ps"

lemma set_swap_entry_simps [simp]:
  "sp_next (stab (set_swap_entry k e va) pg) = sp_next (stab k pg)"
  "fst e \<noteq> pg \<Longrightarrow> stab (set_swap_entry k e va) pg = stab k pg"
  "sp_entries (stab (set_swap_entry k (pg, i) va) pg) = (sp_entries (stab k pg))[i := va]"
  "ptable (set_swap_entry k e va) = ptable k"
  by (auto simp: set_swap_entry_def Let_def)

lemma set_swap_entry_undo:
  "set_swap_entry (set_swap_entry k e va) e (sp_entries (stab k (fst e)) ! snd e) = k"
  by (simp add: set_swap_entry_def Let_def)

lemma find_swap_page_in:
  "schain k x ps \<Longrightarrow> find_swap_page n k x va N = Ok (Inl (e, ofs)) \<Longrightarrow>
   fst e \<in> set ps \<and> snd e < length (sp_entries (stab k (fst e))) \<and> sp_entries (stab k (fst e)) ! snd e = va"
proof (induction n k x va N arbitrary: ps rule: find_swap_page.induct)
  case (2 n k pg va N)
  have pg: "pg \<noteq> 0" using "2.prems" by (cases "pg = 0") simp_all
  with "2.prems"(1) obtain ps' where ps: "ps = pg # ps'" "schain k (sp_next (stab k pg)) ps'" by (cases ps) auto
  show ?case
  proof (cases "find_index (\<lambda>e. e = va) (sp_entries (stab k pg))")
    case None
    then have "find_swap_page n k (sp_next (stab k pg)) va (Suc N) = Ok (Inl (e, ofs))"
      using "2.prems"(2) pg by simp
    from "2.IH" [OF pg None ps(2) this] show ?thesis by (simp add: ps)
  next
    case (Some i)
    then have "e = (pg, i)" using "2.prems"(2) pg by simp
    then show ?thesis using find_index_Some [OF Some] by (simp add: ps)
  qed
qed simp

lemma find_index_update:
  "i < length xs \<Longrightarrow> va \<notin> set xs \<Longrightarrow> find_index (\<lambda>e. e = va) (xs[i := va]) = Some i"
proof (induction xs arbitrary: i)
  case (Cons x xs)
  then show ?case by (cases i) auto
qed simp

lemma find_swap_page_set:
  "schain k x ps \<Longrightarrow> distinct ps \<Longrightarrow> \<forall>q \<in> set ps. va \<notin> set (sp_entries (stab k q)) \<Longrightarrow>
   find_swap_page n k x u N = Ok (Inl (e, ofs)) \<Longrightarrow>
   find_swap_page n (set_swap_entry k e va) x va N = Ok (Inl (e, ofs))"
proof (induction n k x u N arbitrary: ps rule: find_swap_page.induct)
  case (2 n k pg u N)
  have pg: "pg \<noteq> 0" using "2.prems"(4) by (cases "pg = 0") simp_all
  with "2.prems"(1) obtain ps' where ps: "ps = pg # ps'" "pg \<noteq> 0" "schain k (sp_next (stab k pg)) ps'" by (cases ps) auto
  have nova: "va \<notin> set (sp_entries (stab k pg))" using "2.prems"(3) ps by simp
  show ?case
  proof (cases "find_index (\<lambda>e. e = u) (sp_entries (stab k pg))")
    case None
    have rec: "find_swap_page n k (sp_next (stab k pg)) u (Suc N) = Ok (Inl (e, ofs))"
      using "2.prems"(4) None ps by simp
    then have "fst e \<in> set ps'" using find_swap_page_in ps(3) by blast
    then have ne: "fst e \<noteq> pg" using "2.prems"(2) ps by auto
    have "find_index (\<lambda>e. e = va) (sp_entries (stab k pg)) = None" using nova by (auto simp: find_index_None)
    moreover have "find_swap_page n (set_swap_entry k e va) (sp_next (stab k pg)) va (Suc N) = Ok (Inl (e, ofs))"
      using "2.IH" [OF ps(2) None ps(3) _ _ rec] "2.prems"(2,3) ps(1) by simp
    ultimately show ?thesis using ps(2) ne by simp
  next
    case (Some i)
    then have e: "e = (pg, i)" "ofs = N * SWAP_TABLE_PAGE_OFFSET + i * 4096" using "2.prems"(4) ps by auto
    have "find_index (\<lambda>e. e = va) ((sp_entries (stab k pg))[i := va]) = Some i"
      using find_index_Some [OF Some] nova by (intro find_index_update) simp_all
    then show ?thesis using ps(2) by (simp add: e)
  qed
qed simp

subsection \<open>Properties\<close>

text \<open>
  C11. Page replacement is first-in first-out: taking the tail of the list and putting the entry back
  at the head for a new address, as \<open>allocuvm\<close> and \<open>SwapMemoryAndFile\<close> do, evicts the oldest resident page and
  makes the new address the newest, with all other pages in their old order.
\<close>

theorem fifo_replacement:
  assumes "mlist k p (es @ [a, e])"
  shows "\<exists>k1 k2. GetMemoryListTail k p = Ok (e, k1) \<and> SetMemoryListHead k1 p (Some e) va = Ok k2 \<and>
    mlist k2 p (e # es @ [a]) \<and>
    (\<forall>x. VirtualAddress (ent k2 x) = (if x = e then va else VirtualAddress (ent k x)))"
proof -
  from GetMemoryListTail_spec [OF assms] obtain k1 where
    k1: "GetMemoryListTail k p = Ok (e, k1)" "mlist k1 p (es @ [a])" "Last (ent k1 e) = None" "ent_ok k1 e"
    "\<forall>x. VirtualAddress (ent k1 x) = VirtualAddress (ent k x)" by blast
  have "e \<notin> set (es @ [a])" using assms by (auto simp: mlist_def)
  from SetMemoryListHead_spec [OF k1(2) _ this k1(4,3), of va] k1(1,5) show ?thesis by auto
qed

text \<open>A process with three resident pages, all in one table page.\<close>

definition demo_proc :: proc where
  "demo_proc = \<lparr>p_sz = 0x4000, p_pgdir = 0x80103000, p_kstack = 0x80108000, p_state = RUNNING, p_pid = 3,
     p_parent = None,
     p_tf = \<lparr>tf_edi = 0, tf_esi = 0, tf_ebp = 0, tf_ebx = 0, tf_edx = 0, tf_ecx = 0, tf_eax = 0, tf_gs = 0, tf_fs = 0,
       tf_es = 0, tf_ds = 0, tf_trapno = 0, tf_err = 0, tf_eip = 0, tf_cs = 0, tf_eflags = 0, tf_esp = 0, tf_ss = 0\<rparr>,
     p_context = \<lparr>cx_edi = 0, cx_esi = 0, cx_ebx = 0, cx_ebp = 0, cx_eip = 0\<rparr>, p_chan = None, p_killed = False,
     p_ofile = replicate NOFILE None, p_cwd = None, p_name = replicate 16 0, p_stackSize = 0,
     MemoryTableListHead = 0x80109000, MemoryTableListTail = 0x80109000, SwapTableListHead = 0x8010a000,
     SwapTableListTail = 0x8010a000, MemoryListHead = Some (0x80109000, 2), MemoryListTail = Some (0x80109000, 0),
     MemoryEntryNum = 3, SwapPageNum = 0, FilesForSwap = replicate 6 None,
     SelfSharedMemory = replicate SHARED_MEMORY_PER_PROC 0\<rparr>"

definition demo_mtab :: MemoryTablePage where
  "demo_mtab = \<lparr>mp_last = 0, mp_next = 0, mp_entries =
     [\<lparr>VirtualAddress = 0x1000, Next = None, Last = Some (0x80109000, 1)\<rparr>,
      \<lparr>VirtualAddress = 0x2000, Next = Some (0x80109000, 0), Last = Some (0x80109000, 2)\<rparr>,
      \<lparr>VirtualAddress = 0x3000, Next = Some (0x80109000, 1), Last = None\<rparr>, blank_entry]\<rparr>"

definition demo_stab :: SwapTablePage where
  "demo_stab = \<lparr>sp_last = 0, sp_next = 0, sp_entries = [0x7000, SLOT_USABLE, 0x9000]\<rparr>"

definition demo_kernel :: kernel where
  "demo_kernel = \<lparr>km = kmem_user, kdata = 0x80100000, kforkret = 0x80101000, forkret_first = False, kpgdir = 0, cr2 = 0, cr3 = 0x103000, ptable = [demo_proc],
     initproc = None, nextpid = 4, curproc = Some 0, cpu_id = 0, mtab = (\<lambda>_. demo_mtab), stab = (\<lambda>_. demo_stab),
     shm = replicate SHARED_MEMORY_GLOBAL \<lparr>sm_va = 0, Signature = 0, UserNumber = 0\<rparr>, bufs = [],
     idequeue = None, havedisk1 = True, ide_fault = False, disk = (\<lambda>_ _. []), dwrites = [],
     lg = \<lparr>l_start = 2, l_size = 30, l_outstanding = 0, l_committing = False, l_dev = 1, lh_n = 0, lh_block = []\<rparr>,
     sb = \<lparr>sb_size = 1000, sb_nblocks = 941, sb_ninodes = 200, sb_nlog = 30, sb_logstart = 2, sb_inodestart = 32,
       sb_bmapstart = 58\<rparr>,
     icache = [], ftable = [], pipes = (\<lambda>_. pipe_blank), con = con_init, devsw_console = True, ticks = 0\<rparr>"

lemma demo_mlist: "mlist demo_kernel 0 [(0x80109000, 2), (0x80109000, 1), (0x80109000, 0)]"
  by (simp add: mlist_def demo_kernel_def demo_proc_def demo_mtab_def ent_def ent_ok_def)

theorem fifo_replacement_witness:
  "\<exists>k1 k2. GetMemoryListTail demo_kernel 0 = Ok ((0x80109000, 0), k1) \<and>
     SetMemoryListHead k1 0 (Some (0x80109000, 0)) 0x4000 = Ok k2 \<and>
     mlist k2 0 [(0x80109000, 0), (0x80109000, 2), (0x80109000, 1)] \<and>
     VirtualAddress (ent k2 (0x80109000, 0)) = 0x4000"
  using fifo_replacement [of demo_kernel 0 "[(0x80109000, 2)]" "(0x80109000, 1)" "(0x80109000, 0)" "0x4000"] demo_mlist
  by auto

text \<open>
  C13. \<open>RemoveFromMemoryList\<close> unlinks an entry that is not the oldest, wherever it is in the list: the rest of the list
  is intact and in order, the entry is free again, and the count goes down by one.
\<close>

theorem RemoveFromMemoryList_correct:
  assumes "mlist k p (xs @ e # ys)" and "ys \<noteq> []" and "length xs \<le> nat MEMORY_TABLE_TOTAL_ENTRYS"
  shows "\<exists>k'. RemoveFromMemoryList k p e = Ok k' \<and> mlist k' p (xs @ ys) \<and>
    VirtualAddress (ent k' e) = SLOT_USABLE \<and> Last (ent k' e) = None \<and>
    MemoryEntryNum (proc_at k' p) = MemoryEntryNum (proc_at k p) - 1"
proof (cases xs rule: rev_cases)
  case Nil
  then show ?thesis using RemoveFromMemoryList_head [of k p e ys] assms by simp
next
  case (snoc xs' c)
  then show ?thesis using RemoveFromMemoryList_mid [of k p xs' c e ys] assms by simp
qed

theorem RemoveFromMemoryList_correct_witness:
  "\<exists>k'. RemoveFromMemoryList demo_kernel 0 (0x80109000, 1) = Ok k' \<and>
     mlist k' 0 [(0x80109000, 2), (0x80109000, 0)] \<and> MemoryEntryNum (proc_at k' 0) = 2"
proof -
  have "mlist demo_kernel 0 ([(0x80109000, 2)] @ (0x80109000, 1) # [(0x80109000, 0)])" using demo_mlist by simp
  moreover have "length [(0x80109000 :: u32, 2 :: nat)] \<le> nat MEMORY_TABLE_TOTAL_ENTRYS"
    by (simp add: MEMORY_TABLE_TOTAL_ENTRYS_def MEMORY_TABLE_ENTRY_NUM_def MEMORY_TABLE_LENGTH_def)
  moreover have "MemoryEntryNum (proc_at demo_kernel 0) = 3" by (simp add: demo_kernel_def demo_proc_def)
  ultimately show ?thesis
    using RemoveFromMemoryList_correct [of demo_kernel 0 "[(0x80109000, 2)]" "(0x80109000, 1)" "[(0x80109000, 0)]"]
    by auto
qed

text \<open>
  C14. Removing the oldest entry leaves \<open>MemoryListTail\<close> pointing at the removed, now free entry: the
  next eviction panics, although resident pages are left.
\<close>

theorem RemoveFromMemoryList_stale_tail:
  assumes "mlist k p (xs @ [b, c, e])" and "length xs + 1 < nat MEMORY_TABLE_TOTAL_ENTRYS"
  shows "\<exists>k'. RemoveFromMemoryList k p e = Ok k' \<and> MemoryListTail (proc_at k' p) = Some e \<and>
    GetMemoryListTail k' p = Panic ''[ERROR] The Last of the memory list should not be NULL!''"
proof -
  from RemoveFromMemoryList_last [of k p "xs @ [b]" c e] assms obtain k' where
    k': "RemoveFromMemoryList k p e = Ok k'" "MemoryListTail (proc_at k' p) = Some e" "Last (ent k' e) = None"
    "dlseg (ent k') None (MemoryListHead (proc_at k' p)) ((xs @ [b]) @ [c]) (Some c) None" by auto
  then have seg: "dlseg (ent k') None (MemoryListHead (proc_at k' p)) (xs @ [b]) (Last (ent k' c)) (Some c)"
    by (auto simp: dlseg_append)
  obtain x xs' where xs: "xs @ [b] = x # xs'" by (cases "xs @ [b]") auto
  then have "MemoryListHead (proc_at k' p) = Some x" "Next (ent k' x) \<noteq> None"
    using seg dlseg_next_some [of "ent k'" None _ x xs' _ c] by auto
  with k' show ?thesis by (auto simp: GetMemoryListTail_def)
qed

theorem RemoveFromMemoryList_stale_tail_witness:
  "\<exists>k'. RemoveFromMemoryList demo_kernel 0 (0x80109000, 0) = Ok k' \<and>
     GetMemoryListTail k' 0 = Panic ''[ERROR] The Last of the memory list should not be NULL!''"
proof -
  have "length [] + 1 < nat MEMORY_TABLE_TOTAL_ENTRYS"
    by (simp add: MEMORY_TABLE_TOTAL_ENTRYS_def MEMORY_TABLE_ENTRY_NUM_def MEMORY_TABLE_LENGTH_def)
  with RemoveFromMemoryList_stale_tail [of demo_kernel 0 "[]" "(0x80109000, 2)" "(0x80109000, 1)" "(0x80109000, 0)"]
    demo_mlist show ?thesis by auto
qed



end
