(* ===== verification/Disk.thy ===== *)
theory Disk
  imports VirtualMemory
begin

text \<open>
  The disk: the IDE driver (\<open>ide.c\<close>), its in-memory replacement (\<open>memide.c\<close>) and the buffer cache (\<open>bio.c\<close>).

  The cache's list of buffers is the code's: \<open>b_prev\<close> and \<open>b_next\<close> link the elements of the array \<open>bufs\<close>, and element
  \<open>NBUF\<close> is \<open>bcache.head\<close>. A drive carries out a write command when it has received the data; every write is
  recorded in \<open>dwrites\<close>. A process that waits in \<open>iderw\<close> is woken by \<open>ideintr\<close>, which the drive raises once per request.
\<close>

abbreviation buf_at :: "kernel \<Rightarrow> nat \<Rightarrow> buf" where
  "buf_at k b \<equiv> bufs k ! b"

subsection \<open>The IDE driver\<close>

definition SECTOR_SIZE :: nat where "SECTOR_SIZE = 512"

definition ide_sector :: "buf \<Rightarrow> u32" where
  "ide_sector b = b_blockno b * of_nat (BSIZE div SECTOR_SIZE)"

text \<open>The sector number the drive assembles from the bytes written to its ports.\<close>

definition ide_lba :: "u32 \<Rightarrow> u32" where
  "ide_lba sector = (sector AND 0xff) OR push_bit 8 (drop_bit 8 sector AND 0xff) OR
     push_bit 16 (drop_bit 16 sector AND 0xff) OR push_bit 24 (drop_bit 24 sector AND 0x0f)"

definition idewait :: "kernel \<Rightarrow> bool \<Rightarrow> int" where
  "idewait k checkerr = (if checkerr \<and> ide_fault k then -1 else 0)"

definition disk_write :: "kernel \<Rightarrow> u32 \<Rightarrow> nat \<Rightarrow> u8 list \<Rightarrow> kernel" where
  "disk_write k d s bs = k\<lparr>disk := (disk k)(d := (disk k d)(s := bs)), dwrites := dwrites k @ [(d, s, bs)]\<rparr>"

definition idestart :: "kernel \<Rightarrow> nat option \<Rightarrow> kernel res" where
  "idestart k bp =
     (case bp of None \<Rightarrow> Panic ''idestart''
      | Some b \<Rightarrow>
          if b_blockno (buf_at k b) \<ge> FSSIZE then Panic ''incorrect blockno''
          else
            (let sector_per_block = BSIZE div SECTOR_SIZE;
                 sector = ide_sector (buf_at k b)
             in if sector_per_block > 7 then Panic ''idestart''
                else if b_flags (buf_at k b) AND B_DIRTY \<noteq> 0 then
                  Ok (disk_write k (b_dev (buf_at k b) AND 1) (unat (ide_lba sector)) (b_data (buf_at k b)))
                else Ok k))"

definition ideintr :: "kernel \<Rightarrow> kernel res" where
  "ideintr k =
     (case idequeue k of None \<Rightarrow> Ok k
      | Some b \<Rightarrow>
          (let k = k\<lparr>idequeue := b_qnext (buf_at k b)\<rparr>;
               k = (if b_flags (buf_at k b) AND B_DIRTY = 0 \<and> idewait k True \<ge> 0
                    then upd_buf k b (\<lambda>x. x\<lparr>b_data := disk k (b_dev x AND 1) (unat (ide_lba (ide_sector x)))\<rparr>)
                    else k);
               k = upd_buf k b (\<lambda>x. x\<lparr>b_flags := b_flags x OR B_VALID\<rparr>);
               k = upd_buf k b (\<lambda>x. x\<lparr>b_flags := b_flags x AND NOT B_DIRTY\<rparr>);
               k = wakeup k (ChBuf b)
           in if idequeue k \<noteq> None then idestart k (idequeue k) else Ok k))"

text \<open>Last element of the queue from \<open>q\<close> on: where the loop over \<open>pp\<close> stops.\<close>

primrec queue_end :: "nat \<Rightarrow> buf list \<Rightarrow> nat \<Rightarrow> nat res" where
  "queue_end 0 bs q = Fault ''idequeue''"
| "queue_end (Suc n) bs q = (case b_qnext (bs ! q) of None \<Rightarrow> Ok q | Some r \<Rightarrow> queue_end n bs r)"

definition queue_append :: "kernel \<Rightarrow> nat \<Rightarrow> kernel res" where
  "queue_append k b =
     (case idequeue k of
        None \<Rightarrow> Ok (k\<lparr>idequeue := Some b\<rparr>)
      | Some q \<Rightarrow> bindR (queue_end NBUF (bufs k) q) (\<lambda>e. Ok (upd_buf k e (\<lambda>x. x\<lparr>b_qnext := Some b\<rparr>))))"

text \<open>
  Waiting for the request: each turn of the loop sleeps until the drive's next interrupt. The queue never has more than
  \<open>NBUF\<close> requests, so the fuel is enough; a drive that is never started leaves the process asleep.
\<close>

primrec iderw_wait :: "nat \<Rightarrow> kernel \<Rightarrow> nat \<Rightarrow> kernel res" where
  "iderw_wait 0 k b = Sleep ''iderw''"
| "iderw_wait (Suc n) k b =
     (if b_flags (buf_at k b) AND (B_VALID OR B_DIRTY) \<noteq> B_VALID then bindR (ideintr k) (\<lambda>k. iderw_wait n k b)
      else Ok k)"

definition iderw :: "kernel \<Rightarrow> nat \<Rightarrow> kernel res" where
  "iderw k b =
     (if \<not> holdingsleep (b_lock (buf_at k b)) then Panic ''iderw: buf not locked''
      else if b_flags (buf_at k b) AND (B_VALID OR B_DIRTY) = B_VALID then Panic ''iderw: nothing to do''
      else if b_dev (buf_at k b) \<noteq> 0 \<and> \<not> havedisk1 k then Panic ''iderw: ide disk 1 not present''
      else bindR (queue_append (upd_buf k b (\<lambda>x. x\<lparr>b_qnext := None\<rparr>)) b) (\<lambda>k.
             bindR (if idequeue k = Some b then idestart k (Some b) else Ok k) (\<lambda>k.
               iderw_wait (Suc NBUF) k b)))"

text \<open>
  \<open>ideinit\<close> selects drive 1 and polls its status up to 1000 times; \<open>status i\<close> is what the \<open>i\<close>-th read of the port
  returns.
\<close>

definition ideinit :: "kernel \<Rightarrow> (nat \<Rightarrow> u8) \<Rightarrow> kernel" where
  "ideinit k status = (if \<exists>i \<in> set [0 ..< 1000]. status i \<noteq> 0 then k\<lparr>havedisk1 := True\<rparr> else k)"

subsection \<open>The in-memory disk\<close>

text \<open>\<open>memdisk n\<close> is block \<open>n\<close> of the file system image linked to the kernel.\<close>

record memide =
  disksize :: u32
  memdisk :: "nat \<Rightarrow> u8 list"

definition memide_ideinit :: "memide \<Rightarrow> (nat \<Rightarrow> u8 list) \<Rightarrow> u32 \<Rightarrow> memide" where
  "memide_ideinit m img img_size = m\<lparr>memdisk := img, disksize := img_size div of_nat BSIZE\<rparr>"

definition memide_ideintr :: "memide \<Rightarrow> memide" where
  "memide_ideintr m = m"

definition memide_iderw :: "memide \<Rightarrow> buf \<Rightarrow> (buf \<times> memide) res" where
  "memide_iderw m b =
     (if \<not> holdingsleep (b_lock b) then Panic ''iderw: buf not locked''
      else if b_flags b AND (B_VALID OR B_DIRTY) = B_VALID then Panic ''iderw: nothing to do''
      else if b_dev b \<noteq> 1 then Panic ''iderw: request not for disk 1''
      else if b_blockno b \<ge> disksize m then Panic ''iderw: block out of range''
      else
        (let n = unat (b_blockno b);
             (b, m) = (if b_flags b AND B_DIRTY \<noteq> 0
                       then (b\<lparr>b_flags := b_flags b AND NOT B_DIRTY\<rparr>, m\<lparr>memdisk := (memdisk m)(n := b_data b)\<rparr>)
                       else (b\<lparr>b_data := memdisk m n\<rparr>, m))
         in Ok (b\<lparr>b_flags := b_flags b OR B_VALID\<rparr>, m)))"

subsection \<open>The buffer cache\<close>

text \<open>One turn of the loop of \<open>binit\<close>: put the buffer at the front of the list.\<close>

definition link_front :: "kernel \<Rightarrow> nat \<Rightarrow> kernel" where
  "link_front k b =
     (let k = upd_buf k b (\<lambda>x. x\<lparr>b_next := b_next (buf_at k NBUF), b_prev := NBUF\<rparr>);
          k = upd_buf k (b_next (buf_at k NBUF)) (\<lambda>x. x\<lparr>b_prev := b\<rparr>)
      in upd_buf k NBUF (\<lambda>x. x\<lparr>b_next := b\<rparr>))"

definition binit :: "kernel \<Rightarrow> kernel" where
  "binit k =
     fold (\<lambda>b k. link_front (upd_buf k b (\<lambda>x. x\<lparr>b_lock := initsleeplock (b_lock x) ''buffer''\<rparr>)) b) [0 ..< NBUF]
       (upd_buf k NBUF (\<lambda>x. x\<lparr>b_prev := NBUF, b_next := NBUF\<rparr>))"

text \<open>Walk along \<open>b_next\<close> or \<open>b_prev\<close> to the first buffer that satisfies a test, or to the head of the list.\<close>

primrec find_buf :: "nat \<Rightarrow> (buf \<Rightarrow> nat) \<Rightarrow> (buf \<Rightarrow> bool) \<Rightarrow> buf list \<Rightarrow> nat \<Rightarrow> nat option res" where
  "find_buf 0 link P bs b = Fault ''bcache''"
| "find_buf (Suc n) link P bs b =
     (if b = NBUF then Ok None else if P (bs ! b) then Ok (Some b) else find_buf n link P bs (link (bs ! b)))"

definition lock_buf :: "kernel \<Rightarrow> nat \<Rightarrow> kernel res" where
  "lock_buf k b =
     bindR (myproc k) (\<lambda>p.
       bindR (acquiresleep (b_lock (buf_at k b)) (p_pid (proc_at k p))) (\<lambda>l.
         Ok (upd_buf k b (\<lambda>x. x\<lparr>b_lock := l\<rparr>))))"

definition bget :: "kernel \<Rightarrow> u32 \<Rightarrow> u32 \<Rightarrow> (nat \<times> kernel) res" where
  "bget k dev blockno =
     bindR (find_buf (Suc NBUF) b_next (\<lambda>x. b_dev x = dev \<and> b_blockno x = blockno) (bufs k) (b_next (buf_at k NBUF))) (\<lambda>r.
       case r of
         Some b \<Rightarrow>
           bindR (lock_buf (upd_buf k b (\<lambda>x. x\<lparr>b_refcnt := b_refcnt x + 1\<rparr>)) b) (\<lambda>k. Ok (b, k))
       | None \<Rightarrow>
           bindR (find_buf (Suc NBUF) b_prev (\<lambda>x. b_refcnt x = 0 \<and> b_flags x AND B_DIRTY = 0) (bufs k)
                    (b_prev (buf_at k NBUF))) (\<lambda>r.
             case r of
               Some b \<Rightarrow>
                 bindR (lock_buf (upd_buf k b (\<lambda>x. x\<lparr>b_dev := dev, b_blockno := blockno, b_flags := 0, b_refcnt := 1\<rparr>)) b)
                   (\<lambda>k. Ok (b, k))
             | None \<Rightarrow> Panic ''bget: no buffers''))"

definition bread :: "kernel \<Rightarrow> u32 \<Rightarrow> u32 \<Rightarrow> (nat \<times> kernel) res" where
  "bread k dev blockno =
     bindR (bget k dev blockno) (\<lambda>(b, k).
       bindR (if b_flags (buf_at k b) AND B_VALID = 0 then iderw k b else Ok k) (\<lambda>k. Ok (b, k)))"

definition bwrite :: "kernel \<Rightarrow> nat \<Rightarrow> kernel res" where
  "bwrite k b =
     (if \<not> holdingsleep (b_lock (buf_at k b)) then Panic ''bwrite''
      else iderw (upd_buf k b (\<lambda>x. x\<lparr>b_flags := b_flags x OR B_DIRTY\<rparr>)) b)"

definition unlink_buf :: "kernel \<Rightarrow> nat \<Rightarrow> kernel" where
  "unlink_buf k b =
     (let k = upd_buf k (b_next (buf_at k b)) (\<lambda>x. x\<lparr>b_prev := b_prev (buf_at k b)\<rparr>)
      in upd_buf k (b_prev (buf_at k b)) (\<lambda>x. x\<lparr>b_next := b_next (buf_at k b)\<rparr>))"

definition brelse :: "kernel \<Rightarrow> nat \<Rightarrow> kernel res" where
  "brelse k b =
     (if \<not> holdingsleep (b_lock (buf_at k b)) then Panic ''brelse''
      else
        (let k = wakeup (upd_buf k b (\<lambda>x. x\<lparr>b_lock := releasesleep (b_lock x)\<rparr>)) (ChBufLock b);
             k = upd_buf k b (\<lambda>x. x\<lparr>b_refcnt := b_refcnt x - 1\<rparr>)
         in Ok (if b_refcnt (buf_at k b) = 0 then link_front (unlink_buf k b) b else k)))"

end
