(* ===== verification/Codec.thy ===== *)
theory Codec
  imports Prelude
begin

text \<open>
  Little-endian integers inside a block of bytes: how the x86 stores the fields of the structures that the file system
  keeps on disk.
\<close>

definition rd16 :: "u8 list \<Rightarrow> nat \<Rightarrow> u16" where
  "rd16 bs i = ucast (bs ! i) OR push_bit 8 (ucast (bs ! (i + 1)))"

definition rd32 :: "u8 list \<Rightarrow> nat \<Rightarrow> u32" where
  "rd32 bs i = ucast (bs ! i) OR push_bit 8 (ucast (bs ! (i + 1))) OR
     push_bit 16 (ucast (bs ! (i + 2))) OR push_bit 24 (ucast (bs ! (i + 3)))"

definition enc16 :: "u16 \<Rightarrow> u8 list" where
  "enc16 w = [ucast w, ucast (drop_bit 8 w)]"

definition enc32 :: "u32 \<Rightarrow> u8 list" where
  "enc32 w = [ucast w, ucast (drop_bit 8 w), ucast (drop_bit 16 w), ucast (drop_bit 24 w)]"

text \<open>Overwrite part of a block.\<close>

definition splice :: "u8 list \<Rightarrow> nat \<Rightarrow> u8 list \<Rightarrow> u8 list" where
  "splice bs i xs = take i bs @ xs @ drop (i + length xs) bs"

definition wr16 :: "u8 list \<Rightarrow> nat \<Rightarrow> u16 \<Rightarrow> u8 list" where
  "wr16 bs i w = splice bs i (enc16 w)"

definition wr32 :: "u8 list \<Rightarrow> nat \<Rightarrow> u32 \<Rightarrow> u8 list" where
  "wr32 bs i w = splice bs i (enc32 w)"

definition slice :: "u8 list \<Rightarrow> nat \<Rightarrow> nat \<Rightarrow> u8 list" where
  "slice bs i n = take n (drop i bs)"

lemma length_enc [simp]: "length (enc16 v) = 2" "length (enc32 w) = 4"
  by (simp_all add: enc16_def enc32_def)

lemma length_splice [simp]: "i + length xs \<le> length bs \<Longrightarrow> length (splice bs i xs) = length bs"
  by (simp add: splice_def)

lemma length_wr [simp]:
  "i + 2 \<le> length bs \<Longrightarrow> length (wr16 bs i v) = length bs"
  "i + 4 \<le> length bs \<Longrightarrow> length (wr32 bs i w) = length bs"
  by (simp_all add: wr16_def wr32_def)

lemma length_slice [simp]: "i + n \<le> length bs \<Longrightarrow> length (slice bs i n) = n"
  by (simp add: slice_def)

lemma nth_splice:
  "i + length xs \<le> length bs \<Longrightarrow>
   splice bs i xs ! j = (if i \<le> j \<and> j < i + length xs then xs ! (j - i) else bs ! j)"
  by (auto simp: splice_def nth_append)

lemma slice_splice_same: "i + length xs \<le> length bs \<Longrightarrow> slice (splice bs i xs) i (length xs) = xs"
  by (simp add: slice_def splice_def)

lemma slice_splice_other:
  assumes "i + length xs \<le> length bs" and "j + n \<le> length bs" and "j + n \<le> i \<or> i + length xs \<le> j"
  shows "slice (splice bs i xs) j n = slice bs j n"
  using assms by (intro nth_equalityI) (auto simp: slice_def nth_splice)

lemma rd16_enc16: "rd16 (enc16 w) 0 = w"
  unfolding rd16_def enc16_def
  by (rule bit_word_eqI) (auto simp: bit_simps not_less)

lemma rd32_enc32: "rd32 (enc32 w) 0 = w"
proof (rule bit_word_eqI)
  fix n assume "n < LENGTH(32)"
  then consider "n < 8" | "8 \<le> n" "n < 16" | "16 \<le> n" "n < 24" | "24 \<le> n" "n < 32" by force
  then show "bit (rd32 (enc32 w) 0) n = bit w n"
    by cases (simp_all add: rd32_def enc32_def bit_simps, auto)
qed

lemma rd16_slice: "rd16 bs i = rd16 (slice bs i 2) 0" if "i + 2 \<le> length bs"
  using that by (simp add: rd16_def slice_def)

lemma rd32_slice: "rd32 bs i = rd32 (slice bs i 4) 0" if "i + 4 \<le> length bs"
  using that by (simp add: rd32_def slice_def)

lemma rd16_wr16 [simp]: "i + 2 \<le> length bs \<Longrightarrow> rd16 (wr16 bs i w) i = w"
  using slice_splice_same [of i "enc16 w" bs] by (simp add: rd16_slice wr16_def rd16_enc16)

lemma rd32_wr32 [simp]: "i + 4 \<le> length bs \<Longrightarrow> rd32 (wr32 bs i w) i = w"
  using slice_splice_same [of i "enc32 w" bs] by (simp add: rd32_slice wr32_def rd32_enc32)

lemma rd_splice_other:
  assumes "i + length xs \<le> length bs"
  shows "j + 2 \<le> length bs \<Longrightarrow> j + 2 \<le> i \<or> i + length xs \<le> j \<Longrightarrow> rd16 (splice bs i xs) j = rd16 bs j"
    and "j + 4 \<le> length bs \<Longrightarrow> j + 4 \<le> i \<or> i + length xs \<le> j \<Longrightarrow> rd32 (splice bs i xs) j = rd32 bs j"
  using assms by (auto simp: rd16_def rd32_def nth_splice)

lemma rd_wr_other [simp]:
  "i + 4 \<le> length bs \<Longrightarrow> j + 4 \<le> length bs \<Longrightarrow> j + 4 \<le> i \<or> i + 4 \<le> j \<Longrightarrow> rd32 (wr32 bs i w) j = rd32 bs j"
  "i + 2 \<le> length bs \<Longrightarrow> j + 4 \<le> length bs \<Longrightarrow> j + 4 \<le> i \<or> i + 2 \<le> j \<Longrightarrow> rd32 (wr16 bs i v) j = rd32 bs j"
  "i + 4 \<le> length bs \<Longrightarrow> j + 2 \<le> length bs \<Longrightarrow> j + 2 \<le> i \<or> i + 4 \<le> j \<Longrightarrow> rd16 (wr32 bs i w) j = rd16 bs j"
  "i + 2 \<le> length bs \<Longrightarrow> j + 2 \<le> length bs \<Longrightarrow> j + 2 \<le> i \<or> i + 2 \<le> j \<Longrightarrow> rd16 (wr16 bs i v) j = rd16 bs j"
  by (auto simp: wr16_def wr32_def rd_splice_other)

end
