(* ===== verification/Log.thy ===== *)
theory Log
  imports Disk Codec
begin

text \<open>
  The log (\<open>log.c\<close>): transactions over the buffer cache. The header block of the log holds the count and the block
  numbers of the committed transaction, the blocks after it their contents.
\<close>

abbreviation (input) set_data :: "kernel \<Rightarrow> nat \<Rightarrow> u8 list \<Rightarrow> kernel" where
  "set_data k b bs \<equiv> upd_buf k b (\<lambda>x. x\<lparr>b_data := bs\<rparr>)"

abbreviation (input) upd_log :: "kernel \<Rightarrow> (logst \<Rightarrow> logst) \<Rightarrow> kernel" where
  "upd_log k f \<equiv> k\<lparr>lg := f (lg k)\<rparr>"

definition LOGHEADER_SIZE :: nat where "LOGHEADER_SIZE = 4 + 4 * nat LOGSIZE"

text \<open>One turn of the loop of \<open>install_trans\<close>, and the loop from \<open>tail\<close> on.\<close>

definition install_block :: "kernel \<Rightarrow> int \<Rightarrow> kernel res" where
  "install_block k tail =
     bindR (bread k (l_dev (lg k)) (word_of_int (l_start (lg k) + tail + 1))) (\<lambda>(lbuf, k).
       bindR (idx ''log.lh.block'' (lh_block (lg k)) (nat tail)) (\<lambda>n.
         bindR (bread k (l_dev (lg k)) (word_of_int n)) (\<lambda>(dbuf, k).
           bindR (bwrite (set_data k dbuf (b_data (buf_at k lbuf))) dbuf) (\<lambda>k.
             bindR (brelse k lbuf) (\<lambda>k. brelse k dbuf)))))"

primrec install_from :: "nat \<Rightarrow> int \<Rightarrow> kernel \<Rightarrow> kernel res" where
  "install_from 0 tail k = Ok k"
| "install_from (Suc n) tail k = bindR (install_block k tail) (install_from n (tail + 1))"

definition install_trans :: "kernel \<Rightarrow> kernel res" where
  "install_trans k = install_from (nat (lh_n (lg k))) 0 k"

text \<open>Reading \<open>n\<close> block numbers of the header in \<open>bs\<close>, from number \<open>i\<close> on, into the array.\<close>

primrec read_blocks :: "nat \<Rightarrow> nat \<Rightarrow> u8 list \<Rightarrow> int list \<Rightarrow> int list res" where
  "read_blocks 0 i bs blk = Ok blk"
| "read_blocks (Suc n) i bs blk =
     (if 4 + 4 * i + 4 \<le> length bs \<and> i < length blk
      then read_blocks n (Suc i) bs (blk[i := sint (rd32 bs (4 + 4 * i))])
      else Fault ''log.lh.block'')"

definition read_head :: "kernel \<Rightarrow> kernel res" where
  "read_head k =
     bindR (bread k (l_dev (lg k)) (word_of_int (l_start (lg k)))) (\<lambda>(b, k).
       let n = sint (rd32 (b_data (buf_at k b)) 0);
           k = upd_log k (\<lambda>l. l\<lparr>lh_n := n\<rparr>)
       in bindR (read_blocks (nat n) 0 (b_data (buf_at k b)) (lh_block (lg k))) (\<lambda>blk.
            brelse (upd_log k (\<lambda>l. l\<lparr>lh_block := blk\<rparr>)) b))"

primrec write_blocks :: "nat \<Rightarrow> nat \<Rightarrow> int list \<Rightarrow> u8 list \<Rightarrow> u8 list res" where
  "write_blocks 0 i blk bs = Ok bs"
| "write_blocks (Suc n) i blk bs =
     (if 4 + 4 * i + 4 \<le> length bs \<and> i < length blk
      then write_blocks n (Suc i) blk (wr32 bs (4 + 4 * i) (word_of_int (blk ! i)))
      else Fault ''log.lh.block'')"

definition write_head :: "kernel \<Rightarrow> kernel res" where
  "write_head k =
     bindR (bread k (l_dev (lg k)) (word_of_int (l_start (lg k)))) (\<lambda>(b, k).
       bindR (write_blocks (nat (lh_n (lg k))) 0 (lh_block (lg k))
                (wr32 (b_data (buf_at k b)) 0 (word_of_int (lh_n (lg k))))) (\<lambda>bs.
         bindR (bwrite (set_data k b bs) b) (\<lambda>k. brelse k b)))"

definition recover_from_log :: "kernel \<Rightarrow> kernel res" where
  "recover_from_log k =
     bindR (read_head k) (\<lambda>k.
       bindR (install_trans k) (\<lambda>k. write_head (upd_log k (\<lambda>l. l\<lparr>lh_n := 0\<rparr>))))"

text \<open>\<open>readsb\<close> of \<open>fs.c\<close>: the superblock is block 1.\<close>

definition get_superblock :: "u8 list \<Rightarrow> superblock" where
  "get_superblock bs = \<lparr>sb_size = rd32 bs 0, sb_nblocks = rd32 bs 4, sb_ninodes = rd32 bs 8, sb_nlog = rd32 bs 12,
     sb_logstart = rd32 bs 16, sb_inodestart = rd32 bs 20, sb_bmapstart = rd32 bs 24\<rparr>"

definition readsb :: "kernel \<Rightarrow> u32 \<Rightarrow> (superblock \<times> kernel) res" where
  "readsb k dev =
     bindR (bread k dev 1) (\<lambda>(bp, k).
       let s = get_superblock (b_data (buf_at k bp)) in bindR (brelse k bp) (\<lambda>k. Ok (s, k)))"

definition initlog :: "kernel \<Rightarrow> u32 \<Rightarrow> kernel res" where
  "initlog k dev =
     (if LOGHEADER_SIZE \<ge> BSIZE then Panic ''initlog: too big logheader''
      else bindR (readsb k dev) (\<lambda>(s, k).
             recover_from_log (upd_log k (\<lambda>l. l\<lparr>l_start := sint (sb_logstart s), l_size := sint (sb_nlog s),
               l_dev := dev\<rparr>))))"

text \<open>\<open>begin_op\<close> sleeps while a commit runs, or when the log could overflow.\<close>

definition begin_op :: "kernel \<Rightarrow> kernel res" where
  "begin_op k =
     (if l_committing (lg k) then Sleep ''log''
      else if lh_n (lg k) + (l_outstanding (lg k) + 1) * MAXOPBLOCKS > LOGSIZE then Sleep ''log''
      else Ok (upd_log k (\<lambda>l. l\<lparr>l_outstanding := l_outstanding l + 1\<rparr>)))"

definition write_log_block :: "kernel \<Rightarrow> int \<Rightarrow> kernel res" where
  "write_log_block k tail =
     bindR (bread k (l_dev (lg k)) (word_of_int (l_start (lg k) + tail + 1))) (\<lambda>(to, k).
       bindR (idx ''log.lh.block'' (lh_block (lg k)) (nat tail)) (\<lambda>n.
         bindR (bread k (l_dev (lg k)) (word_of_int n)) (\<lambda>(from, k).
           bindR (bwrite (set_data k to (b_data (buf_at k from))) to) (\<lambda>k.
             bindR (brelse k from) (\<lambda>k. brelse k to)))))"

primrec write_log_from :: "nat \<Rightarrow> int \<Rightarrow> kernel \<Rightarrow> kernel res" where
  "write_log_from 0 tail k = Ok k"
| "write_log_from (Suc n) tail k = bindR (write_log_block k tail) (write_log_from n (tail + 1))"

definition write_log :: "kernel \<Rightarrow> kernel res" where
  "write_log k = write_log_from (nat (lh_n (lg k))) 0 k"

definition commit :: "kernel \<Rightarrow> kernel res" where
  "commit k =
     (if lh_n (lg k) > 0 then
        bindR (write_log k) (\<lambda>k.
          bindR (write_head k) (\<lambda>k.
            bindR (install_trans k) (\<lambda>k.
              write_head (upd_log k (\<lambda>l. l\<lparr>lh_n := 0\<rparr>)))))
      else Ok k)"

definition end_op :: "kernel \<Rightarrow> kernel res" where
  "end_op k =
     (let k = upd_log k (\<lambda>l. l\<lparr>l_outstanding := l_outstanding l - 1\<rparr>)
      in if l_committing (lg k) then Panic ''log.committing''
         else if l_outstanding (lg k) = 0 then
           bindR (commit (upd_log k (\<lambda>l. l\<lparr>l_committing := True\<rparr>))) (\<lambda>k.
             Ok (wakeup (upd_log k (\<lambda>l. l\<lparr>l_committing := False\<rparr>)) ChLog))
         else Ok (wakeup k ChLog))"

text \<open>The slot of the header for a block: the one it already has (log absorption), or the next free one.\<close>

definition log_slot :: "logst \<Rightarrow> int \<Rightarrow> nat" where
  "log_slot l n =
     (case find_index (\<lambda>m. m = n) (take (nat (lh_n l)) (lh_block l)) of Some i \<Rightarrow> i | None \<Rightarrow> nat (lh_n l))"

definition log_write :: "kernel \<Rightarrow> nat \<Rightarrow> kernel res" where
  "log_write k b =
     (if lh_n (lg k) \<ge> LOGSIZE \<or> lh_n (lg k) \<ge> l_size (lg k) - 1 then Panic ''too big a transaction''
      else if l_outstanding (lg k) < 1 then Panic ''log_write outside of trans''
      else
        (let n = sint (b_blockno (buf_at k b));
             i = log_slot (lg k) n;
             k = upd_log k (\<lambda>l. l\<lparr>lh_block := (lh_block l)[i := n]\<rparr>);
             k = (if int i = lh_n (lg k) then upd_log k (\<lambda>l. l\<lparr>lh_n := lh_n l + 1\<rparr>) else k)
         in Ok (upd_buf k b (\<lambda>x. x\<lparr>b_flags := b_flags x OR B_DIRTY\<rparr>))))"

end
