(* ===== verification/Fs.thy ===== *)
theory Fs
  imports Log
begin

text \<open>
  The file system (\<open>fs.c\<close>): the block allocator, inodes, file contents, directories and path names, and the console
  device's entry points (\<open>consoleread\<close>, \<open>consolewrite\<close> of \<open>console.c\<close>), which \<open>readi\<close> and \<open>writei\<close> call through
  \<open>devsw\<close>.

  Inodes on disk are 64 bytes, eight to a block, and directory entries 16 bytes; their fields are read and written
  with the little-endian accessors of \<open>Codec\<close>. A routine that copies to or from the caller's memory returns the bytes,
  or takes them as an argument; the caller's model places them. The arguments \<open>dev\<close> and block numbers are \<open>uint\<close>.
\<close>

abbreviation inode_at :: "kernel \<Rightarrow> nat \<Rightarrow> inode" where
  "inode_at k ip \<equiv> icache k ! ip"

subsection \<open>Blocks\<close>

definition IBLOCK :: "u32 \<Rightarrow> superblock \<Rightarrow> u32" where
  "IBLOCK i s = i div of_nat IPB + sb_inodestart s"

definition BBLOCK :: "u32 \<Rightarrow> superblock \<Rightarrow> u32" where
  "BBLOCK b s = b div of_nat BPB + sb_bmapstart s"

definition bzero :: "kernel \<Rightarrow> u32 \<Rightarrow> u32 \<Rightarrow> kernel res" where
  "bzero k dev bno =
     bindR (bread k dev bno) (\<lambda>(bp, k).
       bindR (log_write (set_data k bp (replicate BSIZE 0)) bp) (\<lambda>k. brelse k bp))"

definition bitmask :: "nat \<Rightarrow> u8" where
  "bitmask bi = push_bit (bi mod 8) 1"

text \<open>The inner loop of \<open>balloc\<close>: the first clear bit among the next \<open>n\<close>, from bit \<open>bi\<close> on.\<close>

primrec free_bit :: "nat \<Rightarrow> u8 list \<Rightarrow> nat \<Rightarrow> nat option" where
  "free_bit 0 bs bi = None"
| "free_bit (Suc n) bs bi = (if bs ! (bi div 8) AND bitmask bi = 0 then Some bi else free_bit n bs (Suc bi))"

text \<open>The outer loop, from block \<open>b\<close> on; \<open>n\<close> bounds the number of bitmap blocks.\<close>

primrec balloc_from :: "nat \<Rightarrow> kernel \<Rightarrow> u32 \<Rightarrow> nat \<Rightarrow> (u32 \<times> kernel) res" where
  "balloc_from 0 k dev b = Panic ''balloc: out of blocks''"
| "balloc_from (Suc n) k dev b =
     (if \<not> b < unat (sb_size (sb k)) then Panic ''balloc: out of blocks''
      else
        bindR (bread k dev (BBLOCK (of_nat b) (sb k))) (\<lambda>(bp, k).
          let bs = b_data (buf_at k bp)
          in case free_bit (min BPB (unat (sb_size (sb k)) - b)) bs 0 of
               Some bi \<Rightarrow>
                 (let k = set_data k bp (bs[bi div 8 := bs ! (bi div 8) OR bitmask bi])
                  in bindR (log_write k bp) (\<lambda>k.
                       bindR (brelse k bp) (\<lambda>k.
                         bindR (bzero k dev (of_nat (b + bi))) (\<lambda>k. Ok (of_nat (b + bi), k)))))
             | None \<Rightarrow> bindR (brelse k bp) (\<lambda>k. balloc_from n k dev (b + BPB))))"

definition balloc :: "kernel \<Rightarrow> u32 \<Rightarrow> (u32 \<times> kernel) res" where
  "balloc k dev = balloc_from (Suc (unat (sb_size (sb k)) div BPB)) k dev 0"

definition bfree :: "kernel \<Rightarrow> u32 \<Rightarrow> u32 \<Rightarrow> kernel res" where
  "bfree k dev b =
     bindR (readsb k dev) (\<lambda>(s, k).
       let k = k\<lparr>sb := s\<rparr>
       in bindR (bread k dev (BBLOCK b (sb k))) (\<lambda>(bp, k).
            let bi = unat b mod BPB; bs = b_data (buf_at k bp)
            in if bs ! (bi div 8) AND bitmask bi = 0 then Panic ''freeing free block''
               else
                 bindR (log_write (set_data k bp (bs[bi div 8 := bs ! (bi div 8) AND NOT (bitmask bi)])) bp) (\<lambda>k.
                   brelse k bp)))"

subsection \<open>Inodes\<close>

definition iinit :: "kernel \<Rightarrow> u32 \<Rightarrow> kernel res" where
  "iinit k dev =
     (let k = k\<lparr>icache := map (\<lambda>x. x\<lparr>i_lock := initsleeplock (i_lock x) ''inode''\<rparr>) (icache k)\<rparr>
      in bindR (readsb k dev) (\<lambda>(s, k).
           kprintf (k\<lparr>sb := s\<rparr>)
             ''sb: size %d nblocks %d ninodes %d nlog %d logstart %d inodestart %d bmap start %d\<newline>''
             [PWord (sb_size s), PWord (sb_nblocks s), PWord (sb_ninodes s), PWord (sb_nlog s), PWord (sb_logstart s),
              PWord (sb_inodestart s), PWord (sb_bmapstart s)]))"

definition iget :: "kernel \<Rightarrow> u32 \<Rightarrow> u32 \<Rightarrow> (nat \<times> kernel) res" where
  "iget k dev inum =
     (case find_index (\<lambda>x. i_ref x > 0 \<and> i_dev x = dev \<and> i_inum x = inum) (icache k) of
        Some ip \<Rightarrow> Ok (ip, upd_inode k ip (\<lambda>x. x\<lparr>i_ref := i_ref x + 1\<rparr>))
      | None \<Rightarrow>
          (case find_index (\<lambda>x. i_ref x = 0) (icache k) of
             None \<Rightarrow> Panic ''iget: no inodes''
           | Some ip \<Rightarrow> Ok (ip, upd_inode k ip (\<lambda>x. x\<lparr>i_dev := dev, i_inum := inum, i_ref := 1, i_valid := False\<rparr>))))"

text \<open>Offset of an inode in its block, and its fields there.\<close>

definition dinode_off :: "u32 \<Rightarrow> nat" where
  "dinode_off inum = DINODE_SIZE * (unat inum mod IPB)"

definition put_dinode :: "u8 list \<Rightarrow> nat \<Rightarrow> inode \<Rightarrow> u8 list" where
  "put_dinode bs ofs x =
     splice bs ofs (enc16 (i_type x) @ enc16 (i_major x) @ enc16 (i_minor x) @ enc16 (i_nlink x) @ enc32 (i_size x) @
       concat (map enc32 (i_addrs x)))"

definition get_dinode :: "u8 list \<Rightarrow> nat \<Rightarrow> inode \<Rightarrow> inode" where
  "get_dinode bs ofs x = x\<lparr>i_type := rd16 bs ofs, i_major := rd16 bs (ofs + 2), i_minor := rd16 bs (ofs + 4),
     i_nlink := rd16 bs (ofs + 6), i_size := rd32 bs (ofs + 8),
     i_addrs := map (\<lambda>j. rd32 bs (ofs + 12 + 4 * j)) [0 ..< NDIRECT + 1]\<rparr>"

primrec ialloc_from :: "nat \<Rightarrow> kernel \<Rightarrow> u32 \<Rightarrow> u16 \<Rightarrow> nat \<Rightarrow> (nat \<times> kernel) res" where
  "ialloc_from 0 k dev ty inum = Panic ''ialloc: no inodes''"
| "ialloc_from (Suc n) k dev ty inum =
     (if \<not> inum < unat (sb_ninodes (sb k)) then Panic ''ialloc: no inodes''
      else
        bindR (bread k dev (IBLOCK (of_nat inum) (sb k))) (\<lambda>(bp, k).
          let bs = b_data (buf_at k bp); ofs = dinode_off (of_nat inum)
          in if rd16 bs ofs = 0 then
               bindR (log_write (set_data k bp (wr16 (splice bs ofs (replicate DINODE_SIZE 0)) ofs ty)) bp) (\<lambda>k.
                 bindR (brelse k bp) (\<lambda>k. iget k dev (of_nat inum)))
             else bindR (brelse k bp) (\<lambda>k. ialloc_from n k dev ty (Suc inum))))"

definition ialloc :: "kernel \<Rightarrow> u32 \<Rightarrow> u16 \<Rightarrow> (nat \<times> kernel) res" where
  "ialloc k dev ty = ialloc_from (unat (sb_ninodes (sb k))) k dev ty 1"

definition iupdate :: "kernel \<Rightarrow> nat \<Rightarrow> kernel res" where
  "iupdate k ip =
     bindR (bread k (i_dev (inode_at k ip)) (IBLOCK (i_inum (inode_at k ip)) (sb k))) (\<lambda>(bp, k).
       bindR (log_write (set_data k bp (put_dinode (b_data (buf_at k bp)) (dinode_off (i_inum (inode_at k ip)))
                (inode_at k ip))) bp) (\<lambda>k. brelse k bp))"

definition idup :: "kernel \<Rightarrow> nat \<Rightarrow> nat \<times> kernel" where
  "idup k ip = (ip, upd_inode k ip (\<lambda>x. x\<lparr>i_ref := i_ref x + 1\<rparr>))"

definition lock_inode :: "kernel \<Rightarrow> nat \<Rightarrow> kernel res" where
  "lock_inode k ip =
     bindR (myproc k) (\<lambda>p.
       bindR (acquiresleep (i_lock (inode_at k ip)) (p_pid (proc_at k p))) (\<lambda>l.
         Ok (upd_inode k ip (\<lambda>x. x\<lparr>i_lock := l\<rparr>))))"

definition unlock_inode :: "kernel \<Rightarrow> nat \<Rightarrow> kernel" where
  "unlock_inode k ip = wakeup (upd_inode k ip (\<lambda>x. x\<lparr>i_lock := releasesleep (i_lock x)\<rparr>)) (ChInodeLock ip)"

definition ilock :: "kernel \<Rightarrow> nat option \<Rightarrow> kernel res" where
  "ilock k ipp =
     (case ipp of None \<Rightarrow> Panic ''ilock''
      | Some ip \<Rightarrow>
          if i_ref (inode_at k ip) < 1 then Panic ''ilock''
          else
            bindR (lock_inode k ip) (\<lambda>k.
              if \<not> i_valid (inode_at k ip) then
                bindR (bread k (i_dev (inode_at k ip)) (IBLOCK (i_inum (inode_at k ip)) (sb k))) (\<lambda>(bp, k).
                  let k = upd_inode k ip (get_dinode (b_data (buf_at k bp)) (dinode_off (i_inum (inode_at k ip))))
                  in bindR (brelse k bp) (\<lambda>k.
                       let k = upd_inode k ip (\<lambda>x. x\<lparr>i_valid := True\<rparr>)
                       in if i_type (inode_at k ip) = 0 then Panic ''ilock: no type'' else Ok k))
              else Ok k))"

definition iunlock :: "kernel \<Rightarrow> nat option \<Rightarrow> kernel res" where
  "iunlock k ipp =
     (case ipp of None \<Rightarrow> Panic ''iunlock''
      | Some ip \<Rightarrow>
          if \<not> holdingsleep (i_lock (inode_at k ip)) \<or> i_ref (inode_at k ip) < 1 then Panic ''iunlock''
          else Ok (unlock_inode k ip))"

subsection \<open>Contents\<close>

definition set_addr :: "kernel \<Rightarrow> nat \<Rightarrow> nat \<Rightarrow> u32 \<Rightarrow> kernel" where
  "set_addr k ip i a = upd_inode k ip (\<lambda>x. x\<lparr>i_addrs := (i_addrs x)[i := a]\<rparr>)"

text \<open>A slot of \<open>addrs\<close>, with a block allocated when it is 0.\<close>

definition slot_block :: "kernel \<Rightarrow> nat \<Rightarrow> nat \<Rightarrow> (u32 \<times> kernel) res" where
  "slot_block k ip i =
     (let addr = i_addrs (inode_at k ip) ! i
      in if addr = 0 then bindR (balloc k (i_dev (inode_at k ip))) (\<lambda>(addr, k). Ok (addr, set_addr k ip i addr))
         else Ok (addr, k))"

definition bmap :: "kernel \<Rightarrow> nat \<Rightarrow> u32 \<Rightarrow> (u32 \<times> kernel) res" where
  "bmap k ip bn =
     (if unat bn < NDIRECT then slot_block k ip (unat bn)
      else
        (let bn = bn - of_nat NDIRECT
         in if unat bn < NINDIRECT then
              bindR (slot_block k ip NDIRECT) (\<lambda>(addr, k).
                bindR (bread k (i_dev (inode_at k ip)) addr) (\<lambda>(bp, k).
                  let addr = rd32 (b_data (buf_at k bp)) (4 * unat bn)
                  in if addr = 0 then
                       bindR (balloc k (i_dev (inode_at k ip))) (\<lambda>(addr, k).
                         bindR (log_write (set_data k bp (wr32 (b_data (buf_at k bp)) (4 * unat bn) addr)) bp) (\<lambda>k.
                           bindR (brelse k bp) (\<lambda>k. Ok (addr, k))))
                     else bindR (brelse k bp) (\<lambda>k. Ok (addr, k))))
            else Panic ''bmap: out of range''))"

primrec free_direct :: "nat list \<Rightarrow> kernel \<Rightarrow> nat \<Rightarrow> kernel res" where
  "free_direct [] k ip = Ok k"
| "free_direct (i # is) k ip =
     (let addr = i_addrs (inode_at k ip) ! i
      in if addr \<noteq> 0 then
           bindR (bfree k (i_dev (inode_at k ip)) addr) (\<lambda>k. free_direct is (set_addr k ip i 0) ip)
         else free_direct is k ip)"

primrec free_indirect :: "nat list \<Rightarrow> kernel \<Rightarrow> nat \<Rightarrow> nat \<Rightarrow> kernel res" where
  "free_indirect [] k ip bp = Ok k"
| "free_indirect (j # js) k ip bp =
     (let addr = rd32 (b_data (buf_at k bp)) (4 * j)
      in if addr \<noteq> 0 then bindR (bfree k (i_dev (inode_at k ip)) addr) (\<lambda>k. free_indirect js k ip bp)
         else free_indirect js k ip bp)"

definition itrunc :: "kernel \<Rightarrow> nat \<Rightarrow> kernel res" where
  "itrunc k ip =
     bindR (free_direct [0 ..< NDIRECT] k ip) (\<lambda>k.
       bindR (let addr = i_addrs (inode_at k ip) ! NDIRECT
              in if addr \<noteq> 0 then
                   bindR (bread k (i_dev (inode_at k ip)) addr) (\<lambda>(bp, k).
                     bindR (free_indirect [0 ..< NINDIRECT] k ip bp) (\<lambda>k.
                       bindR (brelse k bp) (\<lambda>k.
                         bindR (bfree k (i_dev (inode_at k ip)) (i_addrs (inode_at k ip) ! NDIRECT)) (\<lambda>k.
                           Ok (set_addr k ip NDIRECT 0)))))
                 else Ok k) (\<lambda>k.
         iupdate (upd_inode k ip (\<lambda>x. x\<lparr>i_size := 0\<rparr>)) ip))"

definition iput :: "kernel \<Rightarrow> nat \<Rightarrow> kernel res" where
  "iput k ip =
     bindR (lock_inode k ip) (\<lambda>k.
       bindR (if i_valid (inode_at k ip) \<and> i_nlink (inode_at k ip) = 0 \<and> i_ref (inode_at k ip) = 1 then
                bindR (itrunc k ip) (\<lambda>k.
                  bindR (iupdate (upd_inode k ip (\<lambda>x. x\<lparr>i_type := 0\<rparr>)) ip) (\<lambda>k.
                    Ok (upd_inode k ip (\<lambda>x. x\<lparr>i_valid := False\<rparr>))))
              else Ok k) (\<lambda>k.
         Ok (upd_inode (unlock_inode k ip) ip (\<lambda>x. x\<lparr>i_ref := i_ref x - 1\<rparr>))))"

definition iunlockput :: "kernel \<Rightarrow> nat \<Rightarrow> kernel res" where
  "iunlockput k ip = bindR (iunlock k (Some ip)) (\<lambda>k. iput k ip)"

definition stati :: "kernel \<Rightarrow> nat \<Rightarrow> stat" where
  "stati k ip = (let x = inode_at k ip in
     \<lparr>st_type = i_type x, st_dev = i_dev x, st_ino = i_inum x, st_nlink = i_nlink x, st_size = i_size x\<rparr>)"

subsection \<open>The console device\<close>

definition CONSOLE :: u16 where "CONSOLE = 1"

definition consoleinit :: "kernel \<Rightarrow> kernel" where
  "consoleinit k = k\<lparr>devsw_console := True, con := (con k)\<lparr>cons_locking := True\<rparr>\<rparr>"

text \<open>The result, and the bytes stored at \<open>dst\<close>.\<close>

definition consoleread :: "kernel \<Rightarrow> nat \<Rightarrow> int \<Rightarrow> (int \<times> u8 list \<times> kernel) res" where
  "consoleread k ip n =
     bindR (iunlock k (Some ip)) (\<lambda>k.
       bindR (myproc k) (\<lambda>p.
         case consoleread_loop (p_killed (proc_at k p)) (input (con k)) (nat n) [] of
           Killed inp \<Rightarrow> bindR (ilock (k\<lparr>con := (con k)\<lparr>input := inp\<rparr>\<rparr>) (Some ip)) (\<lambda>k. Ok (-1, [], k))
         | Wait cs inp \<Rightarrow> Sleep ''console''
         | Read cs inp \<Rightarrow>
             bindR (ilock (k\<lparr>con := (con k)\<lparr>input := inp\<rparr>\<rparr>) (Some ip)) (\<lambda>k. Ok (int (length cs), cs, k))))"

definition consolewrite :: "kernel \<Rightarrow> nat \<Rightarrow> u8 list \<Rightarrow> (int \<times> kernel) res" where
  "consolewrite k ip src =
     bindR (iunlock k (Some ip)) (\<lambda>k.
       bindR (consputs (con k) (map uint src)) (\<lambda>c.
         bindR (ilock (k\<lparr>con := c\<rparr>) (Some ip)) (\<lambda>k. Ok (int (length src), k))))"

subsection \<open>Reading and writing\<close>

text \<open>The loop of \<open>readi\<close>: \<open>r\<close> bytes are left (\<open>n - tot\<close>), and the bytes copied so far are \<open>acc\<close>.\<close>

function readi_loop :: "kernel \<Rightarrow> nat \<Rightarrow> u32 \<Rightarrow> nat \<Rightarrow> u8 list \<Rightarrow> (u8 list \<times> kernel) res" where
  "readi_loop k ip off r acc =
     (if r = 0 then Ok (acc, k)
      else
        bindR (bmap k ip (off div of_nat BSIZE)) (\<lambda>(addr, k).
          bindR (bread k (i_dev (inode_at k ip)) addr) (\<lambda>(bp, k).
            let m = min r (BSIZE - unat off mod BSIZE);
                bs = slice (b_data (buf_at k bp)) (unat off mod BSIZE) m
            in bindR (brelse k bp) (\<lambda>k. readi_loop k ip (off + of_nat m) (r - m) (acc @ bs)))))"
  by pat_completeness auto
termination
  by (relation "measure (\<lambda>(k, ip, off, r, acc). r)") (auto simp: BSIZE_def)

definition readi :: "kernel \<Rightarrow> nat \<Rightarrow> u32 \<Rightarrow> u32 \<Rightarrow> (int \<times> u8 list \<times> kernel) res" where
  "readi k ip off n =
     (let x = inode_at k ip
      in if i_type x = T_DEV then
           (if sint (i_major x) < 0 \<or> sint (i_major x) \<ge> NDEV \<or> \<not> (i_major x = CONSOLE \<and> devsw_console k) then Ok (-1, [], k)
            else consoleread k ip (sint n))
         else if off > i_size x \<or> off + n < off then Ok (-1, [], k)
         else
           (let n = (if off + n > i_size x then i_size x - off else n)
            in bindR (readi_loop k ip off (unat n) []) (\<lambda>(bs, k). Ok (sint n, bs, k))))"

text \<open>The loop of \<open>writei\<close>: the bytes still to be written are \<open>src\<close>; it returns the final offset.\<close>

function writei_loop :: "kernel \<Rightarrow> nat \<Rightarrow> u32 \<Rightarrow> u8 list \<Rightarrow> (u32 \<times> kernel) res" where
  "writei_loop k ip off src =
     (if src = [] then Ok (off, k)
      else
        bindR (bmap k ip (off div of_nat BSIZE)) (\<lambda>(addr, k).
          bindR (bread k (i_dev (inode_at k ip)) addr) (\<lambda>(bp, k).
            let m = min (length src) (BSIZE - unat off mod BSIZE);
                k = set_data k bp (splice (b_data (buf_at k bp)) (unat off mod BSIZE) (take m src))
            in bindR (log_write k bp) (\<lambda>k.
                 bindR (brelse k bp) (\<lambda>k. writei_loop k ip (off + of_nat m) (drop m src))))))"
  by pat_completeness auto
termination
  by (relation "measure (\<lambda>(k, ip, off, src). length src)") (auto simp: BSIZE_def)

declare readi_loop.simps [simp del] writei_loop.simps [simp del]

text \<open>\<open>writei\<close> of the \<open>n\<close> bytes \<open>src\<close> at the caller's pointer.\<close>

definition writei :: "kernel \<Rightarrow> nat \<Rightarrow> u8 list \<Rightarrow> u32 \<Rightarrow> (int \<times> kernel) res" where
  "writei k ip src off =
     (let x = inode_at k ip; n = of_nat (length src)
      in if i_type x = T_DEV then
           (if sint (i_major x) < 0 \<or> sint (i_major x) \<ge> NDEV \<or> \<not> (i_major x = CONSOLE \<and> devsw_console k) then Ok (-1, k)
            else consolewrite k ip src)
         else if off > i_size x \<or> off + n < off then Ok (-1, k)
         else if off + n > of_nat (MAXFILE * BSIZE) then Ok (-1, k)
         else
           bindR (writei_loop k ip off src) (\<lambda>(off, k).
             bindR (if n > 0 \<and> off > i_size (inode_at k ip)
                    then iupdate (upd_inode k ip (\<lambda>x. x\<lparr>i_size := off\<rparr>)) ip else Ok k) (\<lambda>k.
               Ok (sint n, k))))"

subsection \<open>Directories\<close>

definition DIRENT_SIZE :: nat where "DIRENT_SIZE = 2 + DIRSIZ"

definition de_inum :: "u8 list \<Rightarrow> u16" where "de_inum de = rd16 de 0"
definition de_name :: "u8 list \<Rightarrow> u8 list" where "de_name de = drop 2 de"

definition namecmp :: "u8 list \<Rightarrow> u8 list \<Rightarrow> int res" where
  "namecmp s t = strncmp s t DIRSIZ"

text \<open>
  The loops over the entries of a directory, from offset \<open>off\<close> on. The fuel is the number of entries that fit below
  \<open>size\<close>, plus one for the test that ends the loop.
\<close>

definition dir_fuel :: "kernel \<Rightarrow> nat \<Rightarrow> nat" where
  "dir_fuel k dp = unat (i_size (inode_at k dp)) div DIRENT_SIZE + 2"

primrec dirlookup_from :: "nat \<Rightarrow> kernel \<Rightarrow> nat \<Rightarrow> u8 list \<Rightarrow> u32 \<Rightarrow> ((nat \<times> u32) option \<times> kernel) res" where
  "dirlookup_from 0 k dp nm off = Fault ''dirlookup''"
| "dirlookup_from (Suc n) k dp nm off =
     (if \<not> off < i_size (inode_at k dp) then Ok (None, k)
      else
        bindR (readi k dp off (of_nat DIRENT_SIZE)) (\<lambda>(r, de, k).
          if r \<noteq> int DIRENT_SIZE then Panic ''dirlookup read''
          else if de_inum de = 0 then dirlookup_from n k dp nm (off + of_nat DIRENT_SIZE)
          else
            bindR (namecmp nm (de_name de)) (\<lambda>c.
              if c = 0 then bindR (iget k (i_dev (inode_at k dp)) (ucast (de_inum de))) (\<lambda>(ip, k). Ok (Some (ip, off), k))
              else dirlookup_from n k dp nm (off + of_nat DIRENT_SIZE))))"

definition dirlookup :: "kernel \<Rightarrow> nat \<Rightarrow> u8 list \<Rightarrow> ((nat \<times> u32) option \<times> kernel) res" where
  "dirlookup k dp nm =
     (if i_type (inode_at k dp) \<noteq> T_DIR then Panic ''dirlookup not DIR''
      else dirlookup_from (dir_fuel k dp) k dp nm 0)"

primrec empty_dirent :: "nat \<Rightarrow> kernel \<Rightarrow> nat \<Rightarrow> u32 \<Rightarrow> (u32 \<times> kernel) res" where
  "empty_dirent 0 k dp off = Fault ''dirlink''"
| "empty_dirent (Suc n) k dp off =
     (if \<not> off < i_size (inode_at k dp) then Ok (off, k)
      else
        bindR (readi k dp off (of_nat DIRENT_SIZE)) (\<lambda>(r, de, k).
          if r \<noteq> int DIRENT_SIZE then Panic ''dirlink read''
          else if de_inum de = 0 then Ok (off, k)
          else empty_dirent n k dp (off + of_nat DIRENT_SIZE)))"

definition dirlink :: "kernel \<Rightarrow> nat \<Rightarrow> u8 list \<Rightarrow> u32 \<Rightarrow> (int \<times> kernel) res" where
  "dirlink k dp nm inum =
     bindR (dirlookup k dp nm) (\<lambda>(found, k).
       case found of
         Some (ip, _) \<Rightarrow> bindR (iput k ip) (\<lambda>k. Ok (-1, k))
       | None \<Rightarrow>
           bindR (empty_dirent (dir_fuel k dp) k dp 0) (\<lambda>(off, k).
             bindR (strncpy (replicate DIRSIZ 0) nm (int DIRSIZ)) (\<lambda>name.
               bindR (writei k dp (enc16 (ucast inum) @ name) off) (\<lambda>(r, k).
                 if r \<noteq> int DIRENT_SIZE then Panic ''dirlink'' else Ok (0, k)))))"

subsection \<open>Paths\<close>

text \<open>
  A path is the bytes from the pointer on. \<open>skipelem\<close> gives the rest of the path and the new contents of the 14 bytes at
  \<open>name\<close>, or \<open>None\<close> for the null pointer.
\<close>

definition skipelem :: "u8 list \<Rightarrow> u8 list \<Rightarrow> (u8 list \<times> u8 list) option res" where
  "skipelem path name =
     (case dropWhile (\<lambda>c. c = 47) path of
        [] \<Rightarrow> Fault ''skipelem''
      | c # s \<Rightarrow>
          if c = 0 then Ok None
          else
            (let s = c # s;
                 elem = takeWhile (\<lambda>c. c \<noteq> 47 \<and> c \<noteq> 0) s;
                 path = dropWhile (\<lambda>c. c \<noteq> 47 \<and> c \<noteq> 0) s;
                 len = length elem;
                 name = (if len \<ge> DIRSIZ then take DIRSIZ elem @ drop DIRSIZ name
                         else elem @ 0 # drop (Suc len) name)
             in if path = [] \<or> dropWhile (\<lambda>c. c = 47) path = [] then Fault ''skipelem''
                else Ok (Some (dropWhile (\<lambda>c. c = 47) path, name))))"

text \<open>The loop of \<open>namex\<close>; every turn shortens the path, so its length is enough fuel.\<close>

primrec namex_loop :: "nat \<Rightarrow> kernel \<Rightarrow> nat \<Rightarrow> u8 list \<Rightarrow> bool \<Rightarrow> u8 list \<Rightarrow> ((nat \<times> u8 list) option \<times> kernel) res" where
  "namex_loop 0 k ip path nameiparent name = Fault ''namex''"
| "namex_loop (Suc n) k ip path nameiparent name =
     bindR (skipelem path name) (\<lambda>r.
       case r of
         None \<Rightarrow>
           (if nameiparent then bindR (iput k ip) (\<lambda>k. Ok (None, k)) else Ok (Some (ip, name), k))
       | Some (path, name) \<Rightarrow>
           bindR (ilock k (Some ip)) (\<lambda>k.
             if i_type (inode_at k ip) \<noteq> T_DIR then bindR (iunlockput k ip) (\<lambda>k. Ok (None, k))
             else if nameiparent \<and> path ! 0 = 0 then bindR (iunlock k (Some ip)) (\<lambda>k. Ok (Some (ip, name), k))
             else
               bindR (dirlookup k ip name) (\<lambda>(found, k).
                 case found of
                   None \<Rightarrow> bindR (iunlockput k ip) (\<lambda>k. Ok (None, k))
                 | Some (next, _) \<Rightarrow>
                     bindR (iunlockput k ip) (\<lambda>k. namex_loop n k next path nameiparent name))))"

definition namex :: "kernel \<Rightarrow> u8 list \<Rightarrow> bool \<Rightarrow> u8 list \<Rightarrow> ((nat \<times> u8 list) option \<times> kernel) res" where
  "namex k path nameiparent name =
     (case path of
        [] \<Rightarrow> Fault ''namex''
      | c # _ \<Rightarrow>
          bindR (if c = 47 then iget k ROOTDEV ROOTINO
                 else bindR (myproc k) (\<lambda>p. bindR (deref ''namex: cwd'' (p_cwd (proc_at k p))) (\<lambda>ip. Ok (idup k ip))))
            (\<lambda>(ip, k). namex_loop (Suc (length path)) k ip path nameiparent name))"

definition namei :: "kernel \<Rightarrow> u8 list \<Rightarrow> (nat option \<times> kernel) res" where
  "namei k path = bindR (namex k path False (replicate DIRSIZ 0)) (\<lambda>(r, k). Ok (map_option fst r, k))"

definition nameiparent :: "kernel \<Rightarrow> u8 list \<Rightarrow> u8 list \<Rightarrow> ((nat \<times> u8 list) option \<times> kernel) res" where
  "nameiparent k path name = namex k path True name"

end
