(* ===== verification/File.thy ===== *)
theory File
  imports Fs
begin

text \<open>
  Open files (\<open>file.c\<close>) and the part of \<open>pipe.c\<close> that works on the kernel's state: \<open>pipealloc\<close>, and the pipe operations of
  \<open>Pipe\<close> applied to the pipe in a kernel page, with the wake-ups they cause.

  A read returns the bytes it stores at the caller's address. \<open>src\<close> are the bytes at the address that a write is given,
  and \<open>n\<close> their number as the C \<open>int\<close> argument (negative when the caller passed a negative count).
\<close>

abbreviation file_at :: "kernel \<Rightarrow> nat \<Rightarrow> kfile" where
  "file_at k f \<equiv> ftable k ! f"

subsection \<open>Pipes in the kernel\<close>

definition killed_now :: "kernel \<Rightarrow> bool res" where
  "killed_now k = bindR (myproc k) (\<lambda>p. Ok (p_killed (proc_at k p)))"

definition pipeclose_k :: "kernel \<Rightarrow> u32 \<Rightarrow> bool \<Rightarrow> kernel res" where
  "pipeclose_k k pi writable =
     (let (p, unused) = pipeclose (pipes k pi) writable;
          k = wakeup (k\<lparr>pipes := (pipes k)(pi := p)\<rparr>) (if writable then ChPipeRead pi else ChPipeWrite pi)
      in if unused then bindR (kfree (km k) pi) (\<lambda>m. Ok (k\<lparr>km := m\<rparr>)) else Ok k)"

definition pipewrite_k :: "kernel \<Rightarrow> u32 \<Rightarrow> u8 list \<Rightarrow> int \<Rightarrow> (int \<times> kernel) res" where
  "pipewrite_k k pi src n =
     bindR (killed_now k) (\<lambda>killed.
       case fst (pipewrite killed (pipes k pi) src n) of
         Returns r p woken \<Rightarrow>
           (let k = k\<lparr>pipes := (pipes k)(pi := p)\<rparr>
            in Ok (r, if woken then wakeup k (ChPipeRead pi) else k))
       | Sleeps p \<Rightarrow> Sleep ''pipe'')"

definition piperead_k :: "kernel \<Rightarrow> u32 \<Rightarrow> int \<Rightarrow> (int \<times> u8 list \<times> kernel) res" where
  "piperead_k k pi n =
     bindR (killed_now k) (\<lambda>killed.
       case piperead killed (pipes k pi) (nat n) of
         (Returns r p woken, cs) \<Rightarrow>
           (let k = k\<lparr>pipes := (pipes k)(pi := p)\<rparr>
            in Ok (r, cs, if woken then wakeup k (ChPipeWrite pi) else k))
       | (Sleeps p, cs) \<Rightarrow> Sleep ''pipe'')"

subsection \<open>The file table\<close>

definition filealloc :: "kernel \<Rightarrow> nat option \<times> kernel" where
  "filealloc k =
     (case find_index (\<lambda>f. f_ref f = 0) (ftable k) of
        Some f \<Rightarrow> (Some f, upd_file k f (\<lambda>x. x\<lparr>f_ref := 1\<rparr>))
      | None \<Rightarrow> (None, k))"

definition filedup :: "kernel \<Rightarrow> nat \<Rightarrow> (nat \<times> kernel) res" where
  "filedup k f =
     (if f_ref (file_at k f) < 1 then Panic ''filedup''
      else Ok (f, upd_file k f (\<lambda>x. x\<lparr>f_ref := f_ref x + 1\<rparr>)))"

definition fileclose :: "kernel \<Rightarrow> nat \<Rightarrow> kernel res" where
  "fileclose k f =
     (if f_ref (file_at k f) < 1 then Panic ''fileclose''
      else
        (let k = upd_file k f (\<lambda>x. x\<lparr>f_ref := f_ref x - 1\<rparr>)
         in if f_ref (file_at k f) > 0 then Ok k
            else
              (let ff = file_at k f;
                   k = upd_file k f (\<lambda>x. x\<lparr>f_ref := 0, f_type := FD_NONE\<rparr>)
               in case f_type ff of
                    FD_PIPE \<Rightarrow> pipeclose_k k (f_pipe ff) (f_writable ff \<noteq> 0)
                  | FD_INODE \<Rightarrow>
                      bindR (begin_op k) (\<lambda>k.
                        bindR (deref ''fileclose: ip'' (f_ip ff)) (\<lambda>ip.
                          bindR (iput k ip) end_op))
                  | FD_NONE \<Rightarrow> Ok k)))"

definition filestat :: "kernel \<Rightarrow> nat \<Rightarrow> (int \<times> stat option \<times> kernel) res" where
  "filestat k f =
     (if f_type (file_at k f) = FD_INODE then
        bindR (ilock k (f_ip (file_at k f))) (\<lambda>k.
          bindR (deref ''filestat: ip'' (f_ip (file_at k f))) (\<lambda>ip.
            let st = stati k ip in bindR (iunlock k (Some ip)) (\<lambda>k. Ok (0, Some st, k))))
      else Ok (-1, None, k))"

definition fileread :: "kernel \<Rightarrow> nat \<Rightarrow> int \<Rightarrow> (int \<times> u8 list \<times> kernel) res" where
  "fileread k f n =
     (if f_readable (file_at k f) = 0 then Ok (-1, [], k)
      else
        (case f_type (file_at k f) of
           FD_PIPE \<Rightarrow> piperead_k k (f_pipe (file_at k f)) n
         | FD_INODE \<Rightarrow>
             bindR (ilock k (f_ip (file_at k f))) (\<lambda>k.
               bindR (deref ''fileread: ip'' (f_ip (file_at k f))) (\<lambda>ip.
                 bindR (readi k ip (f_off (file_at k f)) (word_of_int n)) (\<lambda>(r, bs, k).
                   let k = (if r > 0 then upd_file k f (\<lambda>x. x\<lparr>f_off := f_off x + word_of_int r\<rparr>) else k)
                   in bindR (iunlock k (Some ip)) (\<lambda>k. Ok (r, bs, k)))))
         | FD_NONE \<Rightarrow> Panic ''fileread''))"

definition max_write :: int where
  "max_write = ((MAXOPBLOCKS - 1 - 1 - 2) div 2) * 512"

text \<open>One transaction of the loop of \<open>filewrite\<close>: the result of \<open>writei\<close> for the piece \<open>src\<close>.\<close>

definition filewrite_piece :: "kernel \<Rightarrow> nat \<Rightarrow> u8 list \<Rightarrow> (int \<times> kernel) res" where
  "filewrite_piece k f src =
     bindR (begin_op k) (\<lambda>k.
       bindR (ilock k (f_ip (file_at k f))) (\<lambda>k.
         bindR (deref ''filewrite: ip'' (f_ip (file_at k f))) (\<lambda>ip.
           bindR (writei k ip src (f_off (file_at k f))) (\<lambda>(r, k).
             let k = (if r > 0 then upd_file k f (\<lambda>x. x\<lparr>f_off := f_off x + word_of_int r\<rparr>) else k)
             in bindR (iunlock k (Some ip)) (\<lambda>k. bindR (end_op k) (\<lambda>k. Ok (r, k)))))))"

text \<open>The loop from the bytes \<open>src\<close> on; it returns the number of bytes that are left unwritten.\<close>

function filewrite_loop :: "kernel \<Rightarrow> nat \<Rightarrow> u8 list \<Rightarrow> (nat \<times> kernel) res" where
  "filewrite_loop k f src =
     (if src = [] then Ok (0, k)
      else
        (let n1 = min (length src) (nat max_write)
         in bindR (filewrite_piece k f (take n1 src)) (\<lambda>(r, k).
              if r < 0 then Ok (length src, k)
              else if r \<noteq> int n1 then Panic ''short filewrite''
              else filewrite_loop k f (drop n1 src))))"
  by pat_completeness auto
termination
  by (relation "measure (\<lambda>(k, f, src). length src)") (auto simp: max_write_def MAXOPBLOCKS_def)

declare filewrite_loop.simps [simp del]

definition filewrite :: "kernel \<Rightarrow> nat \<Rightarrow> u8 list \<Rightarrow> int \<Rightarrow> (int \<times> kernel) res" where
  "filewrite k f src n =
     (if f_writable (file_at k f) = 0 then Ok (-1, k)
      else
        (case f_type (file_at k f) of
           FD_PIPE \<Rightarrow> pipewrite_k k (f_pipe (file_at k f)) src n
         | FD_INODE \<Rightarrow>
             bindR (filewrite_loop k f src) (\<lambda>(left, k).
               Ok (if int (length src) - int left = n then n else -1, k))
         | FD_NONE \<Rightarrow> Panic ''filewrite''))"

subsection \<open>\<open>pipealloc\<close>\<close>

definition pipe_file :: "u32 \<Rightarrow> u8 \<Rightarrow> u8 \<Rightarrow> kfile \<Rightarrow> kfile" where
  "pipe_file pi r w x = x\<lparr>f_type := FD_PIPE, f_readable := r, f_writable := w, f_pipe := pi\<rparr>"

definition pipealloc :: "kernel \<Rightarrow> ((nat \<times> nat) option \<times> kernel) res" where
  "pipealloc k =
     (let (f0, k) = filealloc k
      in case f0 of
           None \<Rightarrow> Ok (None, k)
         | Some r \<Rightarrow>
             (let (f1, k) = filealloc k
              in case f1 of
                   None \<Rightarrow> bindR (fileclose k r) (\<lambda>k. Ok (None, k))
                 | Some w \<Rightarrow>
                     (let (pi, m) = kalloc (km k); k = k\<lparr>km := m\<rparr>
                      in if pi = 0 then bindR (fileclose k r) (\<lambda>k. bindR (fileclose k w) (\<lambda>k. Ok (None, k)))
                         else
                           (let k = k\<lparr>pipes := (pipes k)(pi := pipe_init (pipes k pi))\<rparr>;
                                k = upd_file k r (pipe_file pi 1 0);
                                k = upd_file k w (pipe_file pi 0 1)
                            in Ok (Some (r, w), k)))))"

end
