(* ===== verification/Syscall.thy ===== *)
theory Syscall
  imports File
begin

text \<open>
  User memory as the kernel sees it, and the fetching of system call arguments (\<open>syscall.c\<close>).

  The kernel reads and writes user memory through the current page table (\<open>cr3\<close>), with write protection in force. An
  access to a page that is not present (or not writable) would enter the page fault handler; the model stops there with a
  \<open>Fault\<close>. \<open>PageFault\<close> itself is modelled in \<open>Vm\<close>.
\<close>

subsection \<open>User memory\<close>

definition uaddr :: "kernel \<Rightarrow> u32 \<Rightarrow> bool \<Rightarrow> (u32 \<times> nat) option" where
  "uaddr k va write =
     (case fst (walkpgdir (km k) (P2V (cr3 k)) va False) of
        None \<Rightarrow> None
      | Some p \<Rightarrow>
          (let pte = read_pte (km k) p
           in if pte AND PTE_P \<noteq> 0 \<and> (write \<longrightarrow> pte AND PTE_W \<noteq> 0)
              then Some (PTE_ADDR pte, unat (PTE_FLAGS va)) else None))"

definition uload :: "kernel \<Rightarrow> u32 \<Rightarrow> u8 res" where
  "uload k va =
     (case uaddr k va False of None \<Rightarrow> Fault ''page fault'' | Some (pa, i) \<Rightarrow> Ok (get_byte (pmem (km k) pa) i))"

definition ustore :: "kernel \<Rightarrow> u32 \<Rightarrow> u8 \<Rightarrow> kernel res" where
  "ustore k va b =
     (case uaddr k va True of None \<Rightarrow> Fault ''page fault''
      | Some (pa, i) \<Rightarrow> Ok (k\<lparr>km := (km k)\<lparr>pmem := (pmem (km k))(pa := put_byte (pmem (km k) pa) i b)\<rparr>\<rparr>))"

primrec uloads :: "kernel \<Rightarrow> u32 \<Rightarrow> nat \<Rightarrow> u8 list res" where
  "uloads k va 0 = Ok []"
| "uloads k va (Suc n) = bindR (uload k va) (\<lambda>b. bindR (uloads k (va + 1) n) (\<lambda>bs. Ok (b # bs)))"

primrec ustores :: "u8 list \<Rightarrow> kernel \<Rightarrow> u32 \<Rightarrow> kernel res" where
  "ustores [] k va = Ok k"
| "ustores (b # bs) k va = bindR (ustore k va b) (\<lambda>k. ustores bs k (va + 1))"

definition uload32 :: "kernel \<Rightarrow> u32 \<Rightarrow> u32 res" where
  "uload32 k va = bindR (uloads k va 4) (\<lambda>bs. Ok (rd32 bs 0))"

text \<open>The string at \<open>s\<close>, with its NUL, if one comes within \<open>n\<close> bytes.\<close>

primrec scan_str :: "nat \<Rightarrow> kernel \<Rightarrow> u32 \<Rightarrow> u8 list option res" where
  "scan_str 0 k s = Ok None"
| "scan_str (Suc n) k s =
     bindR (uload k s) (\<lambda>c.
       if c = 0 then Ok (Some [0])
       else bindR (scan_str n k (s + 1)) (\<lambda>r. Ok (map_option (\<lambda>cs. c # cs) r)))"

subsection \<open>Arguments\<close>

text \<open>\<open>None\<close> stands for the result -1.\<close>

definition fetchint :: "kernel \<Rightarrow> u32 \<Rightarrow> u32 option res" where
  "fetchint k addr =
     bindR (myproc k) (\<lambda>p.
       let q = proc_at k p
       in if (addr \<ge> p_sz q \<and> addr < tf_esp (p_tf q)) \<or> (addr + 4 > p_sz q \<and> addr < tf_esp (p_tf q)) \<or> addr + 4 > USERTOP
          then Ok None
          else bindR (uload32 k addr) (\<lambda>w. Ok (Some w)))"

text \<open>\<open>fetchstr\<close> gives the pointer and the bytes of the string.\<close>

definition fetchstr :: "kernel \<Rightarrow> u32 \<Rightarrow> (u32 \<times> u8 list) option res" where
  "fetchstr k addr =
     bindR (myproc k) (\<lambda>p.
       let q = proc_at k p
       in if (addr \<ge> p_sz q \<and> addr < tf_esp (p_tf q)) \<or> addr > USERTOP then Ok None
          else if addr < p_sz q then
            bindR (scan_str (unat (p_sz q - addr)) k addr) (\<lambda>r. Ok (map_option (\<lambda>cs. (addr, cs)) r))
          else if addr \<ge> tf_esp (p_tf q) \<and> addr < USERTOP then
            bindR (scan_str (unat (USERTOP - addr)) k addr) (\<lambda>r. Ok (map_option (\<lambda>cs. (addr, cs)) r))
          else Ok None)"

definition argint :: "kernel \<Rightarrow> nat \<Rightarrow> u32 option res" where
  "argint k n = bindR (myproc k) (\<lambda>p. fetchint k (tf_esp (p_tf (proc_at k p)) + 4 + 4 * of_nat n))"

definition argptr :: "kernel \<Rightarrow> nat \<Rightarrow> u32 \<Rightarrow> u32 option res" where
  "argptr k n sz =
     bindR (myproc k) (\<lambda>p.
       bindR (argint k n) (\<lambda>r.
         case r of
           None \<Rightarrow> Ok None
         | Some i \<Rightarrow>
             (let q = proc_at k p
              in if i < PGSIZE \<or> i > USERTOP \<or> (i \<ge> p_sz q \<and> i < USERTOP - p_stackSize q) \<or>
                    (i + sz > p_sz q \<and> i + sz < USERTOP - p_stackSize q) \<or> i + sz > USERTOP \<or>
                    (i < p_sz q \<and> i + sz \<ge> USERTOP - p_stackSize q)
                 then Ok None else Ok (Some i))))"

definition argstr :: "kernel \<Rightarrow> nat \<Rightarrow> (u32 \<times> u8 list) option res" where
  "argstr k n = bindR (argint k n) (\<lambda>r. case r of None \<Rightarrow> Ok None | Some addr \<Rightarrow> fetchstr k addr)"

end
