(* ===== verification/Sysfile.thy ===== *)
theory Sysfile
  imports Syscall
begin

text \<open>
  The file system calls (\<open>sysfile.c\<close>) and the per-process swap files (the last functions of \<open>fs.c\<close>). The result of a call
  is its C return value with the new kernel state.
\<close>

definition O_RDONLY :: u32 where "O_RDONLY = 0"
definition O_WRONLY :: u32 where "O_WRONLY = 1"
definition O_RDWR :: u32 where "O_RDWR = 2"
definition O_CREATE :: u32 where "O_CREATE = 0x200"

subsection \<open>Descriptors\<close>

text \<open>\<open>argfd\<close> gives the descriptor and the file.\<close>

definition argfd :: "kernel \<Rightarrow> nat \<Rightarrow> (nat \<times> nat) option res" where
  "argfd k n =
     bindR (argint k n) (\<lambda>r.
       case r of
         None \<Rightarrow> Ok None
       | Some w \<Rightarrow>
           if sint w < 0 \<or> sint w \<ge> int NOFILE then Ok None
           else
             bindR (myproc k) (\<lambda>p.
               case p_ofile (proc_at k p) ! nat (sint w) of
                 None \<Rightarrow> Ok None | Some f \<Rightarrow> Ok (Some (nat (sint w), f))))"

definition set_fd :: "kernel \<Rightarrow> nat \<Rightarrow> nat \<Rightarrow> nat option \<Rightarrow> kernel" where
  "set_fd k p fd v = upd_proc k p (\<lambda>q. q\<lparr>p_ofile := (p_ofile q)[fd := v]\<rparr>)"

definition fdalloc :: "kernel \<Rightarrow> nat \<Rightarrow> (nat option \<times> kernel) res" where
  "fdalloc k f =
     bindR (myproc k) (\<lambda>p.
       case find_index (\<lambda>x. x = None) (p_ofile (proc_at k p)) of
         Some fd \<Rightarrow> Ok (Some fd, set_fd k p fd (Some f))
       | None \<Rightarrow> Ok (None, k))"

definition sys_dup :: "kernel \<Rightarrow> (int \<times> kernel) res" where
  "sys_dup k =
     bindR (argfd k 0) (\<lambda>r.
       case r of
         None \<Rightarrow> Ok (-1, k)
       | Some (_, f) \<Rightarrow>
           bindR (fdalloc k f) (\<lambda>(fd, k).
             case fd of
               None \<Rightarrow> Ok (-1, k)
             | Some fd \<Rightarrow> bindR (filedup k f) (\<lambda>(_, k). Ok (int fd, k))))"

text \<open>The three arguments of \<open>read\<close> and \<open>write\<close>: file, address and count.\<close>

definition arg_rw :: "kernel \<Rightarrow> (nat \<times> u32 \<times> u32) option res" where
  "arg_rw k =
     bindR (argfd k 0) (\<lambda>r.
       case r of
         None \<Rightarrow> Ok None
       | Some (_, f) \<Rightarrow>
           bindR (argint k 2) (\<lambda>r.
             case r of
               None \<Rightarrow> Ok None
             | Some n \<Rightarrow>
                 bindR (argptr k 1 n) (\<lambda>r. case r of None \<Rightarrow> Ok None | Some p \<Rightarrow> Ok (Some (f, p, n)))))"

definition sys_read :: "kernel \<Rightarrow> (int \<times> kernel) res" where
  "sys_read k =
     bindR (arg_rw k) (\<lambda>r.
       case r of
         None \<Rightarrow> Ok (-1, k)
       | Some (f, p, n) \<Rightarrow>
           bindR (fileread k f (sint n)) (\<lambda>(r, bs, k). bindR (ustores bs k p) (\<lambda>k. Ok (r, k))))"

definition sys_write :: "kernel \<Rightarrow> (int \<times> kernel) res" where
  "sys_write k =
     bindR (arg_rw k) (\<lambda>r.
       case r of
         None \<Rightarrow> Ok (-1, k)
       | Some (f, p, n) \<Rightarrow> bindR (uloads k p (nat (sint n))) (\<lambda>bs. filewrite k f bs (sint n)))"

definition sys_close :: "kernel \<Rightarrow> (int \<times> kernel) res" where
  "sys_close k =
     bindR (argfd k 0) (\<lambda>r.
       case r of
         None \<Rightarrow> Ok (-1, k)
       | Some (fd, f) \<Rightarrow>
           bindR (myproc k) (\<lambda>p. bindR (fileclose (set_fd k p fd None) f) (\<lambda>k. Ok (0, k))))"

text \<open>The fields of \<open>struct stat\<close> are stored one by one; the padding keeps its contents.\<close>

definition STAT_SIZE :: u32 where "STAT_SIZE = 20"

definition put_stat :: "kernel \<Rightarrow> u32 \<Rightarrow> stat \<Rightarrow> kernel res" where
  "put_stat k p st =
     bindR (ustores (enc32 (st_dev st)) k (p + 4)) (\<lambda>k.
       bindR (ustores (enc32 (st_ino st)) k (p + 8)) (\<lambda>k.
         bindR (ustores (enc16 (st_type st)) k p) (\<lambda>k.
           bindR (ustores (enc16 (st_nlink st)) k (p + 12)) (\<lambda>k.
             ustores (enc32 (st_size st)) k (p + 16)))))"

definition sys_fstat :: "kernel \<Rightarrow> (int \<times> kernel) res" where
  "sys_fstat k =
     bindR (argfd k 0) (\<lambda>r.
       case r of
         None \<Rightarrow> Ok (-1, k)
       | Some (_, f) \<Rightarrow>
           bindR (argptr k 1 STAT_SIZE) (\<lambda>r.
             case r of
               None \<Rightarrow> Ok (-1, k)
             | Some p \<Rightarrow>
                 bindR (filestat k f) (\<lambda>(r, st, k).
                   case st of None \<Rightarrow> Ok (r, k) | Some st \<Rightarrow> bindR (put_stat k p st) (\<lambda>k. Ok (r, k)))))"

subsection \<open>Links\<close>

definition end_with :: "kernel \<Rightarrow> int \<Rightarrow> (int \<times> kernel) res" where
  "end_with k r = bindR (end_op k) (\<lambda>k. Ok (r, k))"

definition add_nlink :: "kernel \<Rightarrow> nat \<Rightarrow> u16 \<Rightarrow> kernel" where
  "add_nlink k ip d = upd_inode k ip (\<lambda>x. x\<lparr>i_nlink := i_nlink x + d\<rparr>)"

text \<open>The statements after the label \<open>bad\<close> of \<open>sys_link\<close>.\<close>

definition link_bad :: "kernel \<Rightarrow> nat \<Rightarrow> (int \<times> kernel) res" where
  "link_bad k ip =
     bindR (ilock k (Some ip)) (\<lambda>k.
       bindR (iupdate (add_nlink k ip (-1)) ip) (\<lambda>k.
         bindR (iunlockput k ip) (\<lambda>k. end_with k (-1))))"

definition sys_link :: "kernel \<Rightarrow> (int \<times> kernel) res" where
  "sys_link k =
     bindR (argstr k 0) (\<lambda>old. case old of None \<Rightarrow> Ok (-1, k) | Some (_, old) \<Rightarrow>
     bindR (argstr k 1) (\<lambda>new. case new of None \<Rightarrow> Ok (-1, k) | Some (_, new) \<Rightarrow>
     bindR (begin_op k) (\<lambda>k.
     bindR (namei k old) (\<lambda>(r, k). case r of None \<Rightarrow> end_with k (-1) | Some ip \<Rightarrow>
     bindR (ilock k (Some ip)) (\<lambda>k.
       if i_type (inode_at k ip) = T_DIR then bindR (iunlockput k ip) (\<lambda>k. end_with k (-1))
       else
     bindR (iupdate (add_nlink k ip 1) ip) (\<lambda>k.
     bindR (iunlock k (Some ip)) (\<lambda>k.
     bindR (nameiparent k new (replicate DIRSIZ 0)) (\<lambda>(r, k). case r of None \<Rightarrow> link_bad k ip | Some (dp, name) \<Rightarrow>
     bindR (ilock k (Some dp)) (\<lambda>k.
     bindR (if i_dev (inode_at k dp) \<noteq> i_dev (inode_at k ip) then Ok (-1, k)
            else dirlink k dp name (i_inum (inode_at k ip))) (\<lambda>(r, k).
       if r < 0 then bindR (iunlockput k dp) (\<lambda>k. link_bad k ip)
       else bindR (iunlockput k dp) (\<lambda>k. bindR (iput k ip) (\<lambda>k. end_with k 0))))))))))))"

text \<open>\<open>isdirempty\<close> from offset \<open>off\<close> on.\<close>

primrec isdirempty_from :: "nat \<Rightarrow> kernel \<Rightarrow> nat \<Rightarrow> u32 \<Rightarrow> (bool \<times> kernel) res" where
  "isdirempty_from 0 k dp off = Fault ''isdirempty''"
| "isdirempty_from (Suc n) k dp off =
     (if \<not> off < i_size (inode_at k dp) then Ok (True, k)
      else
        bindR (readi k dp off (of_nat DIRENT_SIZE)) (\<lambda>(r, de, k).
          if r \<noteq> int DIRENT_SIZE then Panic ''isdirempty: readi''
          else if de_inum de \<noteq> 0 then Ok (False, k)
          else isdirempty_from n k dp (off + of_nat DIRENT_SIZE)))"

definition isdirempty :: "kernel \<Rightarrow> nat \<Rightarrow> (bool \<times> kernel) res" where
  "isdirempty k dp = isdirempty_from (dir_fuel k dp) k dp (2 * of_nat DIRENT_SIZE)"

definition unlink_bad :: "kernel \<Rightarrow> nat \<Rightarrow> (int \<times> kernel) res" where
  "unlink_bad k dp = bindR (iunlockput k dp) (\<lambda>k. end_with k (-1))"

definition kunlink :: "kernel \<Rightarrow> u8 list \<Rightarrow> (int \<times> kernel) res" where
  "kunlink k path =
     bindR (begin_op k) (\<lambda>k.
     bindR (nameiparent k path (replicate DIRSIZ 0)) (\<lambda>(r, k). case r of None \<Rightarrow> end_with k (-1) | Some (dp, name) \<Rightarrow>
     bindR (ilock k (Some dp)) (\<lambda>k.
     bindR (namecmp name (bytes ''.'' @ [0])) (\<lambda>c1.
     bindR (if c1 = 0 then Ok 0 else namecmp name (bytes ''..'' @ [0])) (\<lambda>c2.
       if c1 = 0 \<or> c2 = 0 then unlink_bad k dp
       else
     bindR (dirlookup k dp name) (\<lambda>(r, k). case r of None \<Rightarrow> unlink_bad k dp | Some (ip, off) \<Rightarrow>
     bindR (ilock k (Some ip)) (\<lambda>k.
       if sint (i_nlink (inode_at k ip)) < 1 then Panic ''unlink: nlink < 1''
       else
     bindR (if i_type (inode_at k ip) = T_DIR then isdirempty k ip else Ok (True, k)) (\<lambda>(e, k).
       if i_type (inode_at k ip) = T_DIR \<and> \<not> e then bindR (iunlockput k ip) (\<lambda>k. unlink_bad k dp)
       else
     bindR (writei k dp (replicate DIRENT_SIZE 0) off) (\<lambda>(r, k).
       if r \<noteq> int DIRENT_SIZE then Panic ''unlink: writei''
       else
     bindR (if i_type (inode_at k ip) = T_DIR then iupdate (add_nlink k dp (-1)) dp else Ok k) (\<lambda>k.
     bindR (iunlockput k dp) (\<lambda>k.
     bindR (iupdate (add_nlink k ip (-1)) ip) (\<lambda>k.
     bindR (iunlockput k ip) (\<lambda>k. end_with k 0)))))))))))))"

text \<open>After fetching its argument, \<open>sys_unlink\<close> consists of the same statements as \<open>kunlink\<close>.\<close>

definition sys_unlink :: "kernel \<Rightarrow> (int \<times> kernel) res" where
  "sys_unlink k = bindR (argstr k 0) (\<lambda>r. case r of None \<Rightarrow> Ok (-1, k) | Some (_, path) \<Rightarrow> kunlink k path)"

subsection \<open>Creating and opening\<close>

definition create :: "kernel \<Rightarrow> u8 list \<Rightarrow> u16 \<Rightarrow> u16 \<Rightarrow> u16 \<Rightarrow> (nat option \<times> kernel) res" where
  "create k path type major minor =
     bindR (nameiparent k path (replicate DIRSIZ 0)) (\<lambda>(r, k). case r of None \<Rightarrow> Ok (None, k) | Some (dp, name) \<Rightarrow>
     bindR (ilock k (Some dp)) (\<lambda>k.
     bindR (dirlookup k dp name) (\<lambda>(r, k).
       case r of
         Some (ip, _) \<Rightarrow>
           bindR (iunlockput k dp) (\<lambda>k.
           bindR (ilock k (Some ip)) (\<lambda>k.
             if type = T_FILE \<and> i_type (inode_at k ip) = T_FILE then Ok (Some ip, k)
             else bindR (iunlockput k ip) (\<lambda>k. Ok (None, k))))
       | None \<Rightarrow>
           bindR (ialloc k (i_dev (inode_at k dp)) type) (\<lambda>(ip, k).
           bindR (ilock k (Some ip)) (\<lambda>k.
           bindR (iupdate (upd_inode k ip (\<lambda>x. x\<lparr>i_major := major, i_minor := minor, i_nlink := 1\<rparr>)) ip) (\<lambda>k.
           bindR (if type = T_DIR then
                    bindR (iupdate (add_nlink k dp 1) dp) (\<lambda>k.
                    bindR (dirlink k ip (bytes ''.'' @ [0]) (i_inum (inode_at k ip))) (\<lambda>(r, k).
                      if r < 0 then Panic ''create dots''
                      else
                    bindR (dirlink k ip (bytes ''..'' @ [0]) (i_inum (inode_at k dp))) (\<lambda>(r, k).
                      if r < 0 then Panic ''create dots'' else Ok k)))
                  else Ok k) (\<lambda>k.
           bindR (dirlink k dp name (i_inum (inode_at k ip))) (\<lambda>(r, k).
             if r < 0 then Panic ''create: dirlink''
             else bindR (iunlockput k dp) (\<lambda>k. Ok (Some ip, k))))))))))"

text \<open>The part of \<open>sys_open\<close> that finds or creates the inode; \<open>None\<close> means that the call has failed.\<close>

definition open_inode :: "kernel \<Rightarrow> u8 list \<Rightarrow> u32 \<Rightarrow> (nat option \<times> kernel) res" where
  "open_inode k path omode =
     (if omode AND O_CREATE \<noteq> 0 then create k path T_FILE 0 0
      else
        bindR (namei k path) (\<lambda>(r, k).
          case r of
            None \<Rightarrow> Ok (None, k)
          | Some ip \<Rightarrow>
              bindR (ilock k (Some ip)) (\<lambda>k.
                if i_type (inode_at k ip) = T_DIR \<and> omode \<noteq> O_RDONLY then bindR (iunlockput k ip) (\<lambda>k. Ok (None, k))
                else Ok (Some ip, k))))"

definition of_bool8 :: "bool \<Rightarrow> u8" where
  "of_bool8 b = (if b then 1 else 0)"

definition sys_open :: "kernel \<Rightarrow> (int \<times> kernel) res" where
  "sys_open k =
     bindR (argstr k 0) (\<lambda>r. case r of None \<Rightarrow> Ok (-1, k) | Some (_, path) \<Rightarrow>
     bindR (argint k 1) (\<lambda>r. case r of None \<Rightarrow> Ok (-1, k) | Some omode \<Rightarrow>
     bindR (begin_op k) (\<lambda>k.
     bindR (open_inode k path omode) (\<lambda>(r, k). case r of None \<Rightarrow> end_with k (-1) | Some ip \<Rightarrow>
       let (f, k) = filealloc k
       in case f of
            None \<Rightarrow> bindR (iunlockput k ip) (\<lambda>k. end_with k (-1))
          | Some f \<Rightarrow>
     bindR (fdalloc k f) (\<lambda>(fd, k).
       case fd of
         None \<Rightarrow> bindR (fileclose k f) (\<lambda>k. bindR (iunlockput k ip) (\<lambda>k. end_with k (-1)))
       | Some fd \<Rightarrow>
           bindR (iunlock k (Some ip)) (\<lambda>k.
           bindR (end_op k) (\<lambda>k.
             Ok (int fd, upd_file k f (\<lambda>x. x\<lparr>f_type := FD_INODE, f_ip := Some ip, f_off := 0,
               f_readable := of_bool8 (omode AND O_WRONLY = 0),
               f_writable := of_bool8 (omode AND O_WRONLY \<noteq> 0 \<or> omode AND O_RDWR \<noteq> 0)\<rparr>)))))))))"

definition sys_mkdir :: "kernel \<Rightarrow> (int \<times> kernel) res" where
  "sys_mkdir k =
     bindR (begin_op k) (\<lambda>k.
     bindR (argstr k 0) (\<lambda>r. case r of None \<Rightarrow> end_with k (-1) | Some (_, path) \<Rightarrow>
     bindR (create k path T_DIR 0 0) (\<lambda>(r, k). case r of None \<Rightarrow> end_with k (-1) | Some ip \<Rightarrow>
     bindR (iunlockput k ip) (\<lambda>k. end_with k 0))))"

definition sys_mknod :: "kernel \<Rightarrow> (int \<times> kernel) res" where
  "sys_mknod k =
     bindR (begin_op k) (\<lambda>k.
     bindR (argstr k 0) (\<lambda>r. case r of None \<Rightarrow> end_with k (-1) | Some (_, path) \<Rightarrow>
     bindR (argint k 1) (\<lambda>r. case r of None \<Rightarrow> end_with k (-1) | Some major \<Rightarrow>
     bindR (argint k 2) (\<lambda>r. case r of None \<Rightarrow> end_with k (-1) | Some minor \<Rightarrow>
     bindR (create k path T_DEV (ucast major) (ucast minor)) (\<lambda>(r, k). case r of None \<Rightarrow> end_with k (-1) | Some ip \<Rightarrow>
     bindR (iunlockput k ip) (\<lambda>k. end_with k 0))))))"

definition sys_chdir :: "kernel \<Rightarrow> (int \<times> kernel) res" where
  "sys_chdir k =
     bindR (myproc k) (\<lambda>p.
     bindR (begin_op k) (\<lambda>k.
     bindR (argstr k 0) (\<lambda>r. case r of None \<Rightarrow> end_with k (-1) | Some (_, path) \<Rightarrow>
     bindR (namei k path) (\<lambda>(r, k). case r of None \<Rightarrow> end_with k (-1) | Some ip \<Rightarrow>
     bindR (ilock k (Some ip)) (\<lambda>k.
       if i_type (inode_at k ip) \<noteq> T_DIR then bindR (iunlockput k ip) (\<lambda>k. end_with k (-1))
       else
     bindR (iunlock k (Some ip)) (\<lambda>k.
     bindR (deref ''sys_chdir: cwd'' (p_cwd (proc_at k p))) (\<lambda>cwd.
     bindR (iput k cwd) (\<lambda>k.
     bindR (end_op k) (\<lambda>k. Ok (0, upd_proc k p (\<lambda>q. q\<lparr>p_cwd := Some ip\<rparr>)))))))))))"

definition sys_pipe :: "kernel \<Rightarrow> (int \<times> kernel) res" where
  "sys_pipe k =
     bindR (argptr k 0 8) (\<lambda>r. case r of None \<Rightarrow> Ok (-1, k) | Some fd \<Rightarrow>
     bindR (pipealloc k) (\<lambda>(r, k). case r of None \<Rightarrow> Ok (-1, k) | Some (rfile, wfile) \<Rightarrow>
     bindR (fdalloc k rfile) (\<lambda>(fd0, k).
       case fd0 of
         None \<Rightarrow> bindR (fileclose k rfile) (\<lambda>k. bindR (fileclose k wfile) (\<lambda>k. Ok (-1, k)))
       | Some fd0 \<Rightarrow>
     bindR (fdalloc k wfile) (\<lambda>(fd1, k).
       case fd1 of
         None \<Rightarrow>
           bindR (myproc k) (\<lambda>p.
           bindR (fileclose (set_fd k p fd0 None) rfile) (\<lambda>k. bindR (fileclose k wfile) (\<lambda>k. Ok (-1, k))))
       | Some fd1 \<Rightarrow>
           bindR (ustores (enc32 (of_nat fd0)) k fd) (\<lambda>k.
           bindR (ustores (enc32 (of_nat fd1)) k (fd + 4)) (\<lambda>k. Ok (0, k)))))))"

subsection \<open>Swap files\<close>

text \<open>The name of swap file \<open>i\<close> of a process, as the code writes it into a 20-byte array.\<close>

definition swap_path :: "int \<Rightarrow> int \<Rightarrow> u8 list res" where
  "swap_path i pid =
     bindR (itoa i (replicate 13 0)) (\<lambda>t.
       bindR (itoa pid (drop 1 t)) (\<lambda>u. Ok (bytes ''./.swap'' @ take 1 t @ u)))"

definition set_swap_file :: "kernel \<Rightarrow> nat \<Rightarrow> nat \<Rightarrow> nat option \<Rightarrow> kernel" where
  "set_swap_file k p i f = upd_proc k p (\<lambda>q. q\<lparr>FilesForSwap := (FilesForSwap q)[i := f]\<rparr>)"

primrec init_swap_from :: "nat \<Rightarrow> kernel \<Rightarrow> nat \<Rightarrow> nat \<Rightarrow> kernel res" where
  "init_swap_from 0 k p i = Ok k"
| "init_swap_from (Suc n) k p i =
     bindR (swap_path (int i) (p_pid (proc_at k p))) (\<lambda>path.
     bindR (begin_op k) (\<lambda>k.
     bindR (create k path T_FILE 0 0) (\<lambda>(ino, k).
     bindR (iunlock k ino) (\<lambda>k.
       let (f, k) = filealloc k; k = set_swap_file k p i f
       in case f of
            None \<Rightarrow> Panic ''[ERROR] Alloc File for Swapping Fail!''
          | Some f \<Rightarrow>
              bindR (end_op (upd_file k f (\<lambda>x. x\<lparr>f_ip := ino, f_type := FD_INODE, f_off := 0,
                       f_readable := ucast O_WRONLY, f_writable := ucast O_RDWR\<rparr>))) (\<lambda>k.
                init_swap_from n k p (Suc i))))))"

definition InitializeSwapFiles :: "kernel \<Rightarrow> nat \<Rightarrow> (int \<times> kernel) res" where
  "InitializeSwapFiles k p = bindR (init_swap_from SWAP_FILE_MAX_NUM k p 0) (\<lambda>k. Ok (0, k))"

primrec clear_swap_from :: "nat \<Rightarrow> kernel \<Rightarrow> nat \<Rightarrow> nat \<Rightarrow> (int \<times> kernel) res" where
  "clear_swap_from 0 k p i = Ok (0, k)"
| "clear_swap_from (Suc n) k p i =
     bindR (swap_path (int i) (p_pid (proc_at k p))) (\<lambda>path.
       case FilesForSwap (proc_at k p) ! i of
         None \<Rightarrow> Ok (-1, k)
       | Some f \<Rightarrow>
     bindR (fileclose k f) (\<lambda>k.
     bindR (kunlink k path) (\<lambda>(r, k). if r = -1 then Ok (-1, k) else clear_swap_from n k p (Suc i))))"

definition ClearSwapFiles :: "kernel \<Rightarrow> nat \<Rightarrow> (int \<times> kernel) res" where
  "ClearSwapFiles k p = clear_swap_from SWAP_FILE_MAX_NUM k p 0"

text \<open>
  The file for an offset of the swap area, positioned there. \<open>FilesForSwap\<close> has six elements, so index 6, which the test
  lets through, is outside the array.
\<close>

definition swap_file_at :: "kernel \<Rightarrow> nat \<Rightarrow> u32 \<Rightarrow> string \<Rightarrow> (nat \<times> kernel) res" where
  "swap_file_at k p FileOffsetTotal msg =
     (let FileNumber = sint (FileOffsetTotal div SWAP_FILE_SIZE)
      in if FileNumber < 0 \<or> FileNumber > int SWAP_FILE_MAX_NUM then Panic msg
         else
           bindR (idx ''FilesForSwap'' (FilesForSwap (proc_at k p)) (nat FileNumber)) (\<lambda>f.
             bindR (deref ''FilesForSwap'' f) (\<lambda>f.
               Ok (f, upd_file k f (\<lambda>x. x\<lparr>f_off := FileOffsetTotal mod SWAP_FILE_SIZE\<rparr>)))))"

definition ReadSwapFile :: "kernel \<Rightarrow> nat \<Rightarrow> u32 \<Rightarrow> u32 \<Rightarrow> (int \<times> u8 list \<times> kernel) res" where
  "ReadSwapFile k p FileOffsetTotal ReadSize =
     bindR (swap_file_at k p FileOffsetTotal ''[ERROR] Illegal file read offset!'') (\<lambda>(f, k). fileread k f (sint ReadSize))"

definition WriteSwapFile :: "kernel \<Rightarrow> nat \<Rightarrow> u8 list \<Rightarrow> u32 \<Rightarrow> u32 \<Rightarrow> (int \<times> kernel) res" where
  "WriteSwapFile k p TheBuffer FileOffsetTotal ReadSize =
     bindR (swap_file_at k p FileOffsetTotal ''[ERROR] Illegal file write offset!'') (\<lambda>(f, k).
       filewrite k f TheBuffer (sint ReadSize))"

end
