(* ===== verification/SharedMemory.thy ===== *)
theory SharedMemory
  imports VirtualMemory
begin

text \<open>
  Shared memory (\<open>SharedMemory.c\<close>): a global table of pages named by a signature, each with the number of
  processes that use it, and in every process the signatures it has attached.

  \<open>shm_inv\<close> says that the table and the processes agree: every attached signature is in the table, no
  signature is there twice, \<open>UserNumber\<close> is the number of processes that have
  it attached, and a free slot of the table has no page.
\<close>

text \<open>Position of the last element that satisfies a test: a loop that remembers the last hit.\<close>

definition find_last :: "('a \<Rightarrow> bool) \<Rightarrow> 'a list \<Rightarrow> nat option" where
  "find_last P xs = map_option (\<lambda>i. length xs - Suc i) (find_index P (rev xs))"

definition GetGlobalSharedMemoryInfo :: "kernel \<Rightarrow> int" where
  "GetGlobalSharedMemoryInfo k = int (length (filter (\<lambda>e. Signature e > 0) (shm k)))"

definition GetProcessSharedMemoryInfo :: "kernel \<Rightarrow> nat \<Rightarrow> int" where
  "GetProcessSharedMemoryInfo k p = int (length (filter (\<lambda>s. s > 0) (SelfSharedMemory (proc_at k p))))"

definition FindSelfSharedMemory :: "kernel \<Rightarrow> nat \<Rightarrow> int \<Rightarrow> nat option" where
  "FindSelfSharedMemory k p TheSignature = find_index (\<lambda>s. s = TheSignature) (SelfSharedMemory (proc_at k p))"

definition FindGlobalSharedMemory :: "kernel \<Rightarrow> int \<Rightarrow> nat option" where
  "FindGlobalSharedMemory k TheSignature = find_index (\<lambda>e. Signature e = TheSignature) (shm k)"

definition InitGlobalSharedMemory :: "kernel \<Rightarrow> kernel" where
  "InitGlobalSharedMemory k = k\<lparr>shm := replicate SHARED_MEMORY_GLOBAL \<lparr>sm_va = 0, Signature = 0, UserNumber = 0\<rparr>\<rparr>"

definition upd_shm :: "kernel \<Rightarrow> nat \<Rightarrow> (SharedMemoryEntry \<Rightarrow> SharedMemoryEntry) \<Rightarrow> kernel" where
  "upd_shm k i f = k\<lparr>shm := (shm k)[i := f (shm k ! i)]\<rparr>"

definition attach :: "kernel \<Rightarrow> nat \<Rightarrow> nat \<Rightarrow> int \<Rightarrow> kernel" where
  "attach k p i s = upd_proc k p (\<lambda>q. q\<lparr>SelfSharedMemory := (SelfSharedMemory q)[i := s]\<rparr>)"

definition AllocSharedMemory :: "kernel \<Rightarrow> int \<Rightarrow> (int \<times> kernel) res" where
  "AllocSharedMemory k TheSignature =
     bindR (myproc k) (\<lambda>p.
       case FindSelfSharedMemory k p TheSignature of
         Some _ \<Rightarrow> Ok (-1, k)
       | None \<Rightarrow>
           (case find_last (\<lambda>s. s = 0) (SelfSharedMemory (proc_at k p)) of
              None \<Rightarrow> Ok (-1, k)
            | Some SelfEmptyPlace \<Rightarrow>
                (case FindGlobalSharedMemory k TheSignature of
                   Some i \<Rightarrow>
                     (let k = attach k p SelfEmptyPlace TheSignature
                      in Ok (0, upd_shm k i (\<lambda>e. e\<lparr>UserNumber := UserNumber e + 1\<rparr>)))
                 | None \<Rightarrow>
                     (case find_last (\<lambda>e. Signature e = 0) (shm k) of
                        Some GlobalEmptyPlace \<Rightarrow>
                          (let (va, m) = kalloc (km k);
                               k = k\<lparr>km := m\<rparr>;
                               k = upd_shm k GlobalEmptyPlace (\<lambda>e. e\<lparr>sm_va := va,
                                     Signature := TheSignature, UserNumber := 1\<rparr>)
                           in Ok (0, attach k p SelfEmptyPlace TheSignature))
                      | None \<Rightarrow> Ok (-1, k)))))"

definition DeallocSharedMemory :: "kernel \<Rightarrow> int \<Rightarrow> (int \<times> kernel) res" where
  "DeallocSharedMemory k TheSignature =
     bindR (myproc k) (\<lambda>p.
       case FindSelfSharedMemory k p TheSignature of
         None \<Rightarrow> Ok (-1, k)
       | Some SelfPlace \<Rightarrow>
           (case FindGlobalSharedMemory k TheSignature of
              Some GlobalPlace \<Rightarrow>
                (let k = upd_shm k GlobalPlace (\<lambda>e. e\<lparr>UserNumber := UserNumber e - 1\<rparr>);
                     k = attach k p SelfPlace 0
                 in if UserNumber (shm k ! GlobalPlace) \<le> 0 then
                      bindR (kfree (km k) (sm_va (shm k ! GlobalPlace))) (\<lambda>m.
                        Ok (0, upd_shm (k\<lparr>km := m\<rparr>) GlobalPlace (\<lambda>e. e\<lparr>sm_va := -1, Signature := 0\<rparr>)))
                    else Ok (0, k))
            | None \<Rightarrow> Ok (-1, k)))"

text \<open>The bytes of the page at a kernel address, and writing a block into it.\<close>

definition page_bytes :: "kernel \<Rightarrow> u32 \<Rightarrow> u8 list" where
  "page_bytes k v = get_bytes (pmem (km k) (V2P v)) 0 4096"

text \<open>\<open>ReadSharedMemory\<close> returns its result and the bytes it copies to the buffer.\<close>

definition ReadSharedMemory :: "kernel \<Rightarrow> int \<Rightarrow> (int \<times> u8 list) res" where
  "ReadSharedMemory k TheSignature =
     bindR (myproc k) (\<lambda>p.
       case FindSelfSharedMemory k p TheSignature of
         None \<Rightarrow> Ok (-1, [])
       | Some _ \<Rightarrow>
           (case FindGlobalSharedMemory k TheSignature of
              Some i \<Rightarrow>
                if sm_va (shm k ! i) = 0 then Fault ''ReadSharedMemory: VirtualAddress''
                else Ok (0, page_bytes k (sm_va (shm k ! i)))
            | None \<Rightarrow> Ok (-1, [])))"

text \<open>\<open>TheBuffer\<close> is the memory from the user's pointer on; \<open>strncpy\<close> runs past the page if the text is too long.\<close>

definition WriteSharedMemory :: "kernel \<Rightarrow> int \<Rightarrow> u8 list \<Rightarrow> (int \<times> kernel) res" where
  "WriteSharedMemory k TheSignature TheBuffer =
     bindR (myproc k) (\<lambda>p.
       case FindSelfSharedMemory k p TheSignature of
         None \<Rightarrow> Ok (-1, k)
       | Some _ \<Rightarrow>
           (case FindGlobalSharedMemory k TheSignature of
              Some i \<Rightarrow>
                bindR (strlen TheBuffer) (\<lambda>Length.
                  let va = sm_va (shm k ! i)
                  in if va = 0 then Fault ''WriteSharedMemory: VirtualAddress''
                     else bindR (strncpy (page_bytes k va) TheBuffer (Length + 1)) (\<lambda>bs.
                       Ok (0, k\<lparr>km := write_page (km k) va 0 bs\<rparr>)))
            | None \<Rightarrow> Ok (-1, k)))"

subsection \<open>Finding places\<close>

lemma find_last_Some:
  assumes "find_last P xs = Some i"
  shows "i < length xs" and "P (xs ! i)"
proof -
  obtain j where j: "find_index P (rev xs) = Some j" "i = length xs - Suc j"
    using assms by (auto simp: find_last_def)
  have "j < length xs" "P (rev xs ! j)" using find_index_Some [OF j(1)] by auto
  then show "i < length xs" "P (xs ! i)" using j(2) by (auto simp: rev_nth)
qed

lemma find_last_None: "find_last P xs = None \<longleftrightarrow> (\<forall>x \<in> set xs. \<not> P x)"
  by (simp add: find_last_def find_index_None)

lemma shm_simps [simp]:
  "shm (upd_shm k i f) = (shm k)[i := f (shm k ! i)]" "ptable (upd_shm k i f) = ptable k"
  "km (upd_shm k i f) = km k" "curproc (upd_shm k i f) = curproc k"
  "shm (attach k p j s) = shm k" "km (attach k p j s) = km k" "curproc (attach k p j s) = curproc k"
  "ptable (attach k p j s) = (ptable k)[p := (ptable k ! p)\<lparr>SelfSharedMemory := (SelfSharedMemory (ptable k ! p))[j := s]\<rparr>]"
  by (simp_all add: upd_shm_def attach_def upd_proc_def)

subsection \<open>The invariant\<close>

definition attached :: "int \<Rightarrow> proc \<Rightarrow> bool" where
  "attached s q \<longleftrightarrow> s \<in> set (SelfSharedMemory q)"

definition users :: "kernel \<Rightarrow> int \<Rightarrow> nat" where
  "users k s = length (filter (attached s) (ptable k))"

definition once :: "int list \<Rightarrow> bool" where
  "once ss \<longleftrightarrow> (\<forall>i < length ss. \<forall>j < length ss. ss ! i = ss ! j \<and> ss ! i \<noteq> 0 \<longrightarrow> i = j)"

definition shm_inv :: "kernel \<Rightarrow> bool" where
  "shm_inv k \<longleftrightarrow>
     once (map Signature (shm k)) \<and> (\<forall>q \<in> set (ptable k). once (SelfSharedMemory q)) \<and>
     (\<forall>q \<in> set (ptable k). \<forall>s \<in> set (SelfSharedMemory q). s \<noteq> 0 \<longrightarrow> s \<in> Signature ` set (shm k)) \<and>
     (\<forall>e \<in> set (shm k). Signature e \<noteq> 0 \<longrightarrow> UserNumber e = int (users k (Signature e)) \<and> 0 < UserNumber e) \<and>
     (\<forall>e \<in> set (shm k). Signature e = 0 \<longrightarrow> UserNumber e \<le> 0 \<and> (sm_va e = 0 \<or> sm_va e = -1))"

lemma once_update:
  assumes "once ss" and "i < length ss" and "s \<noteq> 0 \<longrightarrow> s \<notin> set ss"
  shows "once (ss[i := s])"
  using assms unfolding once_def by (auto simp: nth_list_update in_set_conv_nth)

lemma once_found:
  "once (map Signature xs) \<Longrightarrow> i < length xs \<Longrightarrow> j < length xs \<Longrightarrow> Signature (xs ! i) = Signature (xs ! j) \<Longrightarrow>
   Signature (xs ! i) \<noteq> 0 \<Longrightarrow> i = j"
  by (simp add: once_def)

text \<open>How filling a free slot, and freeing a slot, change what a process has attached and who uses a signature.\<close>

lemma set_update_free:
  assumes "i < length ss" and "ss ! i = 0" and "t \<noteq> 0"
  shows "t \<in> set (ss[i := s]) \<longleftrightarrow> t = s \<or> t \<in> set (ss :: int list)"
proof
  assume "t \<in> set (ss[i := s])"
  then show "t = s \<or> t \<in> set ss" using set_update_subset_insert [of ss i s] by auto
next
  assume "t = s \<or> t \<in> set ss"
  then show "t \<in> set (ss[i := s])"
  proof
    assume "t = s"
    then show ?thesis using assms(1) by (simp add: set_update_memI)
  next
    assume "t \<in> set ss"
    then obtain j where "j < length ss" "ss ! j = t" by (auto simp: in_set_conv_nth)
    then have "j < length (ss[i := s])" "(ss[i := s]) ! j = t" using assms by (auto simp: nth_list_update)
    then show ?thesis by (metis nth_mem)
  qed
qed

lemma set_update_drop:
  assumes "once ss" and "i < length ss" and "t \<noteq> 0"
  shows "t \<in> set (ss[i := 0]) \<longleftrightarrow> t \<in> set ss \<and> t \<noteq> ss ! i"
proof
  assume "t \<in> set (ss[i := 0])"
  then obtain j where j: "j < length ss" "ss[i := 0] ! j = t" by (auto simp: in_set_conv_nth)
  then have "j \<noteq> i" "ss ! j = t" using assms by (auto simp: nth_list_update split: if_splits)
  then show "t \<in> set ss \<and> t \<noteq> ss ! i" using assms j(1) by (auto simp: once_def)
next
  assume "t \<in> set ss \<and> t \<noteq> ss ! i"
  then obtain j where "j < length ss" "ss ! j = t" "t \<noteq> ss ! i" by (auto simp: in_set_conv_nth)
  moreover from this have "j \<noteq> i" by auto
  ultimately have "j < length (ss[i := 0])" "ss[i := 0] ! j = t" by simp_all
  then show "t \<in> set (ss[i := 0])" by (metis nth_mem)
qed

lemma users_attach:
  assumes "p < length (ptable k)" and "i < length (SelfSharedMemory (ptable k ! p))"
    and "SelfSharedMemory (ptable k ! p) ! i = 0" and "s \<notin> set (SelfSharedMemory (ptable k ! p))" and "t \<noteq> 0"
  shows "users (attach k p i s) t = users k t + (if t = s then 1 else 0)"
proof -
  let ?q = "ptable k ! p"
  let ?q' = "?q\<lparr>SelfSharedMemory := (SelfSharedMemory ?q)[i := s]\<rparr>"
  have "length (filter (attached t) ((ptable k)[p := ?q'])) + (if attached t ?q then 1 else 0)
      = length (filter (attached t) (ptable k)) + (if attached t ?q' then 1 else 0)"
    by (rule length_filter_list_update [OF assms(1)])
  moreover have "attached t ?q' \<longleftrightarrow> t = s \<or> attached t ?q"
    using set_update_free [OF assms(2,3,5), of s] by (simp add: attached_def)
  moreover have "\<not> attached s ?q" using assms(4) by (simp add: attached_def)
  ultimately show ?thesis by (cases "t = s"; cases "attached t ?q") (simp_all add: users_def)
qed

lemma users_detach:
  assumes "p < length (ptable k)" and "i < length (SelfSharedMemory (ptable k ! p))"
    and "SelfSharedMemory (ptable k ! p) ! i = s" and "once (SelfSharedMemory (ptable k ! p))" and "t \<noteq> 0"
  shows "users k t = users (attach k p i 0) t + (if t = s then 1 else 0)"
proof -
  let ?q = "ptable k ! p"
  let ?q' = "?q\<lparr>SelfSharedMemory := (SelfSharedMemory ?q)[i := 0]\<rparr>"
  have "length (filter (attached t) ((ptable k)[p := ?q'])) + (if attached t ?q then 1 else 0)
      = length (filter (attached t) (ptable k)) + (if attached t ?q' then 1 else 0)"
    by (rule length_filter_list_update [OF assms(1)])
  moreover have "attached s ?q" using assms(2,3) by (auto simp: attached_def)
  moreover have "attached t ?q' \<longleftrightarrow> attached t ?q \<and> t \<noteq> s"
    using set_update_drop [OF assms(4,2,5)] assms(3) by (simp add: attached_def)
  ultimately show ?thesis by (cases "t = s"; cases "attached t ?q") (simp_all add: users_def)
qed

lemma shm_invD:
  assumes "shm_inv k"
  shows "once (map Signature (shm k))" and "q \<in> set (ptable k) \<Longrightarrow> once (SelfSharedMemory q)"
    and "q \<in> set (ptable k) \<Longrightarrow> s \<in> set (SelfSharedMemory q) \<Longrightarrow> s \<noteq> 0 \<Longrightarrow> s \<in> Signature ` set (shm k)"
    and "e \<in> set (shm k) \<Longrightarrow> Signature e \<noteq> 0 \<Longrightarrow> UserNumber e = int (users k (Signature e)) \<and> 0 < UserNumber e"
    and "e \<in> set (shm k) \<Longrightarrow> Signature e = 0 \<Longrightarrow> UserNumber e \<le> 0 \<and> (sm_va e = 0 \<or> sm_va e = -1)"
  using assms unfolding shm_inv_def by blast+

lemma once_unique:
  assumes "once (map Signature xs)" and "g < length xs" and "Signature (xs ! g) \<noteq> 0"
    and "e \<in> set (xs[g := e'])"
  shows "e = e' \<or> (e \<in> set xs \<and> Signature e \<noteq> Signature (xs ! g))"
proof -
  obtain j where j: "j < length xs" "e = xs[g := e'] ! j" using assms(4) by (auto simp: in_set_conv_nth)
  show ?thesis
  proof (cases "j = g")
    case False
    then have "Signature (xs ! j) \<noteq> Signature (xs ! g)" using once_found [OF assms(1) j(1) assms(2)] assms(3) by auto
    then show ?thesis using j False by auto
  qed (use j in auto)
qed

lemma signatures_update:
  assumes "g < length xs" and "t \<in> Signature ` set xs" and "t \<noteq> Signature (xs ! g) \<or> Signature e' = t"
  shows "t \<in> Signature ` set (xs[g := e'])"
proof -
  obtain j where j: "j < length xs" "t = Signature (xs ! j)" using assms(2) by (auto simp: in_set_conv_nth)
  show ?thesis
  proof (cases "j = g")
    case True
    then show ?thesis using assms j by (auto intro!: image_eqI [of _ _ e'] set_update_memI)
  next
    case False
    then have "xs ! j = xs[g := e'] ! j" by simp
    then show ?thesis using j by (metis image_eqI length_list_update nth_mem)
  qed
qed

lemma in_ptable_attach:
  "q \<in> set (ptable (attach k p i s)) \<Longrightarrow> p < length (ptable k) \<Longrightarrow>
   q \<in> set (ptable k) \<or> SelfSharedMemory q = (SelfSharedMemory (ptable k ! p))[i := s]"
  by (auto dest!: set_update_subset_insert [THEN subsetD])

lemma users_ptable: "ptable k = ptable k' \<Longrightarrow> users k s = users k' s"
  by (simp add: users_def)

lemma shm_inv_attach:
  assumes inv: "shm_inv k" and p: "p < length (ptable k)" and i: "i < length (SelfSharedMemory (ptable k ! p))"
    and free: "SelfSharedMemory (ptable k ! p) ! i = 0" and new: "s \<notin> set (SelfSharedMemory (ptable k ! p))"
    and s: "s \<noteq> 0" and g: "g < length (shm k)" and e': "Signature e' = s" "UserNumber e' = int (users k s) + 1"
    and slot: "Signature (shm k ! g) = s \<or> Signature (shm k ! g) = 0 \<and> s \<notin> Signature ` set (shm k)"
    and k': "ptable k' = ptable (attach k p i s)" "shm k' = (shm k)[g := e']"
  shows "shm_inv k'"
proof -
  have u: "users k' t = users k t + (if t = s then 1 else 0)" if "t \<noteq> 0" for t
    using users_attach [OF p i free new that] users_ptable [OF k'(1)] by simp
  have "once (map Signature (shm k'))"
    unfolding k'(2) map_update
  proof (cases "Signature (shm k ! g) = s")
    case True
    then have "(map Signature (shm k))[g := Signature e'] = map Signature (shm k)"
      using g e'(1) by (simp add: list_update_same_conv)
    then show "once ((map Signature (shm k))[g := Signature e'])" using shm_invD(1) [OF inv] by simp
  next
    case False
    then show "once ((map Signature (shm k))[g := Signature e'])"
      using slot g e'(1) by (intro once_update shm_invD(1) [OF inv]) auto
  qed
  moreover have "once (SelfSharedMemory q)" if "q \<in> set (ptable k')" for q
    using in_ptable_attach [OF that [unfolded k'(1)] p] shm_invD(2) [OF inv] once_update [OF _ i, of s] new p
    by (metis nth_mem)
  moreover have "t \<in> Signature ` set (shm k')" if "q \<in> set (ptable k')" "t \<in> set (SelfSharedMemory q)" "t \<noteq> 0" for q t
  proof (cases "t = s")
    case True
    then show ?thesis using e'(1) g k'(2) by (auto intro!: image_eqI [of _ _ e'] set_update_memI)
  next
    case False
    then have "t \<in> Signature ` set (shm k)"
      using in_ptable_attach [OF that(1) [unfolded k'(1)] p] that set_update_free [OF i free that(3), of s] shm_invD(3) [OF inv]
        nth_mem [OF p] by metis
    then show ?thesis unfolding k'(2) using False slot that(3) by (intro signatures_update g) auto
  qed
  moreover have "UserNumber e = int (users k' (Signature e)) \<and> 0 < UserNumber e"
    if "e \<in> set (shm k')" "Signature e \<noteq> 0" for e
  proof (cases "e = e'")
    case True
    then show ?thesis using e' u [OF s] by simp
  next
    case False
    then have e: "e \<in> set (shm k)" using that k'(2) set_update_subset_insert [of "shm k" g e'] by auto
    have "Signature e \<noteq> s"
      using slot once_unique [OF shm_invD(1) [OF inv] g, of e e'] that False e s k'(2) by auto
    then show ?thesis using shm_invD(4) [OF inv e that(2)] u [OF that(2)] by simp
  qed
  moreover have "UserNumber e \<le> 0 \<and> (sm_va e = 0 \<or> sm_va e = -1)" if "e \<in> set (shm k')" "Signature e = 0" for e
    using that e'(1) s k'(2) set_update_subset_insert [of "shm k" g e'] shm_invD(5) [OF inv, of e] by auto
  ultimately show ?thesis unfolding shm_inv_def by blast
qed

lemma shm_inv_detach:
  assumes inv: "shm_inv k" and p: "p < length (ptable k)" and i: "i < length (SelfSharedMemory (ptable k ! p))"
    and s: "SelfSharedMemory (ptable k ! p) ! i = s" "s \<noteq> 0" and g: "g < length (shm k)" "Signature (shm k ! g) = s"
    and e': "Signature e' = s \<and> UserNumber e' = int (users k s) - 1 \<and> 0 < UserNumber e' \<or>
      Signature e' = 0 \<and> users k s = 1 \<and> UserNumber e' \<le> 0 \<and> sm_va e' = -1"
    and k': "ptable k' = ptable (attach k p i 0)" "shm k' = (shm k)[g := e']"
  shows "shm_inv k'"
proof -
  have o: "once (SelfSharedMemory (ptable k ! p))" using shm_invD(2) [OF inv nth_mem [OF p]] .
  have u: "users k t = users k' t + (if t = s then 1 else 0)" if "t \<noteq> 0" for t
    using users_detach [OF p i s(1) o that] users_ptable [OF k'(1)] by simp
  have "once (map Signature (shm k'))"
  proof (cases "Signature e' = s")
    case True
    then have "map Signature (shm k') = map Signature (shm k)"
      using g k'(2) by (simp add: map_update list_update_same_conv)
    then show ?thesis using shm_invD(1) [OF inv] by simp
  next
    case False
    then have "Signature e' = 0" using e' by auto
    then show ?thesis unfolding k'(2) map_update using g by (intro once_update shm_invD(1) [OF inv]) auto
  qed
  moreover have "once (SelfSharedMemory q)" if "q \<in> set (ptable k')" for q
    using in_ptable_attach [OF that [unfolded k'(1)] p] shm_invD(2) [OF inv] once_update [OF o i, of 0] by auto
  moreover have "t \<in> Signature ` set (shm k')" if q: "q \<in> set (ptable k')" "t \<in> set (SelfSharedMemory q)" "t \<noteq> 0" for q t
  proof -
    have t: "t \<in> Signature ` set (shm k)"
      using in_ptable_attach [OF q(1) [unfolded k'(1)] p] q(2) set_update_drop [OF o i q(3)] shm_invD(3) [OF inv _ _ q(3)]
        nth_mem [OF p] by metis
    have "0 < users k' t" using q(1,2) by (auto simp: users_def attached_def length_greater_0_conv filter_empty_conv)
    then have "t \<noteq> s \<or> Signature e' = t" using e' u [OF q(3)] by auto
    then show ?thesis unfolding k'(2) using g by (intro signatures_update [OF _ t]) auto
  qed
  moreover have "UserNumber e = int (users k' (Signature e)) \<and> 0 < UserNumber e"
    if e: "e \<in> set (shm k')" "Signature e \<noteq> 0" for e
  proof (cases "e = e'")
    case True
    then show ?thesis using e' e(2) u [OF s(2)] by auto
  next
    case False
    then have "e \<in> set (shm k)" "Signature e \<noteq> s"
      using once_unique [OF shm_invD(1) [OF inv] g(1), of e e'] e k'(2) s(2) g(2) by auto
    then show ?thesis using shm_invD(4) [OF inv, of e] u [OF e(2)] e(2) by simp
  qed
  moreover have "UserNumber e \<le> 0 \<and> (sm_va e = 0 \<or> sm_va e = -1)" if "e \<in> set (shm k')" "Signature e = 0" for e
    using that e' s(2) k'(2) set_update_subset_insert [of "shm k" g e'] shm_invD(5) [OF inv, of e] by auto
  ultimately show ?thesis unfolding shm_inv_def by blast
qed

lemma find_self: "FindSelfSharedMemory k p s = Some i \<Longrightarrow>
    i < length (SelfSharedMemory (proc_at k p)) \<and> SelfSharedMemory (proc_at k p) ! i = s"
  "FindSelfSharedMemory k p s = None \<longleftrightarrow> s \<notin> set (SelfSharedMemory (proc_at k p))"
  by (auto simp: FindSelfSharedMemory_def find_index_None dest: find_index_Some)

lemma find_global: "FindGlobalSharedMemory k s = Some i \<Longrightarrow> i < length (shm k) \<and> Signature (shm k ! i) = s"
  "FindGlobalSharedMemory k s = None \<longleftrightarrow> s \<notin> Signature ` set (shm k)"
  by (auto simp: FindGlobalSharedMemory_def find_index_None dest: find_index_Some)

lemma users_unattached:
  assumes "shm_inv k" and "s \<noteq> 0" and "s \<notin> Signature ` set (shm k)"
  shows "users k s = 0"
  using shm_invD(3) [OF assms(1) _ _ assms(2)] assms(3) by (auto simp: users_def attached_def filter_empty_conv)

lemma kfree_no_page: "v = 0 \<or> v = -1 \<Longrightarrow> kfree m v = Panic ''kfree''"
  by (auto simp: kfree_def Let_def physicalAddrInvalid_def V2P_def KERNBASE_def PHYSTOP_def PGSIZE_def)

lemma AllocSharedMemory_shm_inv:
  assumes inv: "shm_inv k" and p: "curproc k = Some p" "p < length (ptable k)" and ok: "AllocSharedMemory k s = Ok (r, k')"
  shows "shm_inv k'"
proof (cases "FindSelfSharedMemory k p s")
  case None
  then have new: "s \<notin> set (SelfSharedMemory (ptable k ! p))" by (simp add: find_self)
  show ?thesis
  proof (cases "find_last (\<lambda>s. s = 0) (SelfSharedMemory (ptable k ! p))")
    case (Some i)
    note i = find_last_Some [OF Some]
    have s: "s \<noteq> 0" using nth_mem [OF i(1)] i(2) new by auto
    show ?thesis
    proof (cases "FindGlobalSharedMemory k s")
      case (Some g)
      note g = find_global(1) [OF Some]
      have "UserNumber (shm k ! g) = int (users k s)" using shm_invD(4) [OF inv, of "shm k ! g"] g s by simp
      then show ?thesis
        using ok None \<open>find_last _ _ = Some i\<close> Some g p s i new
        by (intro shm_inv_attach [OF inv p(2) i new s, of g "(shm k ! g)\<lparr>UserNumber := UserNumber (shm k ! g) + 1\<rparr>"])
          (auto simp: AllocSharedMemory_def myproc_def Let_def)
    next
      case none: None
      then have ns: "s \<notin> Signature ` set (shm k)" by (simp add: find_global)
      show ?thesis
      proof (cases "find_last (\<lambda>e. Signature e = 0) (shm k)")
        case (Some g)
        note g = find_last_Some [OF Some]
        show ?thesis
          using ok None \<open>find_last _ _ = Some i\<close> Some none g p s i new ns users_unattached [OF inv s ns]
          by (intro shm_inv_attach [OF inv p(2) i new s, of g "(shm k ! g)\<lparr>sm_va := fst (kalloc (km k)), Signature := s,
              UserNumber := 1\<rparr>"]) (auto simp: AllocSharedMemory_def myproc_def Let_def upd_shm_def attach_def upd_proc_def split: prod.splits)
      qed (use ok None \<open>find_last _ _ = Some i\<close> none inv p in \<open>simp add: AllocSharedMemory_def myproc_def\<close>)
    qed
  qed (use ok None inv p in \<open>simp add: AllocSharedMemory_def myproc_def\<close>)
qed (use ok inv p in \<open>simp add: AllocSharedMemory_def myproc_def\<close>)

lemma DeallocSharedMemory_shm_inv:
  assumes inv: "shm_inv k" and p: "curproc k = Some p" "p < length (ptable k)" and ok: "DeallocSharedMemory k s = Ok (r, k')"
  shows "shm_inv k'"
proof (cases "FindSelfSharedMemory k p s")
  case (Some i)
  note i = find_self(1) [OF Some]
  show ?thesis
  proof (cases "FindGlobalSharedMemory k s")
    case (Some g)
    note g = find_global(1) [OF Some]
    let ?e = "shm k ! g"
    have mem: "?e \<in> set (shm k)" using g by simp
    show ?thesis
    proof (cases "UserNumber ?e - 1 \<le> 0")
      case True
      then obtain m where m: "kfree (km k) (sm_va ?e) = Ok m" and k': "k' = upd_shm (attach (upd_shm k g
          (\<lambda>e. e\<lparr>UserNumber := UserNumber e - 1\<rparr>)) p i 0\<lparr>km := m\<rparr>) g (\<lambda>e. e\<lparr>sm_va := -1, Signature := 0\<rparr>)"
        using ok \<open>FindSelfSharedMemory k p s = Some i\<close> Some g p(1) by (auto simp: DeallocSharedMemory_def myproc_def Let_def)
      have s: "s \<noteq> 0" using m shm_invD(5) [OF inv mem] g kfree_no_page by fastforce
      then have "users k s = 1" using shm_invD(4) [OF inv mem] g True by auto
      then show ?thesis
        using i g s p k' True
        by (intro shm_inv_detach [OF inv p(2) _ _ s, of i g "?e\<lparr>UserNumber := UserNumber ?e - 1, sm_va := -1, Signature := 0\<rparr>"])
          (auto simp: upd_shm_def attach_def upd_proc_def)
    next
      case False
      then have s: "s \<noteq> 0" using shm_invD(5) [OF inv mem] g by auto
      then show ?thesis
        using ok \<open>FindSelfSharedMemory k p s = Some i\<close> Some i g s p False shm_invD(4) [OF inv mem]
        by (intro shm_inv_detach [OF inv p(2) _ _ s, of i g "?e\<lparr>UserNumber := UserNumber ?e - 1\<rparr>"])
          (auto simp: DeallocSharedMemory_def myproc_def Let_def)
    qed
  qed (use ok Some inv p in \<open>simp add: DeallocSharedMemory_def myproc_def\<close>)
qed (use ok inv p in \<open>simp add: DeallocSharedMemory_def myproc_def\<close>)

text \<open>
  The calls of all processes, interleaved: the scheduler may run any process between two calls, and each call runs with
  \<open>SharedMemoryLock\<close> held.
\<close>

inductive shm_step :: "kernel \<Rightarrow> kernel \<Rightarrow> bool" where
  schedule: "p < length (ptable k) \<Longrightarrow> shm_step k (k\<lparr>curproc := Some p\<rparr>)"
| alloc: "curproc k = Some p \<Longrightarrow> p < length (ptable k) \<Longrightarrow> AllocSharedMemory k s = Ok (r, k') \<Longrightarrow> shm_step k k'"
| dealloc: "curproc k = Some p \<Longrightarrow> p < length (ptable k) \<Longrightarrow> DeallocSharedMemory k s = Ok (r, k') \<Longrightarrow> shm_step k k'"

lemma shm_inv_cong: "ptable k = ptable k' \<Longrightarrow> shm k = shm k' \<Longrightarrow> shm_inv k = shm_inv k'"
  by (simp add: shm_inv_def users_def)

lemma shm_inv_step: "shm_step k k' \<Longrightarrow> shm_inv k \<Longrightarrow> shm_inv k'"
proof (induction rule: shm_step.induct)
  case (schedule p k)
  then show ?case using shm_inv_cong [of "k\<lparr>curproc := Some p\<rparr>" k] by simp
qed (blast intro: AllocSharedMemory_shm_inv DeallocSharedMemory_shm_inv)+

lemma shm_inv_init:
  assumes "\<forall>q \<in> set (ptable k). \<forall>s \<in> set (SelfSharedMemory q). s = 0"
  shows "shm_inv (InitGlobalSharedMemory k)"
  using assms by (auto simp: shm_inv_def InitGlobalSharedMemory_def once_def)

text \<open>
  C9. After \<open>InitGlobalSharedMemory\<close>, whatever the processes allocate and release in whatever order, the table and the
  processes agree: no signature occurs twice, every attached signature has its page in the table, and \<open>UserNumber\<close> is the
  number of processes that have it attached (so a page is given up exactly when its last user leaves).
\<close>

theorem shared_memory_counts:
  assumes "\<forall>q \<in> set (ptable k). \<forall>s \<in> set (SelfSharedMemory q). s = 0"
    and "shm_step\<^sup>*\<^sup>* (InitGlobalSharedMemory k) k'"
  shows "shm_inv k'"
  using assms(2)
proof (induction rule: rtranclp_induct)
  case base
  then show ?case by (rule shm_inv_init [OF assms(1)])
next
  case (step y z)
  then show ?case by (blast intro: shm_inv_step)
qed

text \<open>
  C15. \<open>DeallocSharedMemory(0)\<close> stops the kernel: 0 marks free slots, so a process with a free slot is taken to have
  signature 0 attached, and a free entry of the table is released, whose page pointer is no page.
\<close>

theorem DeallocSharedMemory_0_panics:
  assumes "shm_inv k" and "curproc k = Some p" and "p < length (ptable k)"
    and "0 \<in> set (SelfSharedMemory (proc_at k p))" and "0 \<in> Signature ` set (shm k)"
  shows "DeallocSharedMemory k 0 = Panic ''kfree''"
proof -
  obtain i where i: "FindSelfSharedMemory k p 0 = Some i" using assms(4) find_self(2) [of k p 0] by auto
  obtain g where g: "FindGlobalSharedMemory k 0 = Some g" using assms(5) find_global(2) [of k 0] by auto
  note g' = find_global(1) [OF g]
  have "UserNumber (shm k ! g) \<le> 0" "sm_va (shm k ! g) = 0 \<or> sm_va (shm k ! g) = -1"
    using shm_invD(5) [OF assms(1), of "shm k ! g"] g' by auto
  then show ?thesis using i g g' assms(2) kfree_no_page by (auto simp: DeallocSharedMemory_def myproc_def Let_def)
qed

lemma demo_init: "\<forall>q \<in> set (ptable demo_kernel). \<forall>s \<in> set (SelfSharedMemory q). s = 0"
  by (simp add: demo_kernel_def demo_proc_def)

lemma demo_shm_step: "\<exists>r k'. AllocSharedMemory (InitGlobalSharedMemory demo_kernel) 7 = Ok (r, k') \<and>
    shm_step (InitGlobalSharedMemory demo_kernel) k'"
proof -
  let ?k = "InitGlobalSharedMemory demo_kernel"
  have c: "curproc ?k = Some 0" "0 < length (ptable ?k)" by (simp_all add: InitGlobalSharedMemory_def demo_kernel_def)
  have "is_Ok (AllocSharedMemory ?k 7)"
    using c by (simp add: AllocSharedMemory_def myproc_def Let_def split: option.split prod.split)
  then obtain r k' where "AllocSharedMemory ?k 7 = Ok (r, k')" by (auto simp: is_Ok_iff)
  then show ?thesis using shm_step.alloc [OF c] by blast
qed

theorem shared_memory_counts_witness:
  "\<exists>r k'. AllocSharedMemory (InitGlobalSharedMemory demo_kernel) 7 = Ok (r, k') \<and> shm_inv k'"
  using demo_shm_step shared_memory_counts [OF demo_init] by (meson r_into_rtranclp)

theorem DeallocSharedMemory_0_panics_witness:
  "DeallocSharedMemory (InitGlobalSharedMemory demo_kernel) 0 = Panic ''kfree''"
proof (rule DeallocSharedMemory_0_panics)
  show "shm_inv (InitGlobalSharedMemory demo_kernel)" by (rule shm_inv_init [OF demo_init])
  show "curproc (InitGlobalSharedMemory demo_kernel) = Some 0" "0 < length (ptable (InitGlobalSharedMemory demo_kernel))"
    "0 \<in> set (SelfSharedMemory (proc_at (InitGlobalSharedMemory demo_kernel) 0))"
    "0 \<in> Signature ` set (shm (InitGlobalSharedMemory demo_kernel))"
    by (simp_all add: InitGlobalSharedMemory_def demo_kernel_def demo_proc_def SHARED_MEMORY_PER_PROC_def SHARED_MEMORY_GLOBAL_def)
qed

lemma strlen_string: "0 \<notin> set str \<Longrightarrow> strlen (str @ 0 # rest) = Ok (int (length str))"
  by (induction str) auto

lemma ctext_string: "0 \<notin> set str \<Longrightarrow> ctext (Suc (length str)) (str @ 0 # rest) = str"
  by (induction str) auto

lemma page_bytes_write:
  assumes "length bs = 4096"
  shows "page_bytes (k\<lparr>km := write_page (km k) v 0 bs\<rparr>) v = bs"
  using assms by (auto simp: page_bytes_def get_bytes_def write_page_def get_put_bytes intro!: nth_equalityI)

text \<open>
  C10. What one process writes, every process that has the signature attached reads: after \<open>WriteSharedMemory\<close> of a string
  that fits in the page, \<open>ReadSharedMemory\<close> by another process gives the string, its terminator, and the old rest of the
  page.
\<close>

theorem shared_memory_roundtrip:
  assumes "curproc k = Some p" and "s \<in> set (SelfSharedMemory (proc_at k p))" and "s \<in> set (SelfSharedMemory (proc_at k q))"
    and "FindGlobalSharedMemory k s = Some i" and "sm_va (shm k ! i) \<noteq> 0"
    and "0 \<notin> set str" and "length str < 4096"
  shows "\<exists>k'. WriteSharedMemory k s (str @ 0 # rest) = Ok (0, k') \<and>
    ReadSharedMemory (k'\<lparr>curproc := Some q\<rparr>) s =
      Ok (0, str @ 0 # drop (Suc (length str)) (page_bytes k (sm_va (shm k ! i))))"
proof -
  let ?va = "sm_va (shm k ! i)"
  let ?bs = "str @ 0 # drop (Suc (length str)) (page_bytes k ?va)"
  have len: "length (page_bytes k ?va) = 4096" by (simp add: page_bytes_def get_bytes_def)
  have "strncpy (page_bytes k ?va) (str @ 0 # rest) (int (length str) + 1) = Ok ?bs"
    using strncpy_from_eq [of 0 "Suc (length str)" "page_bytes k ?va" "str @ 0 # rest"] ctext_string [OF assms(6)] len assms(7)
    by (simp add: strncpy_def nat_add_distrib)
  then have "WriteSharedMemory k s (str @ 0 # rest) = Ok (0, k\<lparr>km := write_page (km k) ?va 0 ?bs\<rparr>)"
    using assms by (auto simp: WriteSharedMemory_def myproc_def Let_def strlen_string FindSelfSharedMemory_def find_index_None
        split: option.split)
  moreover have "ReadSharedMemory (k\<lparr>km := write_page (km k) ?va 0 ?bs, curproc := Some q\<rparr>) s = Ok (0, ?bs)"
    using assms page_bytes_write [of ?bs k ?va] len
    by (auto simp: ReadSharedMemory_def myproc_def FindSelfSharedMemory_def FindGlobalSharedMemory_def find_index_None
        page_bytes_def split: option.split)
  ultimately show ?thesis by simp
qed

definition demo_shared :: kernel where
  "demo_shared = demo_kernel\<lparr>ptable := [demo_proc\<lparr>SelfSharedMemory := [0, 7]\<rparr>, demo_proc\<lparr>SelfSharedMemory := [7, 5]\<rparr>],
     shm := [\<lparr>sm_va = 0x80105000, Signature = 5, UserNumber = 1\<rparr>, \<lparr>sm_va = 0x80106000, Signature = 7, UserNumber = 2\<rparr>]\<rparr>"

theorem shared_memory_roundtrip_witness:
  "\<exists>k' bs. WriteSharedMemory demo_shared 7 [104, 105, 0] = Ok (0, k') \<and>
    ReadSharedMemory (k'\<lparr>curproc := Some 1\<rparr>) 7 = Ok (0, [104, 105, 0] @ bs)"
  using shared_memory_roundtrip [of demo_shared 0 7 1 1 "[104, 105]" "[]"]
  by (auto simp: demo_shared_def demo_kernel_def FindGlobalSharedMemory_def)

end
