(* ===== verification/Vm.thy ===== *)
theory Vm
  imports Sysfile SharedMemory
begin

text \<open>
  Virtual memory (\<open>vm.c\<close>): kernel page tables, growing and shrinking a process, swapping, the page fault handler with
  lazy allocation, stack growth and copy-on-write, and copying an address space for \<open>fork\<close>. The page table walk, \<open>mappages\<close>
  and the copying routines are in \<open>PageTable\<close>.

  The translation look-aside buffer is not modelled: \<open>lcr3\<close> only sets \<open>cr3\<close>. Page loops have as fuel the number of pages
  of the range plus one for the final test.
\<close>

abbreviation (input) set_km :: "kernel \<Rightarrow> kmem \<Rightarrow> kernel" where
  "set_km k m \<equiv> k\<lparr>km := m\<rparr>"

definition lift_km :: "kernel \<Rightarrow> kmem res \<Rightarrow> kernel res" where
  "lift_km k r = bindR r (\<lambda>m. Ok (k\<lparr>km := m\<rparr>))"

definition lcr3 :: "kernel \<Rightarrow> u32 \<Rightarrow> kernel" where
  "lcr3 k v = k\<lparr>cr3 := v\<rparr>"

definition kalloc_k :: "kernel \<Rightarrow> u32 \<times> kernel" where
  "kalloc_k k = (let (v, m) = kalloc (km k) in (v, k\<lparr>km := m\<rparr>))"

definition page_fuel :: "u32 \<Rightarrow> nat" where
  "page_fuel sz = unat sz div 4096 + 2"

subsection \<open>Shrinking a process\<close>

text \<open>One page of \<open>deallocuvm\<close> whose table entry is \<open>pte\<close>.\<close>

definition dealloc_page :: "kernel \<Rightarrow> u32 \<Rightarrow> u32 \<Rightarrow> pte_ptr \<Rightarrow> kernel res" where
  "dealloc_page k pgdir a pte =
     (let e = read_pte (km k) pte
      in if e AND PTE_P \<noteq> 0 then
           (let pa = PTE_ADDR e
            in if pa = 0 then Panic ''kfree''
               else
                 bindR (myproc k) (\<lambda>p.
                 bindR (if p_pgdir (proc_at k p) = pgdir then
                          bindR (GetAddressInMemoryTable k p a) (\<lambda>x.
                          bindR (RemoveFromMemoryList k p x) (\<lambda>k.
                            Ok (upd_proc k p (\<lambda>q. q\<lparr>MemoryEntryNum := MemoryEntryNum q - 1\<rparr>))))
                        else Ok k) (\<lambda>k.
                 bindR (lift_km k (kfree (km k) (P2V pa))) (\<lambda>k.
                   Ok (k\<lparr>km := write_pte (km k) pte 0\<rparr>)))))
         else if e AND PTE_PG \<noteq> 0 then
           bindR (myproc k) (\<lambda>p.
             if p_pgdir (proc_at k p) = pgdir then
               bindR (RemoveFromSwapTable k p a) (\<lambda>k.
                 Ok (upd_proc k p (\<lambda>q. q\<lparr>SwapPageNum := SwapPageNum q - 1\<rparr>)))
             else Ok k)
         else Ok k)"

primrec deallocuvm_loop :: "nat \<Rightarrow> kernel \<Rightarrow> u32 \<Rightarrow> u32 \<Rightarrow> u32 \<Rightarrow> kernel res" where
  "deallocuvm_loop 0 k pgdir a oldsz = Fault ''deallocuvm: loop''"
| "deallocuvm_loop (Suc n) k pgdir a oldsz =
     (if \<not> a < oldsz then Ok k
      else
        (case fst (walkpgdir (km k) pgdir a False) of
           None \<Rightarrow> deallocuvm_loop n k pgdir (a + of_nat (NPTENTRIES - 1) * PGSIZE + PGSIZE) oldsz
         | Some pte \<Rightarrow>
             bindR (dealloc_page k pgdir a pte) (\<lambda>k. deallocuvm_loop n k pgdir (a + PGSIZE) oldsz)))"

definition deallocuvm :: "kernel \<Rightarrow> u32 \<Rightarrow> u32 \<Rightarrow> u32 \<Rightarrow> (u32 \<times> kernel) res" where
  "deallocuvm k pgdir oldsz newsz =
     (if newsz \<ge> oldsz then Ok (oldsz, k)
      else bindR (deallocuvm_loop (page_fuel oldsz) k pgdir (PGROUNDUP newsz) oldsz) (\<lambda>k. Ok (newsz, k)))"

primrec free_tables :: "nat list \<Rightarrow> kernel \<Rightarrow> u32 \<Rightarrow> kernel res" where
  "free_tables [] k pgdir = Ok k"
| "free_tables (i # is) k pgdir =
     (let e = read_pte (km k) (pgdir, i)
      in if e AND PTE_P \<noteq> 0
         then bindR (lift_km k (kfree (km k) (P2V (PTE_ADDR e)))) (\<lambda>k. free_tables is k pgdir)
         else free_tables is k pgdir)"

definition freevm :: "kernel \<Rightarrow> u32 \<Rightarrow> kernel res" where
  "freevm k pgdir =
     (if pgdir = 0 then Panic ''freevm: no pgdir''
      else
        bindR (deallocuvm k pgdir KERNBASE 0) (\<lambda>(_, k).
        bindR (free_tables [0 ..< NPDENTRIES] k pgdir) (\<lambda>k.
          lift_km k (kfree (km k) pgdir))))"

subsection \<open>Kernel page tables\<close>

text \<open>The table \<open>kmap\<close>: virtual address, physical start and end, permissions.\<close>

definition kmap :: "kernel \<Rightarrow> (u32 \<times> u32 \<times> u32 \<times> u32) list" where
  "kmap k =
     [(KERNBASE, 0, EXTMEM, PTE_W), (KERNLINK, V2P KERNLINK, V2P (kdata k), 0),
      (kdata k, V2P (kdata k), PHYSTOP, PTE_W), (DEVSPACE, DEVSPACE, 0, PTE_W)]"

primrec map_kernel :: "(u32 \<times> u32 \<times> u32 \<times> u32) list \<Rightarrow> kernel \<Rightarrow> u32 \<Rightarrow> (bool \<times> kernel) res" where
  "map_kernel [] k pgdir = Ok (True, k)"
| "map_kernel (e # es) k pgdir =
     (let (virt, phys_start, phys_end, perm) = e
      in bindR (mappages (km k) pgdir virt (phys_end - phys_start) phys_start perm) (\<lambda>(r, m).
           let k = k\<lparr>km := m\<rparr>
           in if r < 0 then bindR (freevm k pgdir) (\<lambda>k. Ok (False, k)) else map_kernel es k pgdir))"

definition setupkvm :: "kernel \<Rightarrow> (u32 \<times> kernel) res" where
  "setupkvm k =
     (let (pgdir, k) = kalloc_k k
      in if pgdir = 0 then Ok (0, k)
         else
           (let k = k\<lparr>km := memset_page (km k) pgdir 0\<rparr>
            in if P2V PHYSTOP > DEVSPACE then Panic ''PHYSTOP too high''
               else bindR (map_kernel (kmap k) k pgdir) (\<lambda>(ok, k). Ok (if ok then pgdir else 0, k))))"

definition switchkvm :: "kernel \<Rightarrow> kernel" where
  "switchkvm k = lcr3 k (V2P (kpgdir k))"

definition kvmalloc :: "kernel \<Rightarrow> kernel res" where
  "kvmalloc k = bindR (setupkvm k) (\<lambda>(d, k). Ok (switchkvm (k\<lparr>kpgdir := d\<rparr>)))"

text \<open>\<open>switchuvm\<close>; the task state segment it fills in is not modelled.\<close>

definition switchuvm :: "kernel \<Rightarrow> nat option \<Rightarrow> kernel res" where
  "switchuvm k pp =
     (case pp of None \<Rightarrow> Panic ''switchuvm: no process''
      | Some p \<Rightarrow>
          if p_kstack (proc_at k p) = 0 then Panic ''switchuvm: no kstack''
          else if p_pgdir (proc_at k p) = 0 then Panic ''switchuvm: no pgdir''
          else Ok (lcr3 k (V2P (p_pgdir (proc_at k p)))))"

primrec loaduvm_loop :: "nat \<Rightarrow> kernel \<Rightarrow> u32 \<Rightarrow> u32 \<Rightarrow> nat \<Rightarrow> u32 \<Rightarrow> u32 \<Rightarrow> u32 \<Rightarrow> (int \<times> kernel) res" where
  "loaduvm_loop 0 k pgdir addr ip offset sz i = Fault ''loaduvm: loop''"
| "loaduvm_loop (Suc f) k pgdir addr ip offset sz i =
     (if \<not> i < sz then Ok (0, k)
      else
        (case fst (walkpgdir (km k) pgdir (addr + i) False) of
           None \<Rightarrow> Panic ''loaduvm: address should exist''
         | Some pte \<Rightarrow>
             (let pa = PTE_ADDR (read_pte (km k) pte);
                  n = (if sz - i < PGSIZE then sz - i else PGSIZE)
              in bindR (readi k ip (offset + i) n) (\<lambda>(r, bs, k).
                   let k = k\<lparr>km := write_page (km k) (P2V pa) 0 bs\<rparr>
                   in if word_of_int r \<noteq> n then Ok (-1, k) else loaduvm_loop f k pgdir addr ip offset sz (i + PGSIZE)))))"

definition loaduvm :: "kernel \<Rightarrow> u32 \<Rightarrow> u32 \<Rightarrow> nat \<Rightarrow> u32 \<Rightarrow> u32 \<Rightarrow> (int \<times> kernel) res" where
  "loaduvm k pgdir addr ip offset sz =
     (if addr mod PGSIZE \<noteq> 0 then Panic ''loaduvm: addr must be page aligned''
      else loaduvm_loop (page_fuel sz) k pgdir addr ip offset sz 0)"

subsection \<open>Swapping\<close>

definition RecordInMemory :: "kernel \<Rightarrow> u32 \<Rightarrow> nat \<Rightarrow> kernel res" where
  "RecordInMemory k TheVirtualAddress p =
     bindR (find_memory_page (Suc MEMORY_TABLE_LENGTH) k (MemoryTableListHead (proc_at k p)) SLOT_USABLE) (\<lambda>r.
       case r of
         None \<Rightarrow> Panic ''[ERROR] No free slot in memory.''
       | Some e \<Rightarrow>
           (let OldHead = MemoryListHead (proc_at k p);
                k = upd_ent k e (\<lambda>x. x\<lparr>VirtualAddress := TheVirtualAddress, Next := OldHead\<rparr>)
            in case OldHead of
                 None \<Rightarrow> Ok (upd_proc k p (\<lambda>q. q\<lparr>MemoryListHead := Some e, MemoryListTail := Some e\<rparr>))
               | Some h \<Rightarrow>
                   (let k = upd_ent k h (\<lambda>x. x\<lparr>Last := Some e\<rparr>);
                        k = upd_proc k p (\<lambda>q. q\<lparr>MemoryListHead := Some e\<rparr>)
                    in Ok (upd_ent k e (\<lambda>x. x\<lparr>Next := OldHead\<rparr>)))))"

definition RecordInSwapTable :: "kernel \<Rightarrow> nat \<Rightarrow> (entry_ptr option \<times> kernel) res" where
  "RecordInSwapTable k p =
     bindR (GetMemoryListTail k p) (\<lambda>(ListTail, k).
     bindR (GetEmptyInSwapTable k p) (\<lambda>((SwapPlace, FileOffset), k).
       let va = VirtualAddress (ent k ListTail); k = set_swap_entry k SwapPlace va
       in bindR (uloads k (PTE_ADDR va) 4096) (\<lambda>bs.
          bindR (WriteSwapFile k p bs (of_nat FileOffset) PGSIZE) (\<lambda>(r, k).
            if r = 0 then Ok (None, k)
            else
              (case fst (walkpgdir (km k) (p_pgdir (proc_at k p)) va False) of
                 None \<Rightarrow> Fault ''RecordInSwapTable: PageTablePlace''
               | Some pte \<Rightarrow>
                   if read_pte (km k) pte = 0 then Panic ''[ERROR] [fifo_write] PTE empty.''
                   else
                     bindR (lift_km k (kfree (km k) (P2V (PTE_ADDR (read_pte (km k) pte))))) (\<lambda>k.
                       let k = k\<lparr>km := write_pte (km k) pte (PTE_W OR PTE_U OR PTE_PG)\<rparr>
                       in Ok (Some ListTail, lcr3 k (V2P (p_pgdir (proc_at k p))))))))))"

text \<open>One of the four pieces that \<open>SwapMemoryAndFile\<close> exchanges between the page and the swap file.\<close>

definition swap_piece :: "kernel \<Rightarrow> nat \<Rightarrow> u32 \<Rightarrow> pte_ptr \<Rightarrow> nat \<Rightarrow> nat \<Rightarrow> kernel res" where
  "swap_piece k p va pte_mem FileOffset FileNum =
     (let FileStartPlace = of_nat (FileOffset + SWAP_BUFFER_SIZE * FileNum);
          CurrentWritingOffset = SWAP_BUFFER_SIZE * FileNum
      in bindR (ReadSwapFile k p FileStartPlace (of_nat SWAP_BUFFER_SIZE)) (\<lambda>(r, bs, k).
           let SwapBuffer = bs @ drop (length bs) (replicate SWAP_BUFFER_SIZE 0);
               out = get_bytes (pmem (km k) (PTE_ADDR (read_pte (km k) pte_mem))) CurrentWritingOffset SWAP_BUFFER_SIZE
           in bindR (WriteSwapFile k p out FileStartPlace (of_nat SWAP_BUFFER_SIZE)) (\<lambda>(r, k).
                ustores SwapBuffer k (PTE_ADDR va + of_nat CurrentWritingOffset))))"

primrec swap_pieces :: "nat list \<Rightarrow> kernel \<Rightarrow> nat \<Rightarrow> u32 \<Rightarrow> pte_ptr \<Rightarrow> nat \<Rightarrow> kernel res" where
  "swap_pieces [] k p va pte_mem FileOffset = Ok k"
| "swap_pieces (i # is) k p va pte_mem FileOffset =
     bindR (swap_piece k p va pte_mem FileOffset i) (\<lambda>k. swap_pieces is k p va pte_mem FileOffset)"

definition SwapMemoryAndFile :: "kernel \<Rightarrow> u32 \<Rightarrow> nat \<Rightarrow> kernel res" where
  "SwapMemoryAndFile k TheVirtualAddress p =
     bindR (GetMemoryListTail k p) (\<lambda>(EntryMemory, k).
     bindR (GetAddressInSwapTable k p (PTE_ADDR TheVirtualAddress)) (\<lambda>(EntryFile, FileOffset).
     bindR (deref ''PageTableMemory'' (fst (walkpgdir (km k) (p_pgdir (proc_at k p)) (VirtualAddress (ent k EntryMemory)) False))) (\<lambda>pm.
       if read_pte (km k) pm = 0 then Panic ''[ERROR] A record is in memstab but not in pgdir.''
       else
     bindR (deref ''PageTableFile'' (fst (walkpgdir (km k) (p_pgdir (proc_at k p)) TheVirtualAddress False))) (\<lambda>pf.
       if read_pte (km k) pf = 0 then Panic ''[ERROR] A record should be in pgdir!''
       else
         (let k = k\<lparr>km := write_pte (km k) pf (PTE_ADDR (read_pte (km k) pm) OR PTE_U OR PTE_W OR PTE_P)\<rparr>
          in bindR (swap_pieces [0 ..< 4] k p TheVirtualAddress pm FileOffset) (\<lambda>k.
             let k = set_swap_entry k EntryFile (VirtualAddress (ent k EntryMemory))
             in bindR (SetMemoryListHead k p (Some EntryMemory) (PTE_ADDR TheVirtualAddress)) (\<lambda>k.
                  let k = k\<lparr>km := write_pte (km k) pm (PTE_U OR PTE_W OR PTE_PG)\<rparr>
                  in Ok (lcr3 k (V2P (p_pgdir (proc_at k p)))))))))))"

definition RecordPage :: "kernel \<Rightarrow> u32 \<Rightarrow> kernel res" where
  "RecordPage k TheVirtualAddress =
     bindR (myproc k) (\<lambda>p.
     bindR (RecordInMemory k TheVirtualAddress p) (\<lambda>k.
       Ok (upd_proc k p (\<lambda>q. q\<lparr>MemoryEntryNum := MemoryEntryNum q + 1\<rparr>))))"

definition RecordFile :: "kernel \<Rightarrow> (entry_ptr option \<times> kernel) res" where
  "RecordFile k =
     bindR (kprintf k ''Swapping out a page.\<newline>'' []) (\<lambda>k. bindR (myproc k) (\<lambda>p. RecordInSwapTable k p))"

definition SwapPage :: "kernel \<Rightarrow> u32 \<Rightarrow> kernel res" where
  "SwapPage k TheVirtualAddress =
     bindR (kprintf k ''[ INFO ] Swapping page for 0x%x.\<newline>'' [PWord TheVirtualAddress]) (\<lambda>k.
     bindR (myproc k) (\<lambda>p.
     bindR (kstrcmp (p_name (proc_at k p)) (bytes ''init'' @ [0])) (\<lambda>c1.
     bindR (if c1 = 0 then Ok 0 else kstrcmp (p_name (proc_at k p)) (bytes ''sh'' @ [0])) (\<lambda>c2.
       if c1 = 0 \<or> c2 = 0 then Ok (upd_proc k p (\<lambda>q. q\<lparr>MemoryEntryNum := MemoryEntryNum q + 1\<rparr>))
       else SwapMemoryAndFile k TheVirtualAddress p))))"

subsection \<open>Growing a process\<close>

text \<open>Enter a page in the list of resident pages, evicting the oldest one when the list is full.\<close>

definition enter_page :: "kernel \<Rightarrow> nat \<Rightarrow> u32 \<Rightarrow> kernel res" where
  "enter_page k p a =
     (if MemoryEntryNum (proc_at k p) \<ge> MEMORY_TABLE_TOTAL_ENTRYS then
        bindR (RecordFile k) (\<lambda>(ListTail, k). SetMemoryListHead k p ListTail a)
      else RecordPage k a)"

primrec allocuvm_loop :: "nat \<Rightarrow> kernel \<Rightarrow> nat \<Rightarrow> u32 \<Rightarrow> u32 \<Rightarrow> u32 \<Rightarrow> u32 \<Rightarrow> (u32 \<times> kernel) res" where
  "allocuvm_loop 0 k p pgdir a oldsz newsz = Fault ''allocuvm: loop''"
| "allocuvm_loop (Suc n) k p pgdir a oldsz newsz =
     (if \<not> a < newsz then Ok (newsz, k)
      else
        bindR (enter_page k p a) (\<lambda>k.
          let (mem, k) = kalloc_k k
          in if mem = 0 then bindR (deallocuvm k pgdir newsz oldsz) (\<lambda>(_, k). Ok (0, k))
             else
               bindR (mappages (memset_page (km k) mem 0) pgdir a PGSIZE (V2P mem) (PTE_W OR PTE_U)) (\<lambda>(r, m).
                 let k = k\<lparr>km := m\<rparr>
                 in if r < 0 then
                      bindR (deallocuvm k pgdir newsz oldsz) (\<lambda>(_, k).
                      bindR (lift_km k (kfree (km k) mem)) (\<lambda>k. Ok (0, k)))
                    else allocuvm_loop n k p pgdir (a + PGSIZE) oldsz newsz)))"

definition allocuvm :: "kernel \<Rightarrow> u32 \<Rightarrow> u32 \<Rightarrow> u32 \<Rightarrow> (u32 \<times> kernel) res" where
  "allocuvm k pgdir oldsz newsz =
     bindR (myproc k) (\<lambda>p.
       let stack_reserved = USERTOP - p_stackSize (proc_at k p) - PGSIZE
       in if newsz > stack_reserved then Ok (0, k)
          else if newsz > KERNBASE then Ok (0, k)
          else if newsz < oldsz then Ok (oldsz, k)
          else allocuvm_loop (page_fuel newsz) k p pgdir (PGROUNDUP oldsz) oldsz newsz)"

definition stackGrow :: "kernel \<Rightarrow> u32 \<Rightarrow> (bool \<times> kernel) res" where
  "stackGrow k pgdir =
     bindR (myproc k) (\<lambda>p.
       let stackBorder = USERTOP - p_stackSize (proc_at k p); heapBorder = p_sz (proc_at k p)
       in if heapBorder + PGSIZE > stackBorder then Ok (False, k)
          else
            (let (mem, k) = kalloc_k k
             in if mem = 0 then Ok (False, k)
                else
                  (let newStackBorder = stackBorder - PGSIZE
                   in bindR (mappages (km k) pgdir newStackBorder PGSIZE (V2P mem) (PTE_W OR PTE_U)) (\<lambda>(r, m).
                        let k = k\<lparr>km := m\<rparr>
                        in if r < 0 then
                             bindR (deallocuvm k pgdir newStackBorder stackBorder) (\<lambda>(_, k).
                             bindR (lift_km k (kfree (km k) mem)) (\<lambda>k. Ok (False, k)))
                           else
                             bindR (enter_page k p newStackBorder) (\<lambda>k.
                               let k = k\<lparr>km := memset_page (km k) mem 0\<rparr>
                               in Ok (True, upd_proc k p (\<lambda>q. q\<lparr>p_stackSize := p_stackSize q + PGSIZE\<rparr>)))))))"

subsection \<open>Page faults\<close>

definition PGFLT_P :: u32 where "PGFLT_P = 1"

definition kill_current :: "kernel \<Rightarrow> nat \<Rightarrow> kernel" where
  "kill_current k p = upd_proc k p (\<lambda>q. q\<lparr>p_killed := True\<rparr>)"

definition quoted_name :: string where
  "quoted_name = [CHR 0x22] @ ''%s'' @ [CHR 0x22]"

text \<open>A fault on a page that is not present.\<close>

definition fault_absent :: "kernel \<Rightarrow> nat \<Rightarrow> u32 \<Rightarrow> kernel res" where
  "fault_absent k p va =
     (let q = proc_at k p; pde = read_pte (km k) (p_pgdir q, unat (PDX va))
      in if pde AND PTE_P \<noteq> 0 \<and> read_pte (km k) (PTE_ADDR (P2V pde), unat (PTX va)) AND PTE_PG \<noteq> 0 then
           SwapPage k (PTE_ADDR va)
         else if va < PGSIZE then
           bindR (kprintf k (''[ERROR] Dereferencing a null pointer (0x%x), '' @ quoted_name @ '' will be killed.\<newline>'')
                    [PWord va, PStr (Some (p_name q))]) (\<lambda>k. Ok (kill_current k p))
         else if va \<ge> p_sz q + PGSIZE \<and> va < USERTOP - p_stackSize q then
           bindR (stackGrow k (p_pgdir q)) (\<lambda>(ok, k).
             if \<not> ok then
               bindR (kprintf k (''[ERROR] Stack growth failed, '' @ quoted_name @ '' will be killed.\<newline>'')
                        [PStr (Some (p_name q))]) (\<lambda>k. Ok (kill_current k p))
             else Ok k)
         else
           (let (mem, k) = kalloc_k k
            in if mem = 0 then
                 bindR (kprintf k ''Lazy allocation failed: Memory out. Killing process.\<newline>'' []) (\<lambda>k. Ok (kill_current k p))
               else
                 bindR (mappages (memset_page (km k) mem 0) (p_pgdir q) (PGROUNDDOWN va) PGSIZE (V2P mem) (PTE_W OR PTE_U))
                   (\<lambda>(r, m).
                     let k = k\<lparr>km := m\<rparr>
                     in if r < 0 then
                          bindR (kprintf k ''Lazy allocation failed: Memory out (2). Killing process.\<newline>'' [])
                            (\<lambda>k. Ok (kill_current k p))
                        else Ok k)))"

text \<open>A write to a page that \<open>copyuvm\<close> has made read-only.\<close>

definition copy_on_write :: "kernel \<Rightarrow> nat \<Rightarrow> pte_ptr \<Rightarrow> kernel res" where
  "copy_on_write k p pte =
     (let e = read_pte (km k) pte; q = proc_at k p
      in if e AND PTE_W \<noteq> 0 then
           Panic ''[PageFault] This is not a copy on write pagefault. You must missed handling it above.\<newline>''
         else
           (let pageAddr = PTE_ADDR e
            in bindR (getPhysicalPageRefCount (km k) pageAddr) (\<lambda>n.
                 if n < 1 then
                   Panic (''[PageFault:copy on write] The page isn'' @ [CHR 0x27] @
                     ''t used by any process. You make some wrong somewhere else.\<newline>'')
                 else if n = 1 then
                   Ok (lcr3 (k\<lparr>km := write_pte (km k) pte (e OR PTE_W)\<rparr>) (V2P (p_pgdir q)))
                 else
                   (let (newPage, k) = kalloc_k k
                    in if newPage = 0 then
                         bindR (kprintf k ''[PageFault:copy on write] Cannot alloc new memory. Killed %s(pid %d)\<newline>''
                                  [PStr (Some (p_name q)), PWord (word_of_int (p_pid q))]) (\<lambda>k. Ok (kill_current k p))
                       else
                         (let m = write_page (km k) newPage 0 (get_bytes (pmem (km k) pageAddr) 0 4096);
                              m = write_pte m pte (V2P newPage OR PTE_P OR PTE_U OR PTE_W)
                          in bindR (lift_km k (decreasePhysicalPageRefCountByOne m pageAddr)) (\<lambda>k.
                               Ok (lcr3 k (V2P (p_pgdir q)))))))))"

definition PageFault :: "kernel \<Rightarrow> u32 \<Rightarrow> kernel res" where
  "PageFault k err_code =
     (let va = cr2 k
      in if err_code AND PGFLT_P = 0 then bindR (myproc k) (\<lambda>p. fault_absent k p va)
         else
           (case curproc k of
              None \<Rightarrow> Panic ''Pagefault. No process.''
            | Some p \<Rightarrow>
                if va \<ge> KERNBASE then Ok (kill_current k p)
                else
                  (case fst (walkpgdir (km k) (p_pgdir (proc_at k p)) va False) of
                     None \<Rightarrow> Ok (kill_current k p)
                   | Some pte \<Rightarrow>
                       if read_pte (km k) pte AND PTE_P = 0 \<or> read_pte (km k) pte AND PTE_U = 0
                       then Ok (kill_current k p)
                       else copy_on_write k p pte)))"

subsection \<open>Copying an address space\<close>

primrec copyuvm_loop :: "nat \<Rightarrow> kernel \<Rightarrow> u32 \<Rightarrow> u32 \<Rightarrow> u32 \<Rightarrow> u32 \<Rightarrow> (bool \<times> kernel) res" where
  "copyuvm_loop 0 k d pgdir i sz = Fault ''copyuvm: loop''"
| "copyuvm_loop (Suc n) k d pgdir i sz =
     (if \<not> i < sz then Ok (True, k)
      else
        (case fst (walkpgdir (km k) pgdir i False) of
           None \<Rightarrow> Panic ''copyuvm: pte should exist''
         | Some pte \<Rightarrow>
             if read_pte (km k) pte AND PTE_P = 0 then Panic ''copyuvm: page not present''
             else
               (let e = read_pte (km k) pte AND NOT PTE_W;
                    k = k\<lparr>km := write_pte (km k) pte e\<rparr>;
                    pa = PTE_ADDR e
                in bindR (mappages (km k) d i PGSIZE pa (PTE_FLAGS e)) (\<lambda>(r, m).
                     let k = k\<lparr>km := m\<rparr>
                     in if r < 0 then Ok (False, k)
                        else
                          bindR (lift_km k (increasePhysicalPageRefCountByOne (km k) pa)) (\<lambda>k.
                            copyuvm_loop n k d pgdir (i + PGSIZE) sz)))))"

definition copyuvm :: "kernel \<Rightarrow> u32 \<Rightarrow> u32 \<Rightarrow> (u32 \<times> kernel) res" where
  "copyuvm k pgdir sz =
     bindR (setupkvm k) (\<lambda>(d, k).
       if d = 0 then Ok (0, k)
       else
         bindR (copyuvm_loop (page_fuel sz) k d pgdir PGSIZE sz) (\<lambda>(ok, k).
         bindR (if \<not> ok then Ok (False, k)
                else bindR (myproc k) (\<lambda>p.
                  copyuvm_loop (page_fuel (p_stackSize (proc_at k p))) k d pgdir (USERTOP - p_stackSize (proc_at k p)) USERTOP))
           (\<lambda>(ok, k).
             if ok then Ok (d, lcr3 k (V2P pgdir))
             else bindR (freevm k d) (\<lambda>k. Ok (0, lcr3 k (V2P pgdir))))))"

end
