(* ===== verification/Proc.thy ===== *)
theory Proc
  imports Vm
begin

text \<open>
  Processes (\<open>proc.c\<close>): creation, growth, exit and wait, sleeping and waking, and the scheduler.

  A kernel thread gives up the CPU in \<open>sched\<close>: its model ends with the control in the scheduler (no current process, kernel
  page table). \<open>run_process\<close> is the part of the scheduler's loop before \<open>swtch\<close>. Where a routine sleeps in the middle of its
  work (\<open>wait\<close>), its model ends in \<open>Sleep\<close>.
\<close>

definition set_state :: "kernel \<Rightarrow> nat \<Rightarrow> procstate \<Rightarrow> kernel" where
  "set_state k p s = upd_proc k p (\<lambda>q. q\<lparr>p_state := s\<rparr>)"

subsection \<open>Creating processes\<close>

definition init_vm_data :: "proc \<Rightarrow> proc" where
  "init_vm_data q = q\<lparr>MemoryEntryNum := 0, SwapPageNum := 0, MemoryListHead := None, MemoryListTail := None,
     MemoryTableListHead := 0, MemoryTableListTail := 0, SwapTableListHead := 0, SwapTableListTail := 0,
     FilesForSwap := replicate SWAP_FILE_MAX_NUM None\<rparr>"

definition InitVirtualMemoryData :: "kernel \<Rightarrow> kernel" where
  "InitVirtualMemoryData k = k\<lparr>ptable := map init_vm_data (ptable k)\<rparr>"

definition allocproc :: "kernel \<Rightarrow> (nat option \<times> kernel) res" where
  "allocproc k =
     (case find_index (\<lambda>q. p_state q = UNUSED) (ptable k) of
        None \<Rightarrow> Ok (None, k)
      | Some p \<Rightarrow>
          (let k = upd_proc k p (\<lambda>q. q\<lparr>p_state := EMBRYO, p_pid := nextpid k\<rparr>);
               k = k\<lparr>nextpid := nextpid k + 1\<rparr>;
               (stk, k) = kalloc_k k;
               k = upd_proc k p (\<lambda>q. q\<lparr>p_kstack := stk\<rparr>)
           in if stk = 0 then Ok (None, set_state k p UNUSED)
              else
                (let k = upd_proc k p (\<lambda>q. q\<lparr>p_context := \<lparr>cx_edi = 0, cx_esi = 0, cx_ebx = 0, cx_ebp = 0,
                           cx_eip = kforkret k\<rparr>\<rparr>)
                 in bindR (if MemoryTableListHead (proc_at k p) = 0 then AllocMemoryTable k p else ClearMemoryTable k p) (\<lambda>k.
                      Ok (Some p, upd_proc k p (\<lambda>q. q\<lparr>MemoryEntryNum := 0, MemoryListHead := None, MemoryListTail := None,
                        SelfSharedMemory := replicate SHARED_MEMORY_PER_PROC 0\<rparr>))))))"

definition SEG_UCODE :: u16 where "SEG_UCODE = 3"
definition SEG_UDATA :: u16 where "SEG_UDATA = 4"
definition DPL_USER :: u16 where "DPL_USER = 3"
definition FL_IF :: u32 where "FL_IF = 0x200"

definition user_tf :: trapframe where
  "user_tf = \<lparr>tf_edi = 0, tf_esi = 0, tf_ebp = 0, tf_ebx = 0, tf_edx = 0, tf_ecx = 0, tf_eax = 0, tf_gs = 0, tf_fs = 0,
     tf_es = push_bit 3 SEG_UDATA OR DPL_USER, tf_ds = push_bit 3 SEG_UDATA OR DPL_USER, tf_trapno = 0, tf_err = 0, tf_eip = 0,
     tf_cs = push_bit 3 SEG_UCODE OR DPL_USER, tf_eflags = FL_IF, tf_esp = PGSIZE, tf_ss = push_bit 3 SEG_UDATA OR DPL_USER\<rparr>"

text \<open>\<open>initcode\<close> is the code of the first process, which the linker places in the kernel.\<close>

definition userinit :: "kernel \<Rightarrow> u8 list \<Rightarrow> kernel res" where
  "userinit k initcode =
     bindR (allocproc k) (\<lambda>(np, k).
     bindR (deref ''userinit: p'' np) (\<lambda>p.
     bindR (setupkvm (k\<lparr>initproc := np\<rparr>)) (\<lambda>(d, k).
       let k = upd_proc k p (\<lambda>q. q\<lparr>p_pgdir := d\<rparr>)
       in if d = 0 then Panic ''userinit: out of memory?''
          else
     bindR (lift_km k (inituvm (km k) d initcode)) (\<lambda>k.
     bindR (safestrcpy (p_name (proc_at k p)) (bytes ''initcode'' @ [0]) 16) (\<lambda>nm.
       let k = upd_proc k p (\<lambda>q. q\<lparr>p_sz := PGSIZE, p_tf := user_tf, p_name := nm\<rparr>)
       in bindR (namei k (bytes ''/'' @ [0])) (\<lambda>(cwd, k).
            Ok (set_state (upd_proc k p (\<lambda>q. q\<lparr>p_cwd := cwd\<rparr>)) p RUNNABLE)))))))"

definition growproc :: "kernel \<Rightarrow> int \<Rightarrow> (int \<times> kernel) res" where
  "growproc k n =
     bindR (myproc k) (\<lambda>p.
       let q = proc_at k p; sz = p_sz q; newsz = sz + word_of_int n
       in if newsz > USERTOP - p_stackSize q - PGSIZE then Ok (-1, k)
          else
            bindR (if n > 0 then allocuvm k (p_pgdir q) sz newsz
                   else if n < 0 then deallocuvm k (p_pgdir q) sz newsz else Ok (sz, k)) (\<lambda>(r, k).
              if n \<noteq> 0 \<and> r = 0 then Ok (-1, k)
              else
                bindR (switchuvm (upd_proc k p (\<lambda>q. q\<lparr>p_sz := r\<rparr>)) (Some p)) (\<lambda>k. Ok (0, k))))"

text \<open>The files of the child.\<close>

primrec dup_files :: "nat list \<Rightarrow> kernel \<Rightarrow> nat \<Rightarrow> nat \<Rightarrow> kernel res" where
  "dup_files [] k p np = Ok k"
| "dup_files (i # is) k p np =
     (case p_ofile (proc_at k p) ! i of
        None \<Rightarrow> dup_files is k p np
      | Some f \<Rightarrow> bindR (filedup k f) (\<lambda>(f, k). dup_files is (set_fd k np i (Some f)) p np))"

text \<open>
  Copying the swap file. Offsets beyond the seventh file make \<open>ReadSwapFile\<close> panic, and a piece that is copied has at
  least one byte, so the fuel is enough.
\<close>

definition FORK_FUEL :: nat where "FORK_FUEL = Suc (7 * 65536)"

primrec copy_swap_file :: "nat \<Rightarrow> kernel \<Rightarrow> nat \<Rightarrow> nat \<Rightarrow> u32 \<Rightarrow> kernel res" where
  "copy_swap_file 0 k p np offset = Fault ''fork: swap file''"
| "copy_swap_file (Suc n) k p np offset =
     bindR (ReadSwapFile k p offset 2048) (\<lambda>(nread, bs, k).
       if nread = 0 then Ok k
       else
         bindR (WriteSwapFile k np bs offset (word_of_int nread)) (\<lambda>(r, k).
           if r = -1 then Panic ''[ERROR] Copying swapfile in fork().''
           else copy_swap_file n k p np (offset + word_of_int nread)))"

definition fork :: "kernel \<Rightarrow> (int \<times> kernel) res" where
  "fork k =
     bindR (myproc k) (\<lambda>p.
     bindR (allocproc k) (\<lambda>(r, k). case r of None \<Rightarrow> Ok (-1, k) | Some np \<Rightarrow>
     bindR (copyuvm k (p_pgdir (proc_at k p)) (p_sz (proc_at k p))) (\<lambda>(d, k).
       let k = upd_proc k np (\<lambda>q. q\<lparr>p_pgdir := d\<rparr>)
       in if d = 0 then
            bindR (lift_km k (kfree (km k) (p_kstack (proc_at k np)))) (\<lambda>k.
              Ok (-1, upd_proc k np (\<lambda>q. q\<lparr>p_kstack := 0, p_state := UNUSED\<rparr>)))
          else
            (let c = proc_at k p;
                 k = upd_proc k np (\<lambda>q. q\<lparr>p_sz := p_sz c, p_stackSize := p_stackSize c, p_parent := Some p,
                       p_tf := (p_tf c)\<lparr>tf_eax := 0\<rparr>\<rparr>)
             in
     bindR (dup_files [0 ..< NOFILE] k p np) (\<lambda>k.
     bindR (deref ''fork: cwd'' (p_cwd (proc_at k p))) (\<lambda>cwd.
       let (cwd, k) = idup k cwd; k = upd_proc k np (\<lambda>q. q\<lparr>p_cwd := Some cwd\<rparr>)
       in
     bindR (safestrcpy (p_name (proc_at k np)) (p_name (proc_at k p)) 16) (\<lambda>nm.
       let k = upd_proc k np (\<lambda>q. q\<lparr>p_name := nm\<rparr>); pid = p_pid (proc_at k np)
       in
     bindR (InitializeSwapFiles k np) (\<lambda>(_, k).
     bindR (kstrcmp (p_name (proc_at k p)) (bytes ''init'' @ [0])) (\<lambda>c1.
     bindR (if c1 = 0 then Ok 0 else kstrcmp (p_name (proc_at k p)) (bytes ''sh'' @ [0])) (\<lambda>c2.
     bindR (if c1 \<noteq> 0 \<and> c2 \<noteq> 0 then copy_swap_file FORK_FUEL k p np 0 else Ok k) (\<lambda>k.
     bindR (CopyVirtualMemoryData k np p) (\<lambda>(r, k).
       if r = -1 then Ok (-1, k) else Ok (pid, set_state k np RUNNABLE)))))))))))))"

subsection \<open>Giving up the CPU\<close>

definition sched :: "kernel \<Rightarrow> kernel res" where
  "sched k =
     bindR (myproc k) (\<lambda>p.
       if p_state (proc_at k p) = RUNNING then Panic ''sched running''
       else Ok ((switchkvm k)\<lparr>curproc := None\<rparr>))"

definition yield :: "kernel \<Rightarrow> kernel res" where
  "yield k = bindR (myproc k) (\<lambda>p. sched (set_state k p RUNNABLE))"

definition sleep :: "kernel \<Rightarrow> chan \<Rightarrow> kernel res" where
  "sleep k ch =
     (case curproc k of None \<Rightarrow> Panic ''sleep''
      | Some p \<Rightarrow> sched (upd_proc k p (\<lambda>q. q\<lparr>p_chan := Some ch, p_state := SLEEPING\<rparr>)))"

text \<open>What \<open>sleep\<close> does once the process runs again.\<close>

definition sleep_resume :: "kernel \<Rightarrow> kernel res" where
  "sleep_resume k = bindR (myproc k) (\<lambda>p. Ok (upd_proc k p (\<lambda>q. q\<lparr>p_chan := None\<rparr>)))"

text \<open>The scheduler: the next runnable process of the pass over the table, and the switch to it.\<close>

definition next_runnable :: "kernel \<Rightarrow> nat \<Rightarrow> nat option" where
  "next_runnable k i = map_option (\<lambda>j. i + j) (find_index (\<lambda>q. p_state q = RUNNABLE) (drop i (ptable k)))"

definition run_process :: "kernel \<Rightarrow> nat \<Rightarrow> kernel res" where
  "run_process k p =
     bindR (switchuvm (k\<lparr>curproc := Some p\<rparr>) (Some p)) (\<lambda>k. Ok (set_state k p RUNNING))"

text \<open>
  One turn of the scheduler from position \<open>i\<close> of its pass: the process it switches to and the new state. At the end of the
  table the pass starts again.
\<close>

definition scheduler :: "kernel \<Rightarrow> nat \<Rightarrow> (nat option \<times> kernel) res" where
  "scheduler k i =
     (case next_runnable k i of
        Some p \<Rightarrow> bindR (run_process k p) (\<lambda>k. Ok (Some p, k))
      | None \<Rightarrow> Ok (None, k))"

definition forkret :: "kernel \<Rightarrow> kernel res" where
  "forkret k =
     (if forkret_first k then
        bindR (iinit (k\<lparr>forkret_first := False\<rparr>) ROOTDEV) (\<lambda>k. initlog k ROOTDEV)
      else Ok k)"

subsection \<open>Exit, wait and kill\<close>

primrec close_files :: "nat list \<Rightarrow> kernel \<Rightarrow> nat \<Rightarrow> kernel res" where
  "close_files [] k p = Ok k"
| "close_files (fd # fds) k p =
     (case p_ofile (proc_at k p) ! fd of
        None \<Rightarrow> close_files fds k p
      | Some f \<Rightarrow> bindR (fileclose k f) (\<lambda>k. close_files fds (set_fd k p fd None) p))"

primrec drop_shared :: "nat list \<Rightarrow> kernel \<Rightarrow> nat \<Rightarrow> kernel res" where
  "drop_shared [] k p = Ok k"
| "drop_shared (i # is) k p =
     (let s = SelfSharedMemory (proc_at k p) ! i
      in if s \<noteq> 0 then bindR (DeallocSharedMemory k s) (\<lambda>(_, k). drop_shared is (attach k p i 0) p)
         else drop_shared is k p)"

text \<open>One process of the loop that passes abandoned children to \<open>init\<close>.\<close>

definition reparent :: "nat \<Rightarrow> nat \<Rightarrow> kernel \<Rightarrow> kernel" where
  "reparent p i k =
     (if p_parent (proc_at k i) = Some p then
        (let k = upd_proc k i (\<lambda>q. q\<lparr>p_parent := initproc k\<rparr>)
         in if p_state (proc_at k i) = ZOMBIE
            then (case initproc k of None \<Rightarrow> k | Some ini \<Rightarrow> wakeup1 k (ChProc ini)) else k)
      else k)"

definition exit :: "kernel \<Rightarrow> kernel res" where
  "exit k =
     bindR (myproc k) (\<lambda>p.
       if initproc k = Some p then Panic ''init exiting''
       else
     bindR (close_files [0 ..< NOFILE] k p) (\<lambda>k.
     bindR (ClearSwapFiles k p) (\<lambda>(r, k).
       if r \<noteq> 0 then Panic ''[ERROR] Remove swap file error.''
       else
     bindR (drop_shared [0 ..< SHARED_MEMORY_PER_PROC] k p) (\<lambda>k.
     bindR (begin_op k) (\<lambda>k.
     bindR (deref ''exit: cwd'' (p_cwd (proc_at k p))) (\<lambda>cwd.
     bindR (iput k cwd) (\<lambda>k.
     bindR (end_op k) (\<lambda>k.
       let k = upd_proc k p (\<lambda>q. q\<lparr>p_cwd := None\<rparr>);
           k = (case p_parent (proc_at k p) of None \<Rightarrow> k | Some pp \<Rightarrow> wakeup1 k (ChProc pp));
           k = fold (reparent p) [0 ..< length (ptable k)] k
       in sched (set_state k p ZOMBIE)))))))))"

text \<open>Freeing the zombie \<open>c\<close>.\<close>

definition reap :: "kernel \<Rightarrow> nat \<Rightarrow> (int \<times> kernel) res" where
  "reap k c =
     (let pid = p_pid (proc_at k c)
      in bindR (lift_km k (kfree (km k) (p_kstack (proc_at k c)))) (\<lambda>k.
         bindR (freevm (upd_proc k c (\<lambda>q. q\<lparr>p_kstack := 0\<rparr>)) (p_pgdir (proc_at k c))) (\<lambda>k.
           Ok (pid, upd_proc k c (\<lambda>q. q\<lparr>p_pid := 0, p_parent := None, p_name := (p_name q)[0 := 0], p_killed := False,
             p_state := UNUSED\<rparr>)))))"

definition wait :: "kernel \<Rightarrow> (int \<times> kernel) res" where
  "wait k =
     bindR (myproc k) (\<lambda>p.
       case find_index (\<lambda>q. p_parent q = Some p \<and> p_state q = ZOMBIE) (ptable k) of
         Some c \<Rightarrow> reap k c
       | None \<Rightarrow>
           if \<not> (\<exists>q \<in> set (ptable k). p_parent q = Some p) \<or> p_killed (proc_at k p) then Ok (-1, k)
           else Sleep ''wait'')"

definition kill :: "kernel \<Rightarrow> int \<Rightarrow> int \<times> kernel" where
  "kill k pid =
     (case find_index (\<lambda>q. p_pid q = pid) (ptable k) of
        None \<Rightarrow> (-1, k)
      | Some p \<Rightarrow> (0, upd_proc k p (\<lambda>q. q\<lparr>p_killed := True, p_state := if p_state q = SLEEPING then RUNNABLE else p_state q\<rparr>)))"

subsection \<open>Listings\<close>

definition IntToChar :: "u32 \<Rightarrow> u8 list" where
  "IntToChar num = [ucast (drop_bit 24 num AND 0xff), ucast (drop_bit 16 num AND 0xff), ucast (drop_bit 8 num AND 0xff),
     ucast (num AND 0xff)]"

definition put_info :: "kernel \<Rightarrow> u32 \<Rightarrow> int \<Rightarrow> kernel res" where
  "put_info k va n = ustores (IntToChar (word_of_int n)) k va"

text \<open>The loop of \<open>GetMemoryInfo\<close> over the processes; \<open>n\<close> is the number counted so far. It returns the final count.\<close>

primrec memory_info_loop :: "nat list \<Rightarrow> kernel \<Rightarrow> u32 \<Rightarrow> nat \<Rightarrow> (nat \<times> kernel) res" where
  "memory_info_loop [] k ResultList n = Ok (n, k)"
| "memory_info_loop (i # is) k ResultList n =
     (let q = proc_at k i
      in if p_state q = UNUSED \<or> p_state q = EMBRYO \<or> p_state q = ZOMBIE then memory_info_loop is k ResultList n
         else
           (let n = Suc n; Base = ResultList + of_nat (n * 16)
            in bindR (put_info k Base (p_pid q)) (\<lambda>k.
               bindR (put_info k (Base + 4) (MemoryEntryNum q)) (\<lambda>k.
               bindR (put_info k (Base + 8) (SwapPageNum q)) (\<lambda>k.
               bindR (put_info k (Base + 12) (GetProcessSharedMemoryInfo k i)) (\<lambda>k.
                 memory_info_loop is k ResultList n))))))"

definition GetMemoryInfo :: "kernel \<Rightarrow> u32 \<Rightarrow> kernel res" where
  "GetMemoryInfo k ResultList =
     (let PhysicalMemoryUsed = GetPhysicalPageTotal (km k); SharedMemoryGlobal = GetGlobalSharedMemoryInfo k
      in bindR (memory_info_loop [0 ..< length (ptable k)] k ResultList 0) (\<lambda>(ProcessNumber, k).
         bindR (put_info k ResultList (int ProcessNumber)) (\<lambda>k.
         bindR (put_info k (ResultList + 4) PhysicalMemoryUsed) (\<lambda>k.
           put_info k (ResultList + 8) SharedMemoryGlobal))))"

primrec state_name :: "procstate \<Rightarrow> string" where
  "state_name UNUSED = ''unused''"
| "state_name EMBRYO = ''embryo''"
| "state_name SLEEPING = ''sleep ''"
| "state_name RUNNABLE = ''runble''"
| "state_name RUNNING = ''run   ''"
| "state_name ZOMBIE = ''zombie''"

primrec print_pcs :: "u32 list \<Rightarrow> kernel \<Rightarrow> kernel res" where
  "print_pcs [] k = Ok k"
| "print_pcs (w # ws) k = (if w = 0 then Ok k else bindR (kprintf k '' %p'' [PWord w]) (print_pcs ws))"

text \<open>\<open>stk\<close> is the memory of the kernel stacks, by word address.\<close>

primrec procdump_loop :: "proc list \<Rightarrow> (u32 \<Rightarrow> u32) \<Rightarrow> kernel \<Rightarrow> kernel res" where
  "procdump_loop [] stk k = Ok k"
| "procdump_loop (q # qs) stk k =
     (if p_state q = UNUSED then procdump_loop qs stk k
      else
        bindR (kprintf k ''%d %s %s'' [PWord (word_of_int (p_pid q)), PStr (Some (bytes (state_name (p_state q)) @ [0])),
                 PStr (Some (p_name q))]) (\<lambda>k.
        bindR (if p_state q = SLEEPING then print_pcs (getcallerpcs stk (cx_ebp (p_context q)) 10) k else Ok k) (\<lambda>k.
        bindR (kprintf k ''\<newline>'' []) (procdump_loop qs stk))))"

definition procdump :: "kernel \<Rightarrow> (u32 \<Rightarrow> u32) \<Rightarrow> kernel res" where
  "procdump k stk = procdump_loop (ptable k) stk k"

end
