(* ===== verification/Exec.thy ===== *)
theory Exec
  imports Proc
begin

text \<open>
  Loading a program (\<open>exec.c\<close>, with the ELF structures of \<open>elf.h\<close>), the system calls on processes and memory (\<open>sysproc.c\<close>),
  the system call table (\<open>syscall.c\<close>) and the trap handler (\<open>trap.c\<close>).
\<close>

subsection \<open>\<open>exec\<close>\<close>

definition ELF_MAGIC :: u32 where "ELF_MAGIC = 0x464C457F"
definition ELF_PROG_LOAD :: u32 where "ELF_PROG_LOAD = 1"

record elfhdr =
  e_magic :: u32
  e_entry :: u32
  e_phoff :: u32
  e_phnum :: u16

definition ELFHDR_SIZE :: nat where "ELFHDR_SIZE = 52"

definition get_elfhdr :: "u8 list \<Rightarrow> elfhdr" where
  "get_elfhdr bs = \<lparr>e_magic = rd32 bs 0, e_entry = rd32 bs 24, e_phoff = rd32 bs 28, e_phnum = rd16 bs 44\<rparr>"

record proghdr =
  ph_type :: u32
  ph_off :: u32
  ph_vaddr :: u32
  ph_filesz :: u32
  ph_memsz :: u32

definition PROGHDR_SIZE :: nat where "PROGHDR_SIZE = 32"

definition get_proghdr :: "u8 list \<Rightarrow> proghdr" where
  "get_proghdr bs = \<lparr>ph_type = rd32 bs 0, ph_off = rd32 bs 4, ph_vaddr = rd32 bs 8, ph_filesz = rd32 bs 16, ph_memsz = rd32 bs 20\<rparr>"

text \<open>The loop over the program headers, from offset \<open>off\<close> on; \<open>None\<close> for the jump to \<open>bad\<close>.\<close>

primrec load_segments :: "nat \<Rightarrow> kernel \<Rightarrow> nat \<Rightarrow> u32 \<Rightarrow> u32 \<Rightarrow> u32 \<Rightarrow> (u32 option \<times> kernel) res" where
  "load_segments 0 k ip pgdir sz off = Ok (Some sz, k)"
| "load_segments (Suc n) k ip pgdir sz off =
     bindR (readi k ip off (of_nat PROGHDR_SIZE)) (\<lambda>(r, bs, k).
       if r \<noteq> int PROGHDR_SIZE then Ok (None, k)
       else
         (let ph = get_proghdr bs; off' = off + of_nat PROGHDR_SIZE
          in if ph_type ph \<noteq> ELF_PROG_LOAD then load_segments n k ip pgdir sz off'
             else if ph_memsz ph < ph_filesz ph then Ok (None, k)
             else if ph_vaddr ph + ph_memsz ph < ph_vaddr ph then Ok (None, k)
             else
               bindR (allocuvm k pgdir sz (ph_vaddr ph + ph_memsz ph)) (\<lambda>(sz, k).
                 if sz = 0 then Ok (None, k)
                 else if ph_vaddr ph mod PGSIZE \<noteq> 0 then Ok (None, k)
                 else
                   bindR (loaduvm k pgdir (ph_vaddr ph) ip (ph_off ph) (ph_filesz ph)) (\<lambda>(r, k).
                     if r < 0 then Ok (None, k) else load_segments n k ip pgdir sz off'))))"

text \<open>Pushing the argument strings; it returns the stack pointer and their addresses, in order.\<close>

fun push_args :: "u8 list list \<Rightarrow> nat \<Rightarrow> kernel \<Rightarrow> u32 \<Rightarrow> u32 \<Rightarrow> u32 list \<Rightarrow> ((u32 \<times> u32 list) option \<times> kernel) res" where
  "push_args [] argc k pgdir sp addrs = Ok (Some (sp, addrs), k)"
| "push_args (s # ss) argc k pgdir sp addrs =
     (if argc \<ge> MAXARG then Ok (None, k)
      else
        bindR (strlen s) (\<lambda>len.
          let sp = (sp - (word_of_int len + 1)) AND NOT 3
          in bindR (copyout (km k) pgdir sp (take (nat len + 1) s)) (\<lambda>(r, m).
               let k = k\<lparr>km := m\<rparr>
               in if r < 0 then Ok (None, k) else push_args ss (Suc argc) k pgdir sp (addrs @ [sp]))))"

text \<open>The part of the path after its last slash.\<close>

fun last_elem :: "u8 list \<Rightarrow> u8 list \<Rightarrow> u8 list" where
  "last_elem lst [] = lst"
| "last_elem lst (c # s) = (if c = 0 then lst else last_elem (if c = 47 then s else lst) s)"

text \<open>The label \<open>bad\<close>.\<close>

definition exec_bad :: "kernel \<Rightarrow> u32 \<Rightarrow> nat option \<Rightarrow> (int \<times> kernel) res" where
  "exec_bad k pgdir ip =
     bindR (if pgdir \<noteq> 0 then freevm k pgdir else Ok k) (\<lambda>k.
       case ip of
         None \<Rightarrow> Ok (-1, k)
       | Some ip \<Rightarrow> bindR (iunlockput k ip) (\<lambda>k. end_with k (-1)))"

text \<open>From the user stack on: \<open>sz\<close> is the heap bottom, \<open>entry\<close> the program's entry point.\<close>

definition exec_stack :: "kernel \<Rightarrow> nat \<Rightarrow> u8 list \<Rightarrow> u8 list list \<Rightarrow> u32 \<Rightarrow> u32 \<Rightarrow> u32 \<Rightarrow> (int \<times> kernel) res" where
  "exec_stack k p path argv pgdir sz entry =
     bindR (stackGrow (upd_proc k p (\<lambda>q. q\<lparr>p_stackSize := 0\<rparr>)) pgdir) (\<lambda>(ok, k).
       if \<not> ok then exec_bad k pgdir None
       else
     bindR (push_args argv 0 k pgdir USERTOP []) (\<lambda>(r, k). case r of None \<Rightarrow> exec_bad k pgdir None | Some (sp, addrs) \<Rightarrow>
       let argc = length addrs;
           ustack = [0xffffffff, of_nat argc, sp - of_nat ((argc + 1) * 4)] @ addrs @ [0];
           sp = sp - of_nat ((3 + argc + 1) * 4)
       in
     bindR (copyout (km k) pgdir sp (concat (map enc32 ustack))) (\<lambda>(r, m).
       let k = k\<lparr>km := m\<rparr>
       in if r < 0 then exec_bad k pgdir None
          else
     bindR (safestrcpy (p_name (proc_at k p)) (last_elem path path) 16) (\<lambda>nm.
       let oldpgdir = p_pgdir (proc_at k p);
           k = upd_proc k p (\<lambda>q. q\<lparr>p_name := nm, p_pgdir := pgdir, p_sz := sz, p_stackSize := PGSIZE,
                 p_tf := (p_tf q)\<lparr>tf_eip := entry, tf_esp := sp\<rparr>\<rparr>)
       in
     bindR (ClearSwapFiles k p) (\<lambda>(_, k).
     bindR (InitializeSwapFiles k p) (\<lambda>(_, k).
     bindR (switchuvm k (Some p)) (\<lambda>k.
     bindR (freevm k oldpgdir) (\<lambda>k. Ok (0, k)))))))))"

definition exec :: "kernel \<Rightarrow> u8 list \<Rightarrow> u8 list list \<Rightarrow> (int \<times> kernel) res" where
  "exec k path argv =
     bindR (myproc k) (\<lambda>p.
     bindR (begin_op k) (\<lambda>k.
     bindR (namei k path) (\<lambda>(r, k).
       case r of
         None \<Rightarrow> bindR (end_op k) (\<lambda>k. bindR (kprintf k ''exec: fail\<newline>'' []) (\<lambda>k. Ok (-1, k)))
       | Some ip \<Rightarrow>
     bindR (ilock k (Some ip)) (\<lambda>k.
     bindR (readi k ip 0 (of_nat ELFHDR_SIZE)) (\<lambda>(r, bs, k).
       if r \<noteq> int ELFHDR_SIZE then exec_bad k 0 (Some ip)
       else
         (let elf = get_elfhdr bs
          in if e_magic elf \<noteq> ELF_MAGIC then exec_bad k 0 (Some ip)
             else
     bindR (setupkvm k) (\<lambda>(pgdir, k).
       if pgdir = 0 then exec_bad k 0 (Some ip)
       else
     bindR (ClearMemoryTable k p) (\<lambda>k.
     bindR (ClearSwapTable k p) (\<lambda>k.
     bindR (load_segments (unat (e_phnum elf)) k ip pgdir PGSIZE (e_phoff elf)) (\<lambda>(r, k).
       case r of
         None \<Rightarrow> exec_bad k pgdir (Some ip)
       | Some sz \<Rightarrow>
     bindR (iunlockput k ip) (\<lambda>k.
     bindR (end_op k) (\<lambda>k. exec_stack k p path argv pgdir (PGROUNDUP sz) (e_entry elf)))))))))))))"

text \<open>The loop of \<open>sys_exec\<close> over the argument vector at \<open>uargv\<close>; \<open>None\<close> for the result -1.\<close>

primrec fetch_args :: "nat \<Rightarrow> kernel \<Rightarrow> u32 \<Rightarrow> u8 list list option res" where
  "fetch_args 0 k uargv = Ok None"
| "fetch_args (Suc n) k uargv =
     bindR (fetchint k uargv) (\<lambda>r. case r of None \<Rightarrow> Ok None | Some uarg \<Rightarrow>
       if uarg = 0 then Ok (Some [])
       else
     bindR (fetchstr k uarg) (\<lambda>r. case r of None \<Rightarrow> Ok None | Some (_, s) \<Rightarrow>
     bindR (fetch_args n k (uargv + 4)) (\<lambda>r. Ok (map_option (\<lambda>ss. s # ss) r))))"

definition sys_exec :: "kernel \<Rightarrow> (int \<times> kernel) res" where
  "sys_exec k =
     bindR (argstr k 0) (\<lambda>r. case r of None \<Rightarrow> Ok (-1, k) | Some (_, path) \<Rightarrow>
     bindR (argint k 1) (\<lambda>r. case r of None \<Rightarrow> Ok (-1, k) | Some uargv \<Rightarrow>
     bindR (fetch_args MAXARG k uargv) (\<lambda>r. case r of None \<Rightarrow> Ok (-1, k) | Some argv \<Rightarrow> exec k path argv)))"

subsection \<open>System calls on processes and memory\<close>

definition sys_fork :: "kernel \<Rightarrow> (int \<times> kernel) res" where
  "sys_fork k = fork k"

definition sys_wait :: "kernel \<Rightarrow> (int \<times> kernel) res" where
  "sys_wait k = wait k"

definition sys_kill :: "kernel \<Rightarrow> (int \<times> kernel) res" where
  "sys_kill k = bindR (argint k 0) (\<lambda>r. case r of None \<Rightarrow> Ok (-1, k) | Some pid \<Rightarrow> Ok (kill k (sint pid)))"

definition sys_getpid :: "kernel \<Rightarrow> (int \<times> kernel) res" where
  "sys_getpid k = bindR (myproc k) (\<lambda>p. Ok (p_pid (proc_at k p), k))"

definition sys_sbrk :: "kernel \<Rightarrow> (int \<times> kernel) res" where
  "sys_sbrk k =
     bindR (myproc k) (\<lambda>p.
     bindR (argint k 0) (\<lambda>r. case r of None \<Rightarrow> Ok (-1, k) | Some n \<Rightarrow>
       let addr = sint (p_sz (proc_at k p))
       in
     bindR (growproc k (sint n)) (\<lambda>(r, k).
       if r < 0 then Ok (-1, k)
       else if p_sz (proc_at k p) + n > USERTOP - p_stackSize (proc_at k p) - PGSIZE then Ok (-1, k)
       else Ok (addr, upd_proc k p (\<lambda>q. q\<lparr>p_sz := p_sz q + n\<rparr>)))))"

definition sys_sleep :: "kernel \<Rightarrow> (int \<times> kernel) res" where
  "sys_sleep k =
     bindR (argint k 0) (\<lambda>r. case r of None \<Rightarrow> Ok (-1, k) | Some n \<Rightarrow>
       if \<not> 0 < n then Ok (0, k)
       else bindR (myproc k) (\<lambda>p. if p_killed (proc_at k p) then Ok (-1, k) else Sleep ''ticks''))"

definition sys_uptime :: "kernel \<Rightarrow> (int \<times> kernel) res" where
  "sys_uptime k = Ok (sint (ticks k), k)"

definition sys_AllocSharedMemory :: "kernel \<Rightarrow> (int \<times> kernel) res" where
  "sys_AllocSharedMemory k =
     bindR (argint k 0) (\<lambda>r. case r of None \<Rightarrow> Ok (-1, k) | Some sig \<Rightarrow> AllocSharedMemory k (sint sig))"

definition sys_DeallocSharedMemory :: "kernel \<Rightarrow> (int \<times> kernel) res" where
  "sys_DeallocSharedMemory k =
     bindR (argint k 0) (\<lambda>r. case r of None \<Rightarrow> Ok (-1, k) | Some sig \<Rightarrow> DeallocSharedMemory k (sint sig))"

definition sys_ReadSharedMemory :: "kernel \<Rightarrow> (int \<times> kernel) res" where
  "sys_ReadSharedMemory k =
     bindR (argint k 0) (\<lambda>r. case r of None \<Rightarrow> Ok (-1, k) | Some sig \<Rightarrow>
     bindR (argptr k 1 PGSIZE) (\<lambda>r. case r of None \<Rightarrow> Ok (-1, k) | Some content \<Rightarrow>
     bindR (ReadSharedMemory k (sint sig)) (\<lambda>(r, bs). bindR (ustores bs k content) (\<lambda>k. Ok (r, k)))))"

definition sys_WriteSharedMemory :: "kernel \<Rightarrow> (int \<times> kernel) res" where
  "sys_WriteSharedMemory k =
     bindR (argint k 0) (\<lambda>r. case r of None \<Rightarrow> Ok (-1, k) | Some sig \<Rightarrow>
     bindR (argstr k 1) (\<lambda>r. case r of None \<Rightarrow> Ok (-1, k) | Some (_, content) \<Rightarrow>
       WriteSharedMemory k (sint sig) content))"

definition sys_GetMemoryInfo :: "kernel \<Rightarrow> (int \<times> kernel) res" where
  "sys_GetMemoryInfo k =
     bindR (argstr k 0) (\<lambda>r. case r of None \<Rightarrow> Ok (-1, k) | Some (result, _) \<Rightarrow>
     bindR (GetMemoryInfo k result) (\<lambda>k. Ok (0, k)))"

subsection \<open>Dispatch\<close>

text \<open>The table \<open>syscalls\<close>; numbers without an entry are null. \<open>SYS_exit\<close> (2) is handled by \<open>syscall\<close>: it does not return.\<close>

definition syscalls :: "nat \<Rightarrow> (kernel \<Rightarrow> (int \<times> kernel) res) option" where
  "syscalls num = map_of
     [(1, sys_fork), (3, sys_wait), (4, sys_pipe), (5, sys_read), (6, sys_kill), (7, sys_exec), (8, sys_fstat), (9, sys_chdir),
      (10, sys_dup), (11, sys_getpid), (12, sys_sbrk), (13, sys_sleep), (14, sys_uptime), (15, sys_open), (16, sys_write),
      (17, sys_mknod), (18, sys_unlink), (19, sys_link), (20, sys_mkdir), (21, sys_close), (23, sys_AllocSharedMemory),
      (24, sys_DeallocSharedMemory), (25, sys_ReadSharedMemory), (26, sys_WriteSharedMemory), (27, sys_GetMemoryInfo)] num"

definition SYS_exit :: nat where "SYS_exit = 2"

definition set_eax :: "kernel \<Rightarrow> nat \<Rightarrow> u32 \<Rightarrow> kernel" where
  "set_eax k p w = upd_proc k p (\<lambda>q. q\<lparr>p_tf := (p_tf q)\<lparr>tf_eax := w\<rparr>\<rparr>)"

definition syscall :: "kernel \<Rightarrow> kernel res" where
  "syscall k =
     bindR (myproc k) (\<lambda>p.
       let num = sint (tf_eax (p_tf (proc_at k p)))
       in if num = int SYS_exit then exit k
          else if num > 0 \<and> syscalls (nat num) \<noteq> None then
            bindR (the (syscalls (nat num)) k) (\<lambda>(r, k). Ok (set_eax k p (word_of_int r)))
          else
            bindR (kprintf k ''%d %s: unknown sys call %d\<newline>''
                     [PWord (word_of_int (p_pid (proc_at k p))), PStr (Some (p_name (proc_at k p))), PWord (word_of_int num)])
              (\<lambda>k. Ok (set_eax k p (-1))))"

subsection \<open>Traps\<close>

definition T_PGFLT :: u32 where "T_PGFLT = 14"
definition T_SYSCALL :: u32 where "T_SYSCALL = 64"
definition T_IRQ0 :: u32 where "T_IRQ0 = 32"
definition IRQ_TIMER :: u32 where "IRQ_TIMER = 0"
definition IRQ_KBD :: u32 where "IRQ_KBD = 1"
definition IRQ_COM1 :: u32 where "IRQ_COM1 = 4"
definition IRQ_IDE :: u32 where "IRQ_IDE = 14"
definition IRQ_SPURIOUS :: u32 where "IRQ_SPURIOUS = 31"

text \<open>What the devices hold when the trap occurs: the keyboard's shift state and scan codes, the serial line's bytes, and the kernel stacks.\<close>

record devices =
  kbd_shift :: u32
  kbd_pending :: "u8 list"
  uart_pending :: "u8 list"
  kstacks :: "u32 \<Rightarrow> u32"

text \<open>The end of \<open>consoleintr\<close> in the kernel: the wake-up of readers, and the process listing.\<close>

definition console_done :: "kernel \<Rightarrow> devices \<Rightarrow> (console \<times> bool \<times> bool) res \<Rightarrow> kernel res" where
  "console_done k d r =
     bindR r (\<lambda>(c, wake, dump).
       let k = k\<lparr>con := c\<rparr>; k = (if wake then wakeup k ChInput else k)
       in if dump then procdump k (kstacks d) else Ok k)"

definition user_mode :: "trapframe \<Rightarrow> bool" where
  "user_mode tf \<longleftrightarrow> tf_cs tf AND 3 = DPL_USER"

definition kernel_trap :: "kernel \<Rightarrow> trapframe \<Rightarrow> kernel res" where
  "kernel_trap k tf =
     bindR (kprintf k ''unexpected trap %d from cpu %d eip %x (cr2=0x%x)\<newline>''
              [PWord (tf_trapno tf), PWord (word_of_int (cpu_id k)), PWord (tf_eip tf), PWord (cr2 k)]) (\<lambda>k. Panic ''trap'')"

definition unexpected_trap :: "kernel \<Rightarrow> trapframe \<Rightarrow> kernel res" where
  "unexpected_trap k tf =
     (case curproc k of
        Some p \<Rightarrow>
          if tf_cs tf AND 3 = 0 then kernel_trap k tf
          else
            bindR (kprintf k ''pid %d %s: trap %d err %d on cpu %d eip 0x%x addr 0x%x--kill proc\<newline>''
                     [PWord (word_of_int (p_pid (proc_at k p))), PStr (Some (p_name (proc_at k p))), PWord (tf_trapno tf),
                      PWord (tf_err tf), PWord (word_of_int (cpu_id k)), PWord (tf_eip tf), PWord (cr2 k)])
              (\<lambda>k. Ok (kill_current k p))
      | None \<Rightarrow> kernel_trap k tf)"

definition handle_trap :: "kernel \<Rightarrow> trapframe \<Rightarrow> devices \<Rightarrow> kernel res" where
  "handle_trap k tf d =
     (let n = tf_trapno tf
      in if n = T_PGFLT then PageFault k (tf_err tf)
         else if n = T_IRQ0 + IRQ_TIMER then
           Ok (if cpu_id k = 0 then wakeup (k\<lparr>ticks := ticks k + 1\<rparr>) ChTicks else k)
         else if n = T_IRQ0 + IRQ_IDE then ideintr k
         else if n = T_IRQ0 + IRQ_IDE + 1 then Ok k
         else if n = T_IRQ0 + IRQ_KBD then console_done k d (kbdintr (con k) (kbd_shift d) (kbd_pending d))
         else if n = T_IRQ0 + IRQ_COM1 then console_done k d (uartintr (con k) (uart_pending d))
         else if n = T_IRQ0 + 7 \<or> n = T_IRQ0 + IRQ_SPURIOUS then
           kprintf k ''cpu%d: spurious interrupt at %x:%x\<newline>''
             [PWord (word_of_int (cpu_id k)), PWord (ucast (tf_cs tf)), PWord (tf_eip tf)]
         else unexpected_trap k tf)"

definition killed_in_user :: "kernel \<Rightarrow> trapframe \<Rightarrow> bool" where
  "killed_in_user k tf = (case curproc k of None \<Rightarrow> False | Some p \<Rightarrow> p_killed (proc_at k p) \<and> user_mode tf)"

text \<open>
  \<open>trap\<close>. When the process exits or yields, the result is the state with the control in the scheduler; what follows
  \<open>yield\<close> runs when the process is scheduled again, as \<open>after_yield\<close>.
\<close>

definition trap :: "kernel \<Rightarrow> trapframe \<Rightarrow> devices \<Rightarrow> kernel res" where
  "trap k tf d =
     (if tf_trapno tf = T_SYSCALL then
        bindR (myproc k) (\<lambda>p.
          if p_killed (proc_at k p) then exit k
          else
            bindR (syscall (upd_proc k p (\<lambda>q. q\<lparr>p_tf := tf\<rparr>))) (\<lambda>k.
              case curproc k of
                None \<Rightarrow> Ok k
              | Some p \<Rightarrow> if p_killed (proc_at k p) then exit k else Ok k))
      else
        bindR (handle_trap k tf d) (\<lambda>k.
          if killed_in_user k tf then exit k
          else
            (case curproc k of
               Some p \<Rightarrow>
                 if p_state (proc_at k p) = RUNNING \<and> tf_trapno tf = T_IRQ0 + IRQ_TIMER then yield k else Ok k
             | None \<Rightarrow> Ok k)))"

definition after_yield :: "kernel \<Rightarrow> trapframe \<Rightarrow> kernel res" where
  "after_yield k tf = (if killed_in_user k tf then exit k else Ok k)"

end
