(* ===== verification/Scheduling.thy ===== *)
theory Scheduling
  imports Exec
begin

text \<open>
  The scheduler's loop (\<open>proc.c\<close>) over many turns, with whatever the processes and interrupts do in between, and the two additions
  of \<open>sys_sbrk\<close>.
\<close>

subsection \<open>No process is passed over\<close>

text \<open>
  A turn of the scheduler in which \<open>p\<close> is not chosen, from a position of its pass to the next one: either another process runs,
  does anything to the kernel and comes back to the scheduler, or the pass ends and, after what interrupts do, starts
  again. All that is asked is that \<open>p\<close> stays runnable.
\<close>

inductive sched_turn :: "nat \<Rightarrow> kernel \<times> nat \<Rightarrow> kernel \<times> nat \<Rightarrow> bool" for p where
  other: "scheduler k i = Ok (Some j, k1) \<Longrightarrow> j \<noteq> p \<Longrightarrow> length (ptable k2) = length (ptable k) \<Longrightarrow>
    p_state (proc_at k2 p) = RUNNABLE \<Longrightarrow> sched_turn p (k, i) (k2, Suc j)"
| again: "scheduler k i = Ok (None, k1) \<Longrightarrow> length (ptable k2) = length (ptable k) \<Longrightarrow>
    p_state (proc_at k2 p) = RUNNABLE \<Longrightarrow> sched_turn p (k, i) (k2, 0)"

lemma next_runnable_before:
  assumes "p < length (ptable k)" and "p_state (proc_at k p) = RUNNABLE" and "i \<le> p"
  shows "\<exists>j. next_runnable k i = Some j \<and> i \<le> j \<and> j \<le> p"
proof -
  let ?P = "\<lambda>q. p_state q = RUNNABLE" and ?xs = "drop i (ptable k)"
  have n: "p - i < length ?xs" "?P (?xs ! (p - i))" using assms by auto
  then have "find_index ?P ?xs \<noteq> None" unfolding find_index_None using nth_mem by blast
  then obtain j where j: "find_index ?P ?xs = Some j" by blast
  have "\<not> p - i < j" using find_index_Some [OF j] n(2) by blast
  then show ?thesis using j assms(3) by (auto simp: next_runnable_def)
qed

lemma next_runnable_in: "next_runnable k i = Some j \<Longrightarrow> i \<le> j \<and> j < length (ptable k)"
  by (auto simp: next_runnable_def dest: find_index_Some)

lemma scheduler_chosen:
  "scheduler k i = Ok (r, k1) \<Longrightarrow> next_runnable k i = r"
  by (auto simp: scheduler_def split: option.splits elim: bindR_Ok_elim)

text \<open>How many turns \<open>p\<close> can still be passed over from position \<open>i\<close> on.\<close>

definition turns_left :: "nat \<Rightarrow> nat \<Rightarrow> nat \<Rightarrow> nat" where
  "turns_left n p i = (if i \<le> p then p - i else n - i + 1 + p)"

lemma sched_turn_less:
  assumes "sched_turn p (k, i) (k2, i2)" and "p < length (ptable k)" and "p_state (proc_at k p) = RUNNABLE"
  shows "turns_left (length (ptable k)) p i2 < turns_left (length (ptable k)) p i \<and>
    length (ptable k2) = length (ptable k) \<and> p_state (proc_at k2 p) = RUNNABLE"
  using assms(1)
proof cases
  case (other j k1)
  have j: "next_runnable k i = Some j" by (rule scheduler_chosen [OF other(2)])
  then have "i \<le> j" "j < length (ptable k)" using next_runnable_in by auto
  moreover have "j \<le> p" if "i \<le> p" using next_runnable_before [OF assms(2,3) that] j by auto
  ultimately show ?thesis using other by (auto simp: turns_left_def)
next
  case (again k1)
  have "next_runnable k i = None" by (rule scheduler_chosen [OF again(2)])
  then have "\<not> i \<le> p" using next_runnable_before [OF assms(2,3), of i] by auto
  then show ?thesis using again by (auto simp: turns_left_def)
qed

lemma sched_turns_bound:
  "(sched_turn p ^^ n) (k, i) (k2, i2) \<Longrightarrow> p < length (ptable k) \<Longrightarrow> p_state (proc_at k p) = RUNNABLE \<Longrightarrow>
   n + turns_left (length (ptable k)) p i2 \<le> turns_left (length (ptable k)) p i \<and> length (ptable k2) = length (ptable k) \<and>
   p_state (proc_at k2 p) = RUNNABLE"
proof (induction n arbitrary: k2 i2)
  case (Suc n)
  obtain k1 i1 where s: "(sched_turn p ^^ n) (k, i) (k1, i1)" "sched_turn p (k1, i1) (k2, i2)" using Suc.prems(1) by auto
  have "n + turns_left (length (ptable k)) p i1 \<le> turns_left (length (ptable k)) p i" "length (ptable k1) = length (ptable k)"
    "p_state (proc_at k1 p) = RUNNABLE" using Suc.IH [OF s(1) Suc.prems(2,3)] by auto
  moreover from this have "turns_left (length (ptable k1)) p i2 < turns_left (length (ptable k1)) p i1 \<and>
    length (ptable k2) = length (ptable k1) \<and> p_state (proc_at k2 p) = RUNNABLE" using sched_turn_less [OF s(2)] Suc.prems(2) by simp
  ultimately show ?case by simp
qed simp

text \<open>
  C39. No runnable process is passed over for ever: a process that stays runnable can be passed over in at most as many turns of
  the scheduler as there are places in the process table, whatever the processes that run in the meantime and the
  interrupts do; and from any position not behind it, the scheduler finds a process to run.
\<close>

theorem scheduler_fair:
  assumes "(sched_turn p ^^ n) (k, i) (k2, i2)" and "p < length (ptable k)" and "p_state (proc_at k p) = RUNNABLE"
  shows "n \<le> length (ptable k) \<and> p_state (proc_at k2 p) = RUNNABLE \<and>
    (i2 \<le> p \<longrightarrow> (\<exists>j. next_runnable k2 i2 = Some j \<and> i2 \<le> j \<and> j \<le> p))"
proof -
  have b: "n + turns_left (length (ptable k)) p i2 \<le> turns_left (length (ptable k)) p i" "length (ptable k2) = length (ptable k)"
    "p_state (proc_at k2 p) = RUNNABLE" using sched_turns_bound [OF assms] by auto
  have "turns_left (length (ptable k)) p i \<le> length (ptable k)" using assms(2) by (auto simp: turns_left_def)
  then have "n \<le> length (ptable k)" using b(1) by linarith
  then show ?thesis using b next_runnable_before [of p k2 i2] assms(2) by auto
qed

text \<open>Two runnable processes; the first one runs and comes back.\<close>

definition demo_two :: kernel where
  "demo_two = demo_kernel\<lparr>curproc := None, ptable := [demo_proc\<lparr>p_state := RUNNABLE\<rparr>, demo_proc\<lparr>p_state := RUNNABLE\<rparr>]\<rparr>"

theorem scheduler_fair_witness:
  "(sched_turn 1 ^^ 1) (demo_two, 0) (demo_two, 1) \<and> 1 < length (ptable demo_two) \<and> p_state (proc_at demo_two 1) = RUNNABLE \<and>
   1 \<le> length (ptable demo_two) \<and> (\<exists>j. next_runnable demo_two 1 = Some j \<and> 1 \<le> j \<and> j \<le> 1)"
proof -
  have p: "(1 :: nat) < length (ptable demo_two)" "p_state (proc_at demo_two 1) = RUNNABLE" by (simp_all add: demo_two_def)
  have "\<exists>k. scheduler demo_two 0 = Ok (Some 0, k)"
    by (simp add: scheduler_def next_runnable_def run_process_def switchuvm_def demo_two_def demo_kernel_def demo_proc_def)
  then obtain k where k: "scheduler demo_two 0 = Ok (Some 0, k)" by blast
  have "sched_turn 1 (demo_two, 0) (demo_two, Suc 0)" by (rule sched_turn.other [OF k]) (use p in simp_all)
  then have t: "(sched_turn 1 ^^ 1) (demo_two, 0) (demo_two, 1)" by (simp add: eq_OO)
  show ?thesis using scheduler_fair [OF t p] t p by simp
qed

subsection \<open>Growing a process\<close>

text \<open>
  C40. \<open>sbrk\<close> of a positive amount, when the memory for it can be had, makes the process larger by twice that amount: \<open>growproc\<close> has
  already stored the new size when \<open>sys_sbrk\<close> adds the amount again.
\<close>

theorem sbrk_adds_twice:
  assumes "curproc k = Some p" and "argint k 0 = Ok (Some n)" and "0 < sint n" and "sz = p_sz (proc_at k p)" and "sz + n \<noteq> 0"
    and "allocuvm k (p_pgdir (proc_at k p)) sz (sz + n) = Ok (sz + n, k1)"
    and "p < length (ptable k1)" and "p_kstack (proc_at k1 p) \<noteq> 0" and "p_pgdir (proc_at k1 p) \<noteq> 0"
    and "sz + n \<le> USERTOP - p_stackSize (proc_at k p) - PGSIZE" and "sz + n + n \<le> USERTOP - p_stackSize (proc_at k1 p) - PGSIZE"
  shows "\<exists>k'. sys_sbrk k = Ok (sint sz, k') \<and> p_sz (proc_at k' p) = sz + 2 * n"
proof -
  let ?k2 = "lcr3 (upd_proc k1 p (\<lambda>q. q\<lparr>p_sz := sz + n\<rparr>)) (V2P (p_pgdir (proc_at k1 p)))"
  have at: "proc_at ?k2 p = (proc_at k1 p)\<lparr>p_sz := sz + n\<rparr>" using assms(7) by (simp add: lcr3_def upd_proc_def)
  have "switchuvm (upd_proc k1 p (\<lambda>q. q\<lparr>p_sz := sz + n\<rparr>)) (Some p) = Ok ?k2"
    using assms(7-9) by (simp add: switchuvm_def upd_proc_def)
  then have "growproc k (sint n) = Ok (0, ?k2)"
    using assms(1,3,5,6,10) leD [OF assms(10)] unfolding growproc_def assms(4) by (simp add: Let_def)
  then have "sys_sbrk k = Ok (sint sz, upd_proc ?k2 p (\<lambda>q. q\<lparr>p_sz := p_sz q + n\<rparr>))"
    using assms(1,2) at leD [OF assms(11)] unfolding sys_sbrk_def assms(4) by (simp add: Let_def)
  moreover have "p_sz (proc_at (upd_proc ?k2 p (\<lambda>q. q\<lparr>p_sz := p_sz q + n\<rparr>)) p) = sz + 2 * n"
    using at assms(7) by (simp add: upd_proc_def lcr3_def)
  ultimately show ?thesis by blast
qed

text \<open>A process of 4,352 bytes asks for 8 more; the argument is on its stack, at address 0x1004.\<close>

definition demo_grow :: kernel where
  "demo_grow = demo_kernel\<lparr>km := kmem_user\<lparr>pmem := (\<lambda>pa i. if pa = 0x105000 \<and> i = 1 then 8 else pmem kmem_user pa i)\<rparr>,
     ptable := [demo_proc\<lparr>p_sz := 0x1100, p_tf := (p_tf demo_proc)\<lparr>tf_esp := 0x1000\<rparr>\<rparr>]\<rparr>"

lemma demo_grow_arg: "argint demo_grow 0 = Ok (Some 8)"
  by code_simp

lemma demo_grow_alloc: "allocuvm demo_grow 0x80103000 0x1100 0x1108 = Ok (0x1108, demo_grow)"
proof -
  have l: "allocuvm_loop (Suc n) demo_grow p pgdir 0x2000 0x1100 0x1108 = Ok (0x1108, demo_grow)" for n p pgdir by simp
  have three: "3 = Suc 2" by simp
  have "allocuvm_loop 3 demo_grow p pgdir 0x2000 0x1100 0x1108 = Ok (0x1108, demo_grow)" for p pgdir
    unfolding three by (rule l)
  moreover have "page_fuel 0x1108 = 3" by (simp add: page_fuel_def)
  moreover have "PGROUNDUP 0x1100 = 0x2000" by (simp add: mmu)
  moreover have "myproc demo_grow = Ok 0" "p_stackSize (proc_at demo_grow 0) = 0"
    by (simp_all add: myproc_def demo_grow_def demo_kernel_def demo_proc_def)
  ultimately show ?thesis by (simp add: allocuvm_def Let_def USERTOP_def KERNBASE_def PGSIZE_def del: allocuvm_loop.simps)
qed

theorem sbrk_adds_twice_witness:
  "argint demo_grow 0 = Ok (Some 8) \<and> p_sz (proc_at demo_grow 0) = 0x1100 \<and>
   (\<exists>k'. sys_sbrk demo_grow = Ok (0x1100, k') \<and> p_sz (proc_at k' 0) = 0x1110)"
proof -
  have c: "curproc demo_grow = Some 0" "p_sz (proc_at demo_grow 0) = 0x1100" "p_pgdir (proc_at demo_grow 0) = 0x80103000"
    "p_kstack (proc_at demo_grow 0) \<noteq> 0" "p_stackSize (proc_at demo_grow 0) = 0" "0 < length (ptable demo_grow)"
    by (simp_all add: demo_grow_def demo_kernel_def demo_proc_def)
  have "\<exists>k'. sys_sbrk demo_grow = Ok (sint (0x1100 :: u32), k') \<and> p_sz (proc_at k' 0) = 0x1100 + 2 * 8"
    by (rule sbrk_adds_twice [OF c(1) demo_grow_arg _ c(2) [symmetric] _ _ c(6,4)])
      (use demo_grow_alloc c in \<open>simp_all add: USERTOP_def KERNBASE_def PGSIZE_def\<close>)
  then show ?thesis using demo_grow_arg c(2) by simp
qed

end
