(* ===== verification/Cache.thy ===== *)
theory Cache
  imports Log
begin

text \<open>
  The buffer cache is a cache: what \<open>bread\<close> returns is the block's current contents, whatever is cached, and
  \<open>bwrite\<close> and \<open>brelse\<close> keep the cache in step with the disk.

  \<open>mru_list\<close> reads the doubly linked list of buffers as the list of their indices, most recently used first. \<open>bc_inv\<close> is
  the invariant of the cache between two steps of a kernel thread that holds the buffers \<open>H\<close>: it says which buffers are
  locked and referenced, that no block is cached twice, and that every clean valid buffer that is not held equals
  its block on disk.
\<close>

subsection \<open>The list of buffers\<close>

primrec chain :: "(buf \<Rightarrow> nat) \<Rightarrow> buf list \<Rightarrow> nat \<Rightarrow> nat list \<Rightarrow> nat \<Rightarrow> bool" where
  "chain l bs a [] z \<longleftrightarrow> l (bs ! a) = z"
| "chain l bs a (y # ys) z \<longleftrightarrow> l (bs ! a) = y \<and> chain l bs y ys z"

definition mru_list :: "buf list \<Rightarrow> nat list \<Rightarrow> bool" where
  "mru_list bs xs \<longleftrightarrow> length bs = Suc NBUF \<and> distinct xs \<and> set xs = {..<NBUF} \<and>
     chain b_next bs NBUF xs NBUF \<and> chain b_prev bs NBUF (rev xs) NBUF"

lemma chain_append: "chain l bs a (us @ v # vs) z \<longleftrightarrow> chain l bs a us v \<and> chain l bs v vs z"
  by (induction us arbitrary: a) auto

lemma chain_cong: "(\<And>i. i = a \<or> i \<in> set ys \<Longrightarrow> l (bs' ! i) = l (bs ! i)) \<Longrightarrow> chain l bs' a ys z = chain l bs a ys z"
  by (induction ys arbitrary: a) auto

lemma mru_list_cong:
  assumes "\<And>i. i \<le> NBUF \<Longrightarrow> b_next (bs' ! i) = b_next (bs ! i) \<and> b_prev (bs' ! i) = b_prev (bs ! i)"
    and "length bs' = length bs"
  shows "mru_list bs' xs = mru_list bs xs"
proof -
  have "chain b_next bs' NBUF xs NBUF = chain b_next bs NBUF xs NBUF"
    "chain b_prev bs' NBUF (rev xs) NBUF = chain b_prev bs NBUF (rev xs) NBUF" if "set xs = {..<NBUF}"
    using that assms(1) by (intro chain_cong; auto)+
  then show ?thesis using assms(2) by (auto simp: mru_list_def)
qed

text \<open>Walking the list either way is searching the index list.\<close>

lemma find_buf_chain:
  "chain l bs a ys NBUF \<Longrightarrow> NBUF \<notin> set ys \<Longrightarrow> length ys < n \<Longrightarrow>
   find_buf n l P bs (l (bs ! a)) = Ok (List.find (\<lambda>i. P (bs ! i)) ys)"
proof (induction ys arbitrary: a n)
  case Nil
  then show ?case by (cases n) auto
next
  case (Cons y ys)
  then obtain m where "n = Suc m" by (cases n) auto
  with Cons show ?case by auto
qed

lemma length_mru: "mru_list bs xs \<Longrightarrow> length xs = NBUF"
proof -
  assume "mru_list bs xs"
  then have "distinct xs" "set xs = {..<NBUF}" by (simp_all add: mru_list_def)
  then show ?thesis using distinct_card [of xs] by simp
qed

lemma find_buf_mru:
  assumes "mru_list bs xs"
  shows "find_buf (Suc NBUF) b_next P bs (b_next (bs ! NBUF)) = Ok (List.find (\<lambda>i. P (bs ! i)) xs)"
    and "find_buf (Suc NBUF) b_prev P bs (b_prev (bs ! NBUF)) = Ok (List.find (\<lambda>i. P (bs ! i)) (rev xs))"
  using assms length_mru [OF assms] by (intro find_buf_chain; auto simp: mru_list_def)+

text \<open>Moving a buffer to the front: first on chains of plain functions.\<close>

primrec fchain :: "(nat \<Rightarrow> nat) \<Rightarrow> nat \<Rightarrow> nat list \<Rightarrow> nat \<Rightarrow> bool" where
  "fchain f a [] z \<longleftrightarrow> f a = z"
| "fchain f a (y # ys) z \<longleftrightarrow> f a = y \<and> fchain f y ys z"

lemma chain_fchain: "chain l bs a ys z = fchain (\<lambda>i. l (bs ! i)) a ys z"
  by (induction ys arbitrary: a) auto

lemma fchain_upd [simp]: "i \<noteq> a \<Longrightarrow> i \<notin> set ys \<Longrightarrow> fchain (f(i := v)) a ys z = fchain f a ys z"
  by (induction ys arbitrary: a) auto

lemma fchain_cong: "(\<And>i. i = a \<or> i \<in> set ys \<Longrightarrow> f i = g i) \<Longrightarrow> fchain f a ys z = fchain g a ys z"
  by (induction ys arbitrary: a) auto

lemma fchain_first: "fchain f a ys z \<Longrightarrow> f a = hd (ys @ [z])"
  by (cases ys) auto

lemma fchain_at: "fchain f a (us @ b # vs) z \<Longrightarrow> f b = hd (vs @ [z]) \<and> f (last (a # us)) = b"
  by (induction us arbitrary: a) (auto dest: fchain_first)

lemma fchain_unlink:
  "fchain f a (us @ b # vs) z \<Longrightarrow> distinct (a # us @ b # vs) \<Longrightarrow> fchain (f(last (a # us) := f b)) a (us @ vs) z"
proof (induction us arbitrary: a)
  case Nil
  show ?case
  proof (cases vs)
    case Nil
    with Nil.prems show ?thesis by simp
  next
    case (Cons v ws)
    then have "fchain (f(a := f b)) v ws z = fchain f v ws z" using Nil.prems by (intro fchain_upd) auto
    moreover have "fchain f v ws z" "f b = v" using Nil.prems Cons by auto
    ultimately have "fchain (f(a := f b)) a (v # ws) z" by (simp only: fchain.simps fun_upd_same)
    then show ?thesis using Cons by (simp only: append_Nil last.simps refl if_True)
  qed
next
  case (Cons u us)
  then have "last (u # us) \<noteq> a" by (metis append_is_Nil_conv distinct.simps(2) last_in_set list.set_intros(1) Un_iff append_Cons list.distinct(1) set_append)
  with Cons show ?case by simp
qed

lemma fchain_push:
  "fchain f z xs z' \<Longrightarrow> b \<noteq> z \<Longrightarrow> b \<notin> set xs \<Longrightarrow> z \<notin> set xs \<Longrightarrow> fchain (f(b := f z, z := b)) z (b # xs) z'"
  by (cases xs) auto

lemma fchain_snoc:
  "fchain f a xs z \<Longrightarrow> b \<noteq> a \<Longrightarrow> b \<notin> set xs \<Longrightarrow> distinct (a # xs) \<Longrightarrow>
   fchain (f(b := z, last (a # xs) := b)) a (xs @ [b]) z"
proof (induction xs arbitrary: a)
  case (Cons x xs)
  then have "last (x # xs) \<noteq> a" by (metis distinct.simps(2) last_in_set list.distinct(1))
  with Cons show ?case by simp
qed auto

text \<open>The statements at the end of \<open>brelse\<close>, as a function on the array of buffers.\<close>

definition relink :: "nat \<Rightarrow> buf list \<Rightarrow> buf list" where
  "relink b bs =
     (let bs = bs[b_next (bs ! b) := (bs ! b_next (bs ! b))\<lparr>b_prev := b_prev (bs ! b)\<rparr>];
          bs = bs[b_prev (bs ! b) := (bs ! b_prev (bs ! b))\<lparr>b_next := b_next (bs ! b)\<rparr>];
          bs = bs[b := (bs ! b)\<lparr>b_next := b_next (bs ! NBUF), b_prev := NBUF\<rparr>];
          bs = bs[b_next (bs ! NBUF) := (bs ! b_next (bs ! NBUF))\<lparr>b_prev := b\<rparr>]
      in bs[NBUF := (bs ! NBUF)\<lparr>b_next := b\<rparr>])"

lemma relink_bufs: "bufs (link_front (unlink_buf k b) b) = relink b (bufs k)"
  by (simp add: link_front_def unlink_buf_def relink_def Let_def)

lemma relink_length [simp]: "length (relink b bs) = length bs"
  by (simp add: relink_def Let_def)

abbreviation nexts :: "buf list \<Rightarrow> nat \<Rightarrow> nat" where
  "nexts bs \<equiv> \<lambda>i. b_next (bs ! i)"

abbreviation prevs :: "buf list \<Rightarrow> nat \<Rightarrow> nat" where
  "prevs bs \<equiv> \<lambda>i. b_prev (bs ! i)"

lemma links_update:
  assumes "j < length bs"
  shows "nexts (bs[j := (bs ! j)\<lparr>b_next := v\<rparr>]) = (nexts bs)(j := v)" "prevs (bs[j := (bs ! j)\<lparr>b_next := v\<rparr>]) = prevs bs"
    and "nexts (bs[j := (bs ! j)\<lparr>b_prev := v\<rparr>]) = nexts bs" "prevs (bs[j := (bs ! j)\<lparr>b_prev := v\<rparr>]) = (prevs bs)(j := v)"
    and "nexts (bs[j := (bs ! j)\<lparr>b_next := v, b_prev := w\<rparr>]) = (nexts bs)(j := v)"
    and "prevs (bs[j := (bs ! j)\<lparr>b_next := v, b_prev := w\<rparr>]) = (prevs bs)(j := w)"
  using assms by (auto simp: fun_eq_iff nth_list_update)

lemma relink_links:
  assumes "length bs = Suc NBUF" and "b < NBUF" and "b_next (bs ! b) \<le> NBUF" and "b_prev (bs ! b) \<le> NBUF"
    and "b_next (bs ! b) \<noteq> b" and "b_prev (bs ! b) \<noteq> b" and "b_next (bs ! NBUF) \<le> NBUF"
  defines "N \<equiv> (nexts bs)(b_prev (bs ! b) := b_next (bs ! b))" and "P \<equiv> (prevs bs)(b_next (bs ! b) := b_prev (bs ! b))"
  shows "nexts (relink b bs) = N(b := N NBUF, NBUF := b)" and "prevs (relink b bs) = P(b := NBUF, N NBUF := b)"
proof -
  define bs1 where "bs1 = bs[b_next (bs ! b) := (bs ! b_next (bs ! b))\<lparr>b_prev := b_prev (bs ! b)\<rparr>]"
  define bs2 where "bs2 = bs1[b_prev (bs1 ! b) := (bs1 ! b_prev (bs1 ! b))\<lparr>b_next := b_next (bs1 ! b)\<rparr>]"
  define bs3 where "bs3 = bs2[b := (bs2 ! b)\<lparr>b_next := b_next (bs2 ! NBUF), b_prev := NBUF\<rparr>]"
  define bs4 where "bs4 = bs3[b_next (bs3 ! NBUF) := (bs3 ! b_next (bs3 ! NBUF))\<lparr>b_prev := b\<rparr>]"
  have r: "relink b bs = bs4[NBUF := (bs4 ! NBUF)\<lparr>b_next := b\<rparr>]"
    by (simp add: relink_def bs4_def bs3_def bs2_def bs1_def Let_def)
  have len: "length bs1 = Suc NBUF" "length bs2 = Suc NBUF" "length bs3 = Suc NBUF" "length bs4 = Suc NBUF"
    using assms(1) by (simp_all add: bs1_def bs2_def bs3_def bs4_def)
  have b1: "nexts bs1 = nexts bs" "prevs bs1 = P"
    unfolding bs1_def P_def using assms(1,3) by (simp_all add: links_update)
  have at_b: "b_next (bs1 ! b) = b_next (bs ! b)" "b_prev (bs1 ! b) = b_prev (bs ! b)"
    using fun_cong [OF b1(1), of b] fun_cong [OF b1(2), of b] assms(5) by (simp_all add: P_def)
  have b2: "nexts bs2 = N" "prevs bs2 = P"
    unfolding bs2_def at_b using links_update(1,2) [of "b_prev (bs ! b)" bs1] len(1) assms(4) b1 by (simp_all add: N_def)
  have b3: "nexts bs3 = N(b := N NBUF)" "prevs bs3 = P(b := NBUF)"
    unfolding bs3_def using links_update(5,6) [of b bs2] len(2) assms(2) b2 fun_cong [OF b2(1), of NBUF] by simp_all
  have n3: "b_next (bs3 ! NBUF) = N NBUF" using fun_cong [OF b3(1), of NBUF] assms(2) by simp
  have "N NBUF \<le> NBUF" using assms(3,7) by (auto simp: N_def)
  then have b4: "nexts bs4 = N(b := N NBUF)" "prevs bs4 = P(b := NBUF, N NBUF := b)"
    unfolding bs4_def n3 using links_update(3,4) [of "N NBUF" bs3] len(3) b3 by simp_all
  show "nexts (relink b bs) = N(b := N NBUF, NBUF := b)" "prevs (relink b bs) = P(b := NBUF, N NBUF := b)"
    unfolding r using links_update(1,2) [of NBUF bs4] len(4) b4 by simp_all
qed

lemma hd_last_rev: "hd (vs @ [z]) = last (z # rev vs)"
  by (cases vs) auto

lemma relink_mru:
  assumes "mru_list bs (us @ b # vs)"
  shows "mru_list (relink b bs) (b # us @ vs)"
proof -
  let ?z = NBUF
  have d: "distinct (?z # us @ b # vs)" and rng: "set (us @ b # vs) = {..<NBUF}" and len: "length bs = Suc NBUF"
    using assms by (auto simp: mru_list_def)
  have N: "fchain (nexts bs) ?z (us @ b # vs) ?z" and P: "fchain (prevs bs) ?z (rev vs @ b # rev us) ?z"
    using assms by (simp_all add: mru_list_def chain_fchain)
  have mem: "x \<le> NBUF" if "x \<in> set (?z # us @ vs)" for x
  proof (cases "x = ?z")
    case False
    then have "x \<in> {..<NBUF}" using that unfolding rng [symmetric] by auto
    then show ?thesis by simp
  qed simp
  have nb: "b_next (bs ! b) = hd (vs @ [?z])" and pb: "b_prev (bs ! b) = last (?z # us)"
    using fchain_at [OF N] fchain_at [OF P] hd_last_rev [of "rev us" ?z] by simp_all
  have nz: "b_next (bs ! ?z) = hd (us @ b # vs @ [?z])" using fchain_first [OF N] by simp
  have nb': "b_next (bs ! b) \<in> set (?z # vs)" and pb': "b_prev (bs ! b) \<in> set (?z # us)"
    unfolding nb pb by (cases vs; simp) (rule last_in_set; simp)
  have b: "b < NBUF" using rng by (metis in_set_conv_decomp lessThan_iff)
  have in_us: "b_next (bs ! ?z) \<in> set (us @ b # vs)" unfolding nz by (cases us) simp_all
  have in_rng: "x < NBUF" if "x \<in> set (us @ b # vs)" for x using that unfolding rng by simp
  have bounds: "b_next (bs ! b) \<le> NBUF" "b_prev (bs ! b) \<le> NBUF" "b_next (bs ! b) \<noteq> b" "b_prev (bs ! b) \<noteq> b"
    "b_next (bs ! ?z) \<le> NBUF"
  proof -
    show "b_next (bs ! b) \<le> NBUF" by (rule mem) (use nb' in auto)
    show "b_prev (bs ! b) \<le> NBUF" by (rule mem) (use pb' in auto)
    have "b \<notin> set (?z # vs)" "b \<notin> set (?z # us)" using d by auto
    then show "b_next (bs ! b) \<noteq> b" "b_prev (bs ! b) \<noteq> b" using nb' pb' by metis+
    show "b_next (bs ! ?z) \<le> NBUF" using in_rng [OF in_us] by simp
  qed
  let ?N = "(nexts bs)(b_prev (bs ! b) := b_next (bs ! b))"
  let ?P = "(prevs bs)(b_next (bs ! b) := b_prev (bs ! b))"
  have N1: "fchain ?N ?z (us @ vs) ?z" using fchain_unlink [OF N d] pb by simp
  have d2: "distinct (?z # rev vs @ b # rev us)" using d by auto
  have P1: "fchain ?P ?z (rev vs @ rev us) ?z"
    using fchain_unlink [OF P d2] nb hd_last_rev [of vs ?z] by simp
  have d3: "distinct (?z # rev vs @ rev us)" "b \<noteq> ?z" "b \<notin> set (rev vs @ rev us)" using d by auto
  have first: "?N ?z = last (?z # rev (us @ vs))" using fchain_first [OF N1] hd_last_rev [of "us @ vs" ?z] by simp
  have "fchain (?N(b := ?N ?z, ?z := b)) ?z (b # us @ vs) ?z" using N1 d by (intro fchain_push) auto
  moreover have "fchain (?P(b := ?z, ?N ?z := b)) ?z ((rev vs @ rev us) @ [b]) ?z"
    using fchain_snoc [OF P1, of b] d3 d2 unfolding first by simp
  ultimately show ?thesis
    using relink_links [OF len b bounds] d rng len by (auto simp: mru_list_def chain_fchain)
qed

text \<open>A buffer without its links.\<close>

definition core :: "buf \<Rightarrow> buf" where
  "core b = b\<lparr>b_next := 0, b_prev := 0\<rparr>"

lemma core_upd: "core x = core (bs ! j) \<Longrightarrow> map core (bs[j := x]) = map core bs"
  by (cases "j < length bs") (simp_all add: map_update list_update_same_conv list_update_beyond)

lemma core_link:
  "map core (bs[j := (bs ! j)\<lparr>b_prev := v\<rparr>]) = map core bs" "map core (bs[j := (bs ! j)\<lparr>b_next := w\<rparr>]) = map core bs"
  "map core (bs[j := (bs ! j)\<lparr>b_next := w, b_prev := v\<rparr>]) = map core bs"
  by (rule core_upd; simp add: core_def)+

lemma relink_core: "map core (relink b bs) = map core bs"
proof -
  define bs1 where "bs1 = bs[b_next (bs ! b) := (bs ! b_next (bs ! b))\<lparr>b_prev := b_prev (bs ! b)\<rparr>]"
  define bs2 where "bs2 = bs1[b_prev (bs1 ! b) := (bs1 ! b_prev (bs1 ! b))\<lparr>b_next := b_next (bs1 ! b)\<rparr>]"
  define bs3 where "bs3 = bs2[b := (bs2 ! b)\<lparr>b_next := b_next (bs2 ! NBUF), b_prev := NBUF\<rparr>]"
  define bs4 where "bs4 = bs3[b_next (bs3 ! NBUF) := (bs3 ! b_next (bs3 ! NBUF))\<lparr>b_prev := b\<rparr>]"
  have r: "relink b bs = bs4[NBUF := (bs4 ! NBUF)\<lparr>b_next := b\<rparr>]"
    by (simp add: relink_def bs4_def bs3_def bs2_def bs1_def Let_def)
  have "map core bs1 = map core bs" "map core bs2 = map core bs1" "map core bs3 = map core bs2" "map core bs4 = map core bs3"
    unfolding bs1_def bs2_def bs3_def bs4_def by (rule core_link)+
  then show ?thesis unfolding r core_link by simp
qed

lemma core_fields:
  assumes "core x = core y"
  shows "b_flags x = b_flags y" "b_dev x = b_dev y" "b_blockno x = b_blockno y" "b_lock x = b_lock y" "b_refcnt x = b_refcnt y"
    "b_data x = b_data y" "b_qnext x = b_qnext y"
  using assms by (cases x; cases y; simp add: core_def)+

subsection \<open>The invariant of the cache\<close>

text \<open>A buffer's flags: empty, valid, or valid and dirty.\<close>

definition flags_ok :: "u32 \<Rightarrow> bool" where
  "flags_ok f \<longleftrightarrow> f = 0 \<or> f = B_VALID \<or> f = B_VALID OR B_DIRTY"

definition valid :: "buf \<Rightarrow> bool" where "valid b \<longleftrightarrow> b_flags b AND B_VALID \<noteq> 0"
definition dirty :: "buf \<Rightarrow> bool" where "dirty b \<longleftrightarrow> b_flags b AND B_DIRTY \<noteq> 0"

text \<open>\<open>b\<close> caches block \<open>n\<close> of device \<open>d\<close>.\<close>

definition caches :: "u32 \<Rightarrow> u32 \<Rightarrow> buf \<Rightarrow> bool" where
  "caches d n b \<longleftrightarrow> b_dev b = d \<and> b_blockno b = n"

definition dblock :: "kernel \<Rightarrow> u32 \<Rightarrow> u32 \<Rightarrow> u8 list" where
  "dblock k d n = disk k (d AND 1) (unat n)"

definition drive_ok :: "kernel \<Rightarrow> u32 \<Rightarrow> bool" where
  "drive_ok k d \<longleftrightarrow> (d \<noteq> 0 \<longrightarrow> havedisk1 k) \<and> \<not> ide_fault k \<and> curproc k \<noteq> None \<and> idequeue k = None \<and>
     (\<forall>n < FSSIZE. length (dblock k d n) = BSIZE)"

definition bc_inv :: "kernel \<Rightarrow> u32 \<Rightarrow> nat set \<Rightarrow> bool" where
  "bc_inv k d H \<longleftrightarrow> drive_ok k d \<and> H \<subseteq> {..<NBUF} \<and> (\<exists>xs. mru_list (bufs k) xs) \<and>
     (\<forall>i < NBUF. flags_ok (b_flags (buf_at k i)) \<and> length (b_data (buf_at k i)) = BSIZE \<and>
        (sl_locked (b_lock (buf_at k i)) \<longleftrightarrow> i \<in> H) \<and> b_refcnt (buf_at k i) = (if i \<in> H then 1 else 0)) \<and>
     (\<forall>i < NBUF. \<forall>j < NBUF. b_dev (buf_at k i) = d \<and> caches d (b_blockno (buf_at k i)) (buf_at k j) \<longrightarrow> i = j) \<and>
     (\<forall>i < NBUF. b_dev (buf_at k i) = d \<and> valid (buf_at k i) \<and> \<not> dirty (buf_at k i) \<and> i \<notin> H \<longrightarrow>
        b_data (buf_at k i) = dblock k d (b_blockno (buf_at k i))) \<and>
     (\<forall>i < NBUF. b_dev (buf_at k i) = d \<and> valid (buf_at k i) \<longrightarrow> b_blockno (buf_at k i) < FSSIZE) \<and>
     (\<forall>i < NBUF. dirty (buf_at k i) \<longrightarrow> b_dev (buf_at k i) = d)"

text \<open>The blocks of a device with a buffer that is to be written.\<close>

definition dirt :: "kernel \<Rightarrow> u32 \<Rightarrow> u32 set" where
  "dirt k d = {n. \<exists>i < NBUF. caches d n (buf_at k i) \<and> dirty (buf_at k i)}"

text \<open>The contents of a block as a reader sees them.\<close>

definition view :: "kernel \<Rightarrow> u32 \<Rightarrow> u32 \<Rightarrow> u8 list" where
  "view k d n =
     (case List.find (\<lambda>i. caches d n (buf_at k i) \<and> valid (buf_at k i)) [0 ..< NBUF] of
        Some i \<Rightarrow> b_data (buf_at k i) | None \<Rightarrow> dblock k d n)"

text \<open>What block operations leave alone.\<close>

definition io_frame :: "kernel \<Rightarrow> kernel \<Rightarrow> bool" where
  "io_frame k k' \<longleftrightarrow> lg k' = lg k \<and> sb k' = sb k \<and> icache k' = icache k \<and> ftable k' = ftable k \<and> km k' = km k \<and>
     curproc k' = curproc k \<and> havedisk1 k' = havedisk1 k \<and> ide_fault k' = ide_fault k"

lemma flags_simps [simp]:
  "flags_ok 0" "flags_ok B_VALID" "flags_ok (B_VALID OR B_DIRTY)"
  by (simp_all add: flags_ok_def)

lemma wakeup_simps [simp]:
  "bufs (wakeup k ch) = bufs k" "disk (wakeup k ch) = disk k" "dwrites (wakeup k ch) = dwrites k" "lg (wakeup k ch) = lg k"
  "sb (wakeup k ch) = sb k" "icache (wakeup k ch) = icache k" "ftable (wakeup k ch) = ftable k" "km (wakeup k ch) = km k"
  "curproc (wakeup k ch) = curproc k" "havedisk1 (wakeup k ch) = havedisk1 k" "ide_fault (wakeup k ch) = ide_fault k"
  "idequeue (wakeup k ch) = idequeue k"
  by (simp_all add: wakeup_def wakeup1_def)

lemma upd_buf_simps [simp]:
  "disk (upd_buf k b f) = disk k" "dwrites (upd_buf k b f) = dwrites k" "lg (upd_buf k b f) = lg k" "sb (upd_buf k b f) = sb k"
  "icache (upd_buf k b f) = icache k" "ftable (upd_buf k b f) = ftable k" "km (upd_buf k b f) = km k"
  "curproc (upd_buf k b f) = curproc k" "havedisk1 (upd_buf k b f) = havedisk1 k" "ide_fault (upd_buf k b f) = ide_fault k"
  "idequeue (upd_buf k b f) = idequeue k" "ptable (upd_buf k b f) = ptable k"
  by (simp_all add: upd_buf_def)

lemma bc_invD:
  assumes "bc_inv k d H"
  shows "drive_ok k d" "H \<subseteq> {..<NBUF}" "length (bufs k) = Suc NBUF"
    and "i < NBUF \<Longrightarrow> flags_ok (b_flags (buf_at k i))" "i < NBUF \<Longrightarrow> length (b_data (buf_at k i)) = BSIZE"
    and "i < NBUF \<Longrightarrow> sl_locked (b_lock (buf_at k i)) \<longleftrightarrow> i \<in> H" "i < NBUF \<Longrightarrow> b_refcnt (buf_at k i) = (if i \<in> H then 1 else 0)"
    and "i < NBUF \<Longrightarrow> j < NBUF \<Longrightarrow> caches d n (buf_at k i) \<Longrightarrow> caches d n (buf_at k j) \<Longrightarrow> i = j"
    and "i < NBUF \<Longrightarrow> caches d n (buf_at k i) \<Longrightarrow> valid (buf_at k i) \<Longrightarrow> \<not> dirty (buf_at k i) \<Longrightarrow> i \<notin> H \<Longrightarrow>
      b_data (buf_at k i) = dblock k d n"
    and "i < NBUF \<Longrightarrow> caches d n (buf_at k i) \<Longrightarrow> valid (buf_at k i) \<Longrightarrow> n < FSSIZE"
    and "i < NBUF \<Longrightarrow> dirty (buf_at k i) \<Longrightarrow> b_dev (buf_at k i) = d"
  using assms unfolding bc_inv_def caches_def mru_list_def by auto

lemma bc_inv_upd:
  assumes inv: "bc_inv k d H" and b: "b < NBUF" and bs: "bufs k' = (bufs k)[b := x]"
    and links: "b_next x = b_next (buf_at k b)" "b_prev x = b_prev (buf_at k b)"
    and drv: "drive_ok k' d" and H': "H' \<subseteq> {..<NBUF}" "H' - {b} = H - {b}"
    and x: "flags_ok (b_flags x)" "length (b_data x) = BSIZE" "sl_locked (b_lock x) \<longleftrightarrow> b \<in> H'"
      "b_refcnt x = (if b \<in> H' then 1 else 0)"
    and uniq: "\<And>j. b_dev x = d \<Longrightarrow> j < NBUF \<Longrightarrow> j \<noteq> b \<Longrightarrow> \<not> caches d (b_blockno x) (buf_at k j)"
    and coh: "b_dev x = d \<Longrightarrow> valid x \<Longrightarrow> \<not> dirty x \<Longrightarrow> b \<notin> H' \<Longrightarrow> b_data x = dblock k' d (b_blockno x)"
    and rng: "b_dev x = d \<Longrightarrow> valid x \<Longrightarrow> b_blockno x < FSSIZE"
    and drt: "dirty x \<Longrightarrow> b_dev x = d"
    and dsk: "\<And>m. dblock k' d m = dblock k d m \<or> b_dev x = d \<and> b_blockno x = m"
  shows "bc_inv k' d H'"
proof -
  have len: "length (bufs k) = Suc NBUF" using bc_invD(3) [OF inv] .
  have at: "buf_at k' i = (if i = b then x else buf_at k i)" for i
    using b len by (simp add: bs nth_list_update)
  have mem: "i \<in> H' \<longleftrightarrow> i \<in> H" if "i \<noteq> b" for i using H'(2) that by blast
  obtain xs where "mru_list (bufs k) xs" using inv by (auto simp: bc_inv_def)
  then have mru: "mru_list (bufs k') xs" using mru_list_cong [of "bufs k'" "bufs k" xs] links bs at by auto
  have one: "flags_ok (b_flags (buf_at k' i)) \<and> length (b_data (buf_at k' i)) = BSIZE \<and>
      (sl_locked (b_lock (buf_at k' i)) \<longleftrightarrow> i \<in> H') \<and> b_refcnt (buf_at k' i) = (if i \<in> H' then 1 else 0)" if "i < NBUF" for i
    using that x bc_invD(4-7) [OF inv that] mem [of i] by (cases "i = b") (simp_all add: at)
  have two: "i = j" if "i < NBUF" "j < NBUF" "b_dev (buf_at k' i) = d" "caches d (b_blockno (buf_at k' i)) (buf_at k' j)" for i j
  proof (cases "i = b \<or> j = b")
    case True
    then show ?thesis using that uniq [of i] uniq [of j] by (auto simp: at caches_def split: if_splits)
  next
    case False
    then show ?thesis using that bc_invD(8) [OF inv, of i j] by (auto simp: at caches_def)
  qed
  have three: "b_data (buf_at k' i) = dblock k' d (b_blockno (buf_at k' i))"
    if "i < NBUF" "b_dev (buf_at k' i) = d" "valid (buf_at k' i)" "\<not> dirty (buf_at k' i)" "i \<notin> H'" for i
  proof (cases "i = b")
    case True
    then show ?thesis using that coh by (simp add: at)
  next
    case False
    have "dblock k' d (b_blockno (buf_at k i)) = dblock k d (b_blockno (buf_at k i))"
      using dsk [of "b_blockno (buf_at k i)"] uniq [of i] that False by (auto simp: at caches_def)
    then show ?thesis using that False bc_invD(9) [OF inv, of i "b_blockno (buf_at k i)"] mem [OF False] by (simp add: at caches_def)
  qed
  have four: "b_blockno (buf_at k' i) < FSSIZE" if "i < NBUF" "b_dev (buf_at k' i) = d" "valid (buf_at k' i)" for i
    using that rng bc_invD(10) [OF inv, of i "b_blockno (buf_at k i)"] by (auto simp: at caches_def split: if_splits)
  have five: "b_dev (buf_at k' i) = d" if "i < NBUF" "dirty (buf_at k' i)" for i
    using that drt bc_invD(11) [OF inv, of i] by (auto simp: at split: if_splits)
  show ?thesis unfolding bc_inv_def using drv H'(1) mru one two three four five by blast
qed

lemma find_SomeD: "List.find P xs = Some i \<Longrightarrow> i \<in> set xs \<and> P i"
  by (auto simp: find_Some_iff)

lemma find_unique:
  assumes "i \<in> set xs" and "P i" and uniq: "\<And>j. j \<in> set xs \<Longrightarrow> P j \<Longrightarrow> j = i"
  shows "List.find P xs = Some i"
proof (cases "List.find P xs")
  case None
  then show ?thesis using assms(1,2) by (simp add: find_None_iff)
next
  case (Some j)
  then show ?thesis using find_SomeD [OF Some] uniq by blast
qed

lemma view_cached:
  assumes "bc_inv k d H" and "i < NBUF" and "caches d n (buf_at k i)" and "valid (buf_at k i)"
  shows "view k d n = b_data (buf_at k i)"
proof -
  have "List.find (\<lambda>i. caches d n (buf_at k i) \<and> valid (buf_at k i)) [0 ..< NBUF] = Some i"
    by (rule find_unique) (use assms bc_invD(8) [OF assms(1)] in auto)
  then show ?thesis by (simp add: view_def)
qed

lemma view_uncached:
  assumes "\<And>i. i < NBUF \<Longrightarrow> caches d n (buf_at k i) \<Longrightarrow> \<not> valid (buf_at k i)"
  shows "view k d n = dblock k d n"
proof -
  have "List.find (\<lambda>i. caches d n (buf_at k i) \<and> valid (buf_at k i)) [0 ..< NBUF] = None"
    using assms by (auto simp: find_None_iff)
  then show ?thesis by (simp add: view_def)
qed

subsection \<open>One request to the drive\<close>

lemma ide_lba_id:
  assumes "s < FSSIZE"
  shows "ide_lba s = s"
proof (rule bit_word_eqI)
  fix n assume "n < LENGTH(32)"
  have "s = take_bit 28 s" using assms by (simp add: FSSIZE_def word_less_nat_alt word_unat_eq_iff unsigned_take_bit_eq take_bit_nat_eq_self)
  then have high: "bit s n \<Longrightarrow> n < 28" by (metis bit_take_bit_iff)
  have m: "(0xff :: u32) = mask 8" "(0x0f :: u32) = mask 4" by (simp_all add: mask_eq_exp_minus_1)
  consider "n < 8" | "8 \<le> n" "n < 16" | "16 \<le> n" "n < 24" | "24 \<le> n" "n < 28" | "28 \<le> n" "n < 32" using \<open>n < LENGTH(32)\<close> by force
  then show "bit (ide_lba s) n = bit s n"
    using high by cases (auto simp: ide_lba_def m bit_simps)
qed

lemma sector_id: "b_blockno x < FSSIZE \<Longrightarrow> ide_lba (ide_sector x) = b_blockno x"
  by (simp add: ide_sector_def BSIZE_def SECTOR_SIZE_def ide_lba_id)

text \<open>What \<open>iderw\<close> does to the buffer when the queue is empty, for a read and for a write.\<close>

lemma requeue_none: "idequeue k = None \<Longrightarrow> k\<lparr>idequeue := None\<rparr> = k"
  by (rule kernel.equality) simp_all

lemma idestart_read:
  "b_blockno (buf_at k b) < FSSIZE \<Longrightarrow> b_flags (buf_at k b) AND B_DIRTY = 0 \<Longrightarrow> idestart k (Some b) = Ok k"
  by (simp add: idestart_def BSIZE_def SECTOR_SIZE_def)

lemma idestart_write:
  "b_blockno (buf_at k b) < FSSIZE \<Longrightarrow> b_flags (buf_at k b) AND B_DIRTY \<noteq> 0 \<Longrightarrow>
   idestart k (Some b) = Ok (disk_write k (b_dev (buf_at k b) AND 1) (unat (b_blockno (buf_at k b))) (b_data (buf_at k b)))"
  by (simp add: idestart_def BSIZE_def SECTOR_SIZE_def sector_id)

text \<open>The interrupt at the end of the only request in the queue.\<close>

lemma ideintr_last:
  assumes "idequeue k = Some b" and "b < length (bufs k)" and "b_qnext (buf_at k b) = None" and "\<not> ide_fault k"
    and "b_blockno (buf_at k b) < FSSIZE"
  shows "ideintr k = Ok (wakeup (upd_buf (k\<lparr>idequeue := None\<rparr>) b (\<lambda>x. x\<lparr>
    b_data := (if dirty x then b_data x else dblock k (b_dev x) (b_blockno x)),
    b_flags := (b_flags x OR B_VALID) AND NOT B_DIRTY\<rparr>)) (ChBuf b))"
  using assms by (cases "dirty (buf_at k b)")
    (simp_all add: ideintr_def Let_def idewait_def upd_buf_def dirty_def dblock_def sector_id)

lemma iderw_wait_once:
  assumes "b_flags (buf_at k b) AND (B_VALID OR B_DIRTY) \<noteq> B_VALID" and "ideintr k = Ok k'"
    and "b_flags (buf_at k' b) AND (B_VALID OR B_DIRTY) = B_VALID"
  shows "iderw_wait (Suc NBUF) k b = Ok k'"
proof -
  obtain f where fuel: "NBUF = Suc f" by (cases NBUF) (simp_all add: NBUF_def)
  show ?thesis unfolding fuel using assms by simp
qed

lemma iderw_queued:
  assumes "idequeue k = None" and "b < length (bufs k)" and "sl_locked (b_lock (buf_at k b))"
    and "b_flags (buf_at k b) AND (B_VALID OR B_DIRTY) \<noteq> B_VALID" and "b_dev (buf_at k b) \<noteq> 0 \<longrightarrow> havedisk1 k"
  shows "iderw k b = bindR (idestart ((upd_buf k b (\<lambda>x. x\<lparr>b_qnext := None\<rparr>))\<lparr>idequeue := Some b\<rparr>) (Some b))
    (\<lambda>k. iderw_wait (Suc NBUF) k b)"
proof (cases "b_dev (buf_at k b) = 0")
  case True
  then show ?thesis using assms(1-4) unfolding iderw_def by (simp add: holdingsleep_def queue_append_def del: iderw_wait.simps)
next
  case False
  then have "havedisk1 k" using assms(5) by blast
  then show ?thesis using assms(1-4) unfolding iderw_def by (simp add: holdingsleep_def queue_append_def del: iderw_wait.simps)
qed

lemma upd_buf_twice: "upd_buf (upd_buf k b f) b g = upd_buf k b (g \<circ> f)"
  by (cases "b < length (bufs k)") (simp_all add: upd_buf_def list_update_beyond)

lemma upd_buf_idle: "(upd_buf (k\<lparr>idequeue := q\<rparr>) b f)\<lparr>idequeue := r\<rparr> = upd_buf (k\<lparr>idequeue := r\<rparr>) b f"
  by (simp add: upd_buf_def)

lemma upd_buf_fetch:
  "b < length (bufs k) \<Longrightarrow> f (buf_at k b) = g (buf_at k b) \<Longrightarrow> upd_buf k b f = upd_buf k b g"
  by (simp add: upd_buf_def)

lemma iderw_read:
  assumes q: "idequeue k = None" and b: "b < length (bufs k)" and l: "sl_locked (b_lock (buf_at k b))"
    and f: "b_flags (buf_at k b) = 0" and n: "b_blockno (buf_at k b) < FSSIZE"
    and "b_dev (buf_at k b) \<noteq> 0 \<longrightarrow> havedisk1 k" and e: "\<not> ide_fault k"
  shows "iderw k b = Ok (wakeup (upd_buf k b (\<lambda>x. x\<lparr>b_qnext := None,
    b_data := dblock k (b_dev x) (b_blockno x), b_flags := B_VALID\<rparr>)) (ChBuf b))"
proof -
  let ?k = "(upd_buf k b (\<lambda>x. x\<lparr>b_qnext := None\<rparr>))\<lparr>idequeue := Some b\<rparr>"
  let ?k' = "wakeup (upd_buf (?k\<lparr>idequeue := None\<rparr>) b (\<lambda>x. x\<lparr>
    b_data := (if dirty x then b_data x else dblock ?k (b_dev x) (b_blockno x)),
    b_flags := (b_flags x OR B_VALID) AND NOT B_DIRTY\<rparr>)) (ChBuf b)"
  have at: "buf_at ?k b = (buf_at k b)\<lparr>b_qnext := None\<rparr>" using b by (simp add: upd_buf_def)
  have intr: "ideintr ?k = Ok ?k'" by (rule ideintr_last) (use assms at in \<open>simp_all add: upd_buf_def\<close>)
  have "iderw_wait (Suc NBUF) ?k b = Ok ?k'"
    by (rule iderw_wait_once [OF _ intr]) (use b f in \<open>simp_all add: upd_buf_def B_VALID_def B_DIRTY_def\<close>)
  moreover have "idestart ?k (Some b) = Ok ?k" by (rule idestart_read) (use n f at in simp_all)
  moreover have "?k' = wakeup (upd_buf k b (\<lambda>x. x\<lparr>b_qnext := None,
    b_data := dblock k (b_dev x) (b_blockno x), b_flags := B_VALID\<rparr>)) (ChBuf b)"
    using requeue_none [OF q] b f by (simp add: upd_buf_def dirty_def dblock_def B_VALID_def B_DIRTY_def)
  ultimately show ?thesis using iderw_queued [OF q b l] f assms(6) by (simp add: B_VALID_def del: iderw_wait.simps)
qed

lemma iderw_write:
  assumes q: "idequeue k = None" and b: "b < length (bufs k)" and l: "sl_locked (b_lock (buf_at k b))"
    and f: "b_flags (buf_at k b) = B_VALID OR B_DIRTY" and n: "b_blockno (buf_at k b) < FSSIZE"
    and "b_dev (buf_at k b) \<noteq> 0 \<longrightarrow> havedisk1 k" and e: "\<not> ide_fault k"
  shows "iderw k b = Ok (wakeup (upd_buf
    (disk_write k (b_dev (buf_at k b) AND 1) (unat (b_blockno (buf_at k b))) (b_data (buf_at k b)))
    b (\<lambda>x. x\<lparr>b_qnext := None, b_flags := B_VALID\<rparr>)) (ChBuf b))"
proof -
  let ?k = "(upd_buf k b (\<lambda>x. x\<lparr>b_qnext := None\<rparr>))\<lparr>idequeue := Some b\<rparr>"
  let ?w = "disk_write ?k (b_dev (buf_at k b) AND 1) (unat (b_blockno (buf_at k b))) (b_data (buf_at k b))"
  let ?k' = "wakeup (upd_buf (?w\<lparr>idequeue := None\<rparr>) b (\<lambda>x. x\<lparr>
    b_data := (if dirty x then b_data x else dblock ?w (b_dev x) (b_blockno x)),
    b_flags := (b_flags x OR B_VALID) AND NOT B_DIRTY\<rparr>)) (ChBuf b)"
  have at: "buf_at ?k b = (buf_at k b)\<lparr>b_qnext := None\<rparr>" "buf_at ?w b = (buf_at k b)\<lparr>b_qnext := None\<rparr>"
    using b by (simp_all add: upd_buf_def disk_write_def)
  have intr: "ideintr ?w = Ok ?k'" by (rule ideintr_last) (use b q n e in \<open>simp_all add: upd_buf_def disk_write_def\<close>)
  have "iderw_wait (Suc NBUF) ?w b = Ok ?k'"
    by (rule iderw_wait_once [OF _ intr]) (use b f in \<open>simp_all add: upd_buf_def disk_write_def B_VALID_def B_DIRTY_def\<close>)
  moreover have "idestart ?k (Some b) = Ok ?w"
  proof -
    have "b_blockno (buf_at ?k b) < FSSIZE" "b_flags (buf_at ?k b) AND B_DIRTY \<noteq> 0"
      unfolding at(1) using n f by (simp_all add: B_VALID_def B_DIRTY_def)
    from idestart_write [OF this] show ?thesis unfolding at(1) by simp
  qed
  moreover have "?k' = wakeup (upd_buf
    (disk_write k (b_dev (buf_at k b) AND 1) (unat (b_blockno (buf_at k b))) (b_data (buf_at k b)))
    b (\<lambda>x. x\<lparr>b_qnext := None, b_flags := B_VALID\<rparr>)) (ChBuf b)"
  proof -
    let ?v = "disk_write k (b_dev (buf_at k b) AND 1) (unat (b_blockno (buf_at k b))) (b_data (buf_at k b))"
    have v: "idequeue ?v = None" "b < length (bufs ?v)" "buf_at ?v b = buf_at k b" using q b by (simp_all add: disk_write_def)
    have w: "?w\<lparr>idequeue := None\<rparr> = upd_buf ?v b (\<lambda>x. x\<lparr>b_qnext := None\<rparr>)"
      by (rule kernel.equality) (simp_all add: q upd_buf_def disk_write_def)
    have d: "dirty ((buf_at k b)\<lparr>b_qnext := None\<rparr>)" using f by (simp add: dirty_def B_VALID_def B_DIRTY_def)
    show ?thesis unfolding w upd_buf_twice
      by (rule arg_cong [where f = "\<lambda>k. wakeup k (ChBuf b)"], rule upd_buf_fetch [OF v(2)], rule buf.equality)
        (use f d v(3) in \<open>simp_all add: B_VALID_def B_DIRTY_def\<close>)
  qed
  ultimately show ?thesis using iderw_queued [OF q b l] f assms(6) by (simp add: B_VALID_def B_DIRTY_def del: iderw_wait.simps)
qed

subsection \<open>Reading, writing and releasing a block\<close>

text \<open>An operation that changes no block.\<close>

definition quiet :: "kernel \<Rightarrow> kernel \<Rightarrow> u32 \<Rightarrow> bool" where
  "quiet k k' d \<longleftrightarrow> view k' d = view k d \<and> dirt k' d = dirt k d \<and> disk k' = disk k \<and> dwrites k' = dwrites k \<and> io_frame k k'"

lemma flags_cases:
  assumes "flags_ok (b_flags x)"
  obtains "b_flags x = 0" "\<not> valid x" "\<not> dirty x" | "b_flags x = B_VALID" "valid x" "\<not> dirty x"
  | "b_flags x = B_VALID OR B_DIRTY" "valid x" "dirty x"
  using assms by (auto simp: flags_ok_def valid_def dirty_def B_VALID_def B_DIRTY_def)

lemma dirty_valid: "flags_ok (b_flags x) \<Longrightarrow> dirty x \<Longrightarrow> valid x"
  by (cases x rule: flags_cases) auto

lemma acquire_free:
  "curproc k \<noteq> None \<Longrightarrow> \<not> sl_locked (b_lock (buf_at k b)) \<Longrightarrow>
   \<exists>l. sl_locked l \<and> lock_buf k b = Ok (upd_buf k b (\<lambda>x. x\<lparr>b_lock := l\<rparr>))"
  by (rule exI [of _ "(b_lock (buf_at k b))\<lparr>sl_locked := True, sl_pid := p_pid (proc_at k (the (curproc k)))\<rparr>"])
    (auto simp: lock_buf_def myproc_def acquiresleep_def)

text \<open>One buffer changes: what becomes of the blocks seen and of the dirty blocks.\<close>

lemma view_upd:
  assumes inv: "bc_inv k d H" "bc_inv k' d H'" and b: "b < NBUF" and bs: "bufs k' = (bufs k)[b := x]"
    and dsk: "\<And>m. m \<noteq> n \<Longrightarrow> dblock k' d m = dblock k d m"
    and old: "caches d m (buf_at k b) \<Longrightarrow> valid (buf_at k b) \<Longrightarrow> m \<noteq> n \<Longrightarrow> b_data (buf_at k b) = dblock k d m"
    and new: "caches d n x" and m: "m \<noteq> n"
  shows "view k' d m = view k d m"
proof (cases "\<exists>i < NBUF. i \<noteq> b \<and> caches d m (buf_at k i) \<and> valid (buf_at k i)")
  case True
  then obtain i where i: "i < NBUF" "i \<noteq> b" "caches d m (buf_at k i)" "valid (buf_at k i)" by blast
  then have "buf_at k' i = buf_at k i" by (simp add: bs)
  then show ?thesis using view_cached [OF inv(1) i(1,3,4)] view_cached [OF inv(2) i(1)] i by simp
next
  case False
  have len: "length (bufs k) = Suc NBUF" using bc_invD(3) [OF inv(1)] .
  have "view k' d m = dblock k' d m"
  proof (rule view_uncached)
    fix i assume "i < NBUF" "caches d m (buf_at k' i)"
    then show "\<not> valid (buf_at k' i)" using False new m len b by (cases "i = b") (auto simp: bs caches_def)
  qed
  moreover have "view k d m = dblock k d m"
  proof (cases "caches d m (buf_at k b) \<and> valid (buf_at k b)")
    case True
    then show ?thesis using view_cached [OF inv(1) b] old m by simp
  next
    case False': False
    show ?thesis by (rule view_uncached) (use False False' in blast)
  qed
  ultimately show ?thesis using dsk [OF m] by simp
qed

lemma dirt_upd:
  assumes inv: "bc_inv k d H" and b: "b < NBUF" and bs: "bufs k' = (bufs k)[b := x]" and new: "caches d n x"
    and old: "dirty (buf_at k b) \<Longrightarrow> caches d n (buf_at k b)"
    and uniq: "\<And>j. j < NBUF \<Longrightarrow> j \<noteq> b \<Longrightarrow> \<not> caches d n (buf_at k j)"
  shows "dirt k' d = (if dirty x then insert n (dirt k d) else dirt k d - {n})"
proof -
  have len: "length (bufs k) = Suc NBUF" using bc_invD(3) [OF inv] .
  have at: "buf_at k' i = (if i = b then x else buf_at k i)" for i using b len by (simp add: bs nth_list_update)
  have "m \<in> dirt k' d \<longleftrightarrow> m \<in> dirt k d" if "m \<noteq> n" for m
    using that new old unfolding dirt_def at by (auto simp: caches_def split: if_splits; metis)
  moreover have "n \<in> dirt k' d \<longleftrightarrow> dirty x"
    using new uniq b unfolding dirt_def at by (auto split: if_splits)
  ultimately have "m \<in> dirt k' d \<longleftrightarrow> m \<in> (if dirty x then insert n (dirt k d) else dirt k d - {n})" for m
    by (cases "m = n") simp_all
  then show ?thesis by blast
qed

lemma card_lt_free:
  assumes "finite A" and "card A < NBUF"
  obtains i where "i < NBUF" "i \<notin> A"
proof -
  have "\<not> {..<NBUF} \<subseteq> A" using card_mono [OF assms(1), of "{..<NBUF}"] assms(2) by auto
  then show thesis using that by auto
qed

lemma free_buffer:
  assumes inv: "bc_inv k d H" and room: "card (dirt k d) + card H < NBUF"
  obtains i where "i < NBUF" "i \<notin> H" "\<not> dirty (buf_at k i)"
proof -
  let ?D = "{i. i < NBUF \<and> dirty (buf_at k i)}"
  have inj: "inj_on (\<lambda>i. b_blockno (buf_at k i)) ?D"
    using bc_invD(8,11) [OF inv] by (fastforce simp: inj_on_def caches_def)
  have img: "(\<lambda>i. b_blockno (buf_at k i)) ` ?D = dirt k d"
    using bc_invD(11) [OF inv] by (auto simp: dirt_def caches_def)
  have "card ?D = card (dirt k d)" using card_image [OF inj] img by simp
  moreover have "finite H" using bc_invD(2) [OF inv] by (rule finite_subset) simp
  ultimately have "card (?D \<union> H) < NBUF" using room card_Un_le [of ?D H] by linarith
  then obtain i where "i < NBUF" "i \<notin> ?D \<union> H"
    using card_lt_free [of "?D \<union> H"] \<open>finite H\<close> by auto
  then show thesis using that by blast
qed

lemma upd_buf_bufs [simp]: "bufs (upd_buf k b f) = (bufs k)[b := f (buf_at k b)]"
  by (simp add: upd_buf_def)

lemma upd_buf_const: "b < length (bufs k) \<Longrightarrow> upd_buf k b f = upd_buf k b (\<lambda>_. f (buf_at k b))"
  by (rule upd_buf_fetch) simp_all

text \<open>\<open>bget\<close> on a cached block, and on a block that needs the least recently used free buffer.\<close>

lemma bget_hit:
  assumes inv: "bc_inv k d H" and b: "b < NBUF" "caches d n (buf_at k b)" "b \<notin> H"
  obtains l where "sl_locked l"
    "bget k d n = Ok (b, upd_buf k b (\<lambda>_. (buf_at k b)\<lparr>b_refcnt := 1, b_lock := l\<rparr>))"
proof -
  obtain xs where mru: "mru_list (bufs k) xs" using inv by (auto simp: bc_inv_def)
  have len: "b < length (bufs k)" using bc_invD(3) [OF inv] b by simp
  have P: "(\<lambda>i. b_dev (buf_at k i) = d \<and> b_blockno (buf_at k i) = n) = (\<lambda>i. caches d n (buf_at k i))"
    by (simp add: caches_def)
  have mem: "set xs = {..<NBUF}" using mru by (simp add: mru_list_def)
  have "List.find (\<lambda>i. caches d n (buf_at k i)) xs = Some b"
    by (rule find_unique) (use b mem bc_invD(8) [OF inv] in auto)
  then have f: "find_buf (Suc NBUF) b_next (\<lambda>x. b_dev x = d \<and> b_blockno x = n) (bufs k) (b_next (buf_at k NBUF)) = Ok (Some b)"
    unfolding find_buf_mru(1) [OF mru] P by simp
  let ?k = "upd_buf k b (\<lambda>x. x\<lparr>b_refcnt := b_refcnt x + 1\<rparr>)"
  have "curproc ?k \<noteq> None" "\<not> sl_locked (b_lock (buf_at ?k b))" "b_refcnt (buf_at k b) = 0"
    using bc_invD(1,6,7) [OF inv] b len by (simp_all add: drive_ok_def)
  then obtain l where l: "sl_locked l" "lock_buf ?k b = Ok (upd_buf ?k b (\<lambda>x. x\<lparr>b_lock := l\<rparr>))"
    using acquire_free [of ?k b] by blast
  have "upd_buf ?k b (\<lambda>x. x\<lparr>b_lock := l\<rparr>) = upd_buf k b (\<lambda>_. (buf_at k b)\<lparr>b_refcnt := 1, b_lock := l\<rparr>)"
    unfolding upd_buf_twice by (rule upd_buf_fetch [OF len], rule buf.equality) (use \<open>b_refcnt (buf_at k b) = 0\<close> in simp_all)
  then have "bget k d n = Ok (b, upd_buf k b (\<lambda>_. (buf_at k b)\<lparr>b_refcnt := 1, b_lock := l\<rparr>))"
    unfolding bget_def f using l(2) by simp
  then show thesis using that l(1) by blast
qed

lemma bget_miss:
  assumes inv: "bc_inv k d H" and none: "\<And>i. i < NBUF \<Longrightarrow> \<not> caches d n (buf_at k i)"
    and mru: "mru_list (bufs k) xs" and b: "List.find (\<lambda>i. i \<notin> H \<and> \<not> dirty (buf_at k i)) (rev xs) = Some b"
  obtains l where "sl_locked l"
    "bget k d n = Ok (b, upd_buf k b (\<lambda>_. (buf_at k b)\<lparr>b_dev := d, b_blockno := n, b_flags := 0, b_refcnt := 1, b_lock := l\<rparr>))"
proof -
  have mem: "set xs = {..<NBUF}" using mru by (simp add: mru_list_def)
  have bn: "b < NBUF" "b \<notin> H" "\<not> dirty (buf_at k b)" using find_SomeD [OF b] mem by auto
  have len: "b < length (bufs k)" using bc_invD(3) [OF inv] bn by simp
  have f: "find_buf (Suc NBUF) b_next (\<lambda>x. b_dev x = d \<and> b_blockno x = n) (bufs k) (b_next (buf_at k NBUF)) = Ok None"
    unfolding find_buf_mru(1) [OF mru] using none mem by (simp add: find_None_iff caches_def)
  have "List.find (\<lambda>i. b_refcnt (buf_at k i) = 0 \<and> b_flags (buf_at k i) AND B_DIRTY = 0) (rev xs) =
      List.find (\<lambda>i. i \<notin> H \<and> \<not> dirty (buf_at k i)) (rev xs)"
    by (rule find_cong) (use mem bc_invD(7) [OF inv] in \<open>auto simp: dirty_def\<close>)
  then have g: "find_buf (Suc NBUF) b_prev (\<lambda>x. b_refcnt x = 0 \<and> b_flags x AND B_DIRTY = 0) (bufs k) (b_prev (buf_at k NBUF)) = Ok (Some b)"
    unfolding find_buf_mru(2) [OF mru] b by simp
  let ?k = "upd_buf k b (\<lambda>x. x\<lparr>b_dev := d, b_blockno := n, b_flags := 0, b_refcnt := 1\<rparr>)"
  have "curproc ?k \<noteq> None" "\<not> sl_locked (b_lock (buf_at ?k b))"
    using bc_invD(1,6) [OF inv] bn len by (simp_all add: drive_ok_def)
  then obtain l where l: "sl_locked l" "lock_buf ?k b = Ok (upd_buf ?k b (\<lambda>x. x\<lparr>b_lock := l\<rparr>))"
    using acquire_free [of ?k b] by blast
  have "upd_buf ?k b (\<lambda>x. x\<lparr>b_lock := l\<rparr>) =
      upd_buf k b (\<lambda>_. (buf_at k b)\<lparr>b_dev := d, b_blockno := n, b_flags := 0, b_refcnt := 1, b_lock := l\<rparr>)"
    unfolding upd_buf_twice by (rule upd_buf_fetch [OF len], rule buf.equality) simp_all
  then have "bget k d n = Ok (b, upd_buf k b (\<lambda>_. (buf_at k b)\<lparr>b_dev := d, b_blockno := n, b_flags := 0, b_refcnt := 1, b_lock := l\<rparr>))"
    unfolding bget_def f g using l(2) by simp
  then show thesis using that l(1) by blast
qed

text \<open>The end of \<open>bread\<close>: the buffer has been chosen and locked, and is filled from the drive unless it is valid.\<close>

lemma bread_end:
  assumes inv: "bc_inv k d H" and b: "b < NBUF" "b \<notin> H" and n: "n < FSSIZE"
    and uniq: "\<And>j. j < NBUF \<Longrightarrow> j \<noteq> b \<Longrightarrow> \<not> caches d n (buf_at k j)"
    and x: "caches d n x" "sl_locked (b_lock x)" "b_refcnt x = 1" "b_next x = b_next (buf_at k b)" "b_prev x = b_prev (buf_at k b)"
      "b_data x = b_data (buf_at k b)"
    and fl: "b_flags x = 0 \<and> \<not> dirty (buf_at k b) \<and> (caches d n (buf_at k b) \<longrightarrow> \<not> valid (buf_at k b)) \<or>
      b_flags x = b_flags (buf_at k b) \<and> caches d n (buf_at k b) \<and> valid (buf_at k b)"
  obtains k' where "(if b_flags (buf_at (upd_buf k b (\<lambda>_. x)) b) AND B_VALID = 0 then iderw (upd_buf k b (\<lambda>_. x)) b
      else Ok (upd_buf k b (\<lambda>_. x))) = Ok k'"
    "bc_inv k' d (insert b H)" "caches d n (buf_at k' b)" "valid (buf_at k' b)" "b_data (buf_at k' b) = view k d n" "quiet k k' d"
    "\<forall>i. i \<noteq> b \<longrightarrow> buf_at k' i = buf_at k i"
proof -
  let ?k = "upd_buf k b (\<lambda>_. x)"
  have len: "b < length (bufs k)" using bc_invD(3) [OF inv] b by simp
  have drv: "drive_ok k d" using bc_invD(1) [OF inv] .
  have H': "insert b H \<subseteq> {..<NBUF}" "insert b H - {b} = H - {b}" using bc_invD(2) [OF inv] b by auto
  define x' where "x' = (if b_flags x = 0 then x\<lparr>b_qnext := None, b_data := dblock k d n, b_flags := B_VALID\<rparr> else x)"
  define k' where "k' = (if b_flags x = 0 then wakeup (upd_buf k b (\<lambda>_. x')) (ChBuf b) else ?k)"
  have bs: "bufs k' = (bufs k)[b := x']" by (simp add: k'_def x'_def)
  have same: "disk k' = disk k" "dwrites k' = dwrites k" "io_frame k k'" "drive_ok k' d"
    using drv by (simp_all add: k'_def io_frame_def drive_ok_def dblock_def)
  have db: "dblock k' d m = dblock k d m" for m using same(1) by (simp add: dblock_def)
  have fx: "b_flags x = 0 \<and> b_flags x' = B_VALID \<or> b_flags x = b_flags (buf_at k b) \<and> b_flags x \<noteq> 0 \<and> x' = x"
    using fl by (auto simp: x'_def valid_def)
  have c': "caches d n x'" "valid x'" "flags_ok (b_flags x')" "dirty x' \<longleftrightarrow> dirty (buf_at k b)" "length (b_data x') = BSIZE"
    using x fl bc_invD(4,5) [OF inv b(1)] drv n
    by (auto simp: x'_def caches_def valid_def dirty_def B_VALID_def B_DIRTY_def drive_ok_def flags_ok_def)
  have inv': "bc_inv k' d (insert b H)"
    by (rule bc_inv_upd [OF inv b(1) bs _ _ same(4) H'])
      (use x c' uniq n db in \<open>auto simp: caches_def x'_def\<close>)
  have vn: "b_data x' = view k d n"
  proof (cases "b_flags x = 0")
    case True
    then have nv: "caches d n (buf_at k b) \<longrightarrow> \<not> valid (buf_at k b)" using fl by (auto simp: valid_def)
    have "view k d n = dblock k d n" by (rule view_uncached) (use uniq nv in blast)
    then show ?thesis using True by (simp add: x'_def)
  next
    case False
    then have "caches d n (buf_at k b)" "valid (buf_at k b)" using fl by auto
    then show ?thesis using view_cached [OF inv b(1)] False x(6) by (simp add: x'_def)
  qed
  have at: "buf_at k' b = x'" "\<And>i. i \<noteq> b \<Longrightarrow> buf_at k' i = buf_at k i" using len by (simp_all add: bs)
  have "view k' d m = view k d m" for m
  proof (cases "m = n")
    case True
    then show ?thesis using view_cached [OF inv' b(1), of n] at c' vn by simp
  next
    case False
    show ?thesis
    proof (rule view_upd [OF inv inv' b(1) bs _ _ c'(1) False])
      assume "caches d m (buf_at k b)" "valid (buf_at k b)"
      then show "b_data (buf_at k b) = dblock k d m" using fl bc_invD(9) [OF inv b(1)] b False by (auto simp: caches_def)
    qed (rule db)
  qed
  moreover have "dirt k' d = dirt k d"
  proof -
    have old: "dirty (buf_at k b) \<Longrightarrow> caches d n (buf_at k b)" using fl by blast
    have "n \<in> dirt k d \<longleftrightarrow> dirty (buf_at k b)" using uniq old b unfolding dirt_def by auto
    then show ?thesis using dirt_upd [OF inv b(1) bs c'(1) old uniq] c'(4) by (auto simp: insert_absorb)
  qed
  ultimately have q: "quiet k k' d" using same by (auto simp: quiet_def)
  have "(if b_flags (buf_at ?k b) AND B_VALID = 0 then iderw ?k b else Ok ?k) = Ok k'"
  proof (cases "b_flags x = 0")
    case True
    have "iderw ?k b = Ok (wakeup (upd_buf ?k b (\<lambda>y. y\<lparr>b_qnext := None, b_data := dblock ?k (b_dev y) (b_blockno y),
        b_flags := B_VALID\<rparr>)) (ChBuf b))"
      by (rule iderw_read) (use True x len drv n in \<open>simp_all add: drive_ok_def caches_def\<close>)
    then show ?thesis using True x len by (simp add: k'_def x'_def upd_buf_twice comp_def caches_def dblock_def)
  next
    case False
    then have "b_flags x AND B_VALID \<noteq> 0" using fl by (auto simp: valid_def)
    then show ?thesis using False len by (simp add: k'_def)
  qed
  then show thesis using that inv' c' vn q at by simp
qed

lemma bread_free:
  assumes inv: "bc_inv k d H" and n: "n < FSSIZE" and nh: "\<And>i. i \<in> H \<Longrightarrow> \<not> caches d n (buf_at k i)"
    and free: "(\<exists>i < NBUF. caches d n (buf_at k i)) \<or> (\<exists>i < NBUF. i \<notin> H \<and> \<not> dirty (buf_at k i))"
  obtains b k' where "bread k d n = Ok (b, k')" "b < NBUF" "b \<notin> H" "bc_inv k' d (insert b H)" "caches d n (buf_at k' b)"
    "valid (buf_at k' b)" "b_data (buf_at k' b) = view k d n" "quiet k k' d" "\<forall>i. i \<noteq> b \<longrightarrow> buf_at k' i = buf_at k i"
proof (cases "\<exists>b < NBUF. caches d n (buf_at k b)")
  case True
  then obtain b where b: "b < NBUF" "caches d n (buf_at k b)" by blast
  then have bh: "b \<notin> H" using nh by blast
  obtain l where l: "sl_locked l" "bget k d n = Ok (b, upd_buf k b (\<lambda>_. (buf_at k b)\<lparr>b_refcnt := 1, b_lock := l\<rparr>))"
    by (rule bget_hit [OF inv b bh])
  let ?x = "(buf_at k b)\<lparr>b_refcnt := 1, b_lock := l\<rparr>"
  have uniq: "\<not> caches d n (buf_at k j)" if "j < NBUF" "j \<noteq> b" for j using bc_invD(8) [OF inv] that b by blast
  have fl: "b_flags ?x = 0 \<and> \<not> dirty (buf_at k b) \<and> (caches d n (buf_at k b) \<longrightarrow> \<not> valid (buf_at k b)) \<or>
      b_flags ?x = b_flags (buf_at k b) \<and> caches d n (buf_at k b) \<and> valid (buf_at k b)"
    using bc_invD(4) [OF inv b(1)] b(2) by (auto elim!: flags_cases)
  show thesis
    by (rule bread_end [OF inv b(1) bh n uniq _ _ _ _ _ _ fl])
      (use b l bh in \<open>simp_all add: caches_def that bread_def\<close>)
next
  case False
  then have none: "\<And>i. i < NBUF \<Longrightarrow> \<not> caches d n (buf_at k i)" by blast
  then obtain i where i: "i < NBUF" "i \<notin> H" "\<not> dirty (buf_at k i)" using free by blast
  obtain xs where mru: "mru_list (bufs k) xs" using inv by (auto simp: bc_inv_def)
  have mem: "set (rev xs) = {..<NBUF}" using mru by (simp add: mru_list_def)
  obtain b where f: "List.find (\<lambda>i. i \<notin> H \<and> \<not> dirty (buf_at k i)) (rev xs) = Some b"
    using i mem by (cases "List.find (\<lambda>i. i \<notin> H \<and> \<not> dirty (buf_at k i)) (rev xs)") (auto simp: find_None_iff)
  then have b: "b < NBUF" "b \<notin> H" "\<not> dirty (buf_at k b)" using find_SomeD [OF f] mem by auto
  obtain l where l: "sl_locked l"
    "bget k d n = Ok (b, upd_buf k b (\<lambda>_. (buf_at k b)\<lparr>b_dev := d, b_blockno := n, b_flags := 0, b_refcnt := 1, b_lock := l\<rparr>))"
    by (rule bget_miss [OF inv none mru f])
  let ?x = "(buf_at k b)\<lparr>b_dev := d, b_blockno := n, b_flags := 0, b_refcnt := 1, b_lock := l\<rparr>"
  have fl: "b_flags ?x = 0 \<and> \<not> dirty (buf_at k b) \<and> (caches d n (buf_at k b) \<longrightarrow> \<not> valid (buf_at k b)) \<or>
      b_flags ?x = b_flags (buf_at k b) \<and> caches d n (buf_at k b) \<and> valid (buf_at k b)"
    using b none by simp
  show thesis
    by (rule bread_end [OF inv b(1,2) n none _ _ _ _ _ _ fl])
      (use b l in \<open>simp_all add: caches_def that bread_def\<close>)
qed

lemma bread_spec:
  assumes inv: "bc_inv k d H" and n: "n < FSSIZE" and nh: "\<And>i. i \<in> H \<Longrightarrow> \<not> caches d n (buf_at k i)"
    and room: "n \<in> dirt k d \<or> card (dirt k d) + card H < NBUF"
  obtains b k' where "bread k d n = Ok (b, k')" "b < NBUF" "b \<notin> H" "bc_inv k' d (insert b H)" "caches d n (buf_at k' b)"
    "valid (buf_at k' b)" "b_data (buf_at k' b) = view k d n" "quiet k k' d" "\<forall>i. i \<noteq> b \<longrightarrow> buf_at k' i = buf_at k i"
proof -
  have free: "(\<exists>i < NBUF. caches d n (buf_at k i)) \<or> (\<exists>i < NBUF. i \<notin> H \<and> \<not> dirty (buf_at k i))"
    using room free_buffer [OF inv] unfolding dirt_def by blast
  show thesis by (rule bread_free [OF inv n _ free], erule nh) (rule that)
qed

text \<open>Changing the data of a held buffer.\<close>

lemma set_data_spec:
  assumes inv: "bc_inv k d H" and b: "b \<in> H" "caches d n (buf_at k b)" "valid (buf_at k b)" and bs: "length bs = BSIZE"
  defines "k' \<equiv> upd_buf k b (\<lambda>x. x\<lparr>b_data := bs\<rparr>)"
  shows "bc_inv k' d H" "view k' d = (view k d)(n := bs)" "dirt k' d = dirt k d" "disk k' = disk k" "dwrites k' = dwrites k"
    "io_frame k k'" "buf_at k' b = (buf_at k b)\<lparr>b_data := bs\<rparr>"
proof -
  have bN: "b < NBUF" and len: "b < length (bufs k)" using bc_invD(2,3) [OF inv] b by auto
  let ?x = "(buf_at k b)\<lparr>b_data := bs\<rparr>"
  have bufs': "bufs k' = (bufs k)[b := ?x]" by (simp add: k'_def)
  have uniq: "\<not> caches d n (buf_at k j)" if "j < NBUF" "j \<noteq> b" for j using bc_invD(8) [OF inv] that bN b by blast
  have xx: "caches d n ?x" "valid ?x" "dirty ?x \<longleftrightarrow> dirty (buf_at k b)" using b by (simp_all add: caches_def valid_def dirty_def)
  have drv: "drive_ok k' d" using bc_invD(1) [OF inv] by (simp add: k'_def drive_ok_def dblock_def)
  have db: "dblock k' d m = dblock k d m" for m by (simp add: k'_def dblock_def)
  show inv': "bc_inv k' d H"
    by (rule bc_inv_upd [OF inv bN bufs' _ _ drv bc_invD(2) [OF inv]])
      (use xx b bs uniq bc_invD(4,6,7,10) [OF inv bN] db in \<open>auto simp: caches_def\<close>)
  show at: "buf_at k' b = ?x" using len by (simp add: bufs')
  have "view k' d m = ((view k d)(n := bs)) m" for m
  proof (cases "m = n")
    case True
    then show ?thesis using view_cached [OF inv' bN, of n] at xx by simp
  next
    case False
    then show ?thesis using view_upd [OF inv inv' bN bufs' _ _ xx(1) False] db b by (simp add: caches_def)
  qed
  then show "view k' d = (view k d)(n := bs)" by blast
  have "n \<in> dirt k d \<longleftrightarrow> dirty (buf_at k b)" using uniq b bN unfolding dirt_def by auto
  then show "dirt k' d = dirt k d" using dirt_upd [OF inv bN bufs' xx(1) _ uniq] b xx(3) by (auto simp: insert_absorb)
  show "disk k' = disk k" "dwrites k' = dwrites k" "io_frame k k'" by (simp_all add: k'_def io_frame_def)
qed

lemma link_simps [simp]:
  "disk (link_front k b) = disk k" "dwrites (link_front k b) = dwrites k" "io_frame k0 (link_front k b) \<longleftrightarrow> io_frame k0 k"
  "disk (unlink_buf k b) = disk k" "dwrites (unlink_buf k b) = dwrites k" "io_frame k0 (unlink_buf k b) \<longleftrightarrow> io_frame k0 k"
  "idequeue (link_front k b) = idequeue k" "idequeue (unlink_buf k b) = idequeue k"
  by (simp_all add: link_front_def unlink_buf_def Let_def io_frame_def)

lemma drive_ok_frame:
  "drive_ok k d \<Longrightarrow> io_frame k k' \<Longrightarrow> idequeue k' = idequeue k \<Longrightarrow> (\<And>n. n < FSSIZE \<Longrightarrow> length (dblock k' d n) = BSIZE) \<Longrightarrow>
   drive_ok k' d"
  by (auto simp: drive_ok_def io_frame_def)

lemma core_nth: "map core bs = map core cs \<Longrightarrow> i < length cs \<Longrightarrow> core (bs ! i) = core (cs ! i)"
  by (metis length_map nth_map)

text \<open>Relinking the list changes no block.\<close>

lemma bc_inv_core:
  assumes inv: "bc_inv k d H" and c: "map core (bufs k') = map core (bufs k)" and mru: "mru_list (bufs k') xs"
    and drv: "drive_ok k' d" and dsk: "disk k' = disk k"
  shows "bc_inv k' d H" "view k' d = view k d" "dirt k' d = dirt k d"
proof -
  have f: "b_flags (buf_at k' i) = b_flags (buf_at k i)" "b_dev (buf_at k' i) = b_dev (buf_at k i)"
    "b_blockno (buf_at k' i) = b_blockno (buf_at k i)" "b_lock (buf_at k' i) = b_lock (buf_at k i)"
    "b_refcnt (buf_at k' i) = b_refcnt (buf_at k i)" "b_data (buf_at k' i) = b_data (buf_at k i)" if "i < NBUF" for i
    using core_fields [OF core_nth [OF c, of i]] bc_invD(3) [OF inv] that by simp_all
  have db: "dblock k' d m = dblock k d m" for m using dsk by (simp add: dblock_def)
  have v: "valid (buf_at k' i) \<longleftrightarrow> valid (buf_at k i)" "dirty (buf_at k' i) \<longleftrightarrow> dirty (buf_at k i)"
    "caches d m (buf_at k' i) \<longleftrightarrow> caches d m (buf_at k i)" if "i < NBUF" for i m
    using f [OF that] by (simp_all add: valid_def dirty_def caches_def)
  show inv': "bc_inv k' d H"
  proof (unfold bc_inv_def, intro conjI allI impI)
    show "drive_ok k' d" "\<exists>xs. mru_list (bufs k') xs" "H \<subseteq> {..<NBUF}" using drv mru bc_invD(2) [OF inv] by blast+
    fix i assume i: "i < NBUF"
    show "flags_ok (b_flags (buf_at k' i))" "length (b_data (buf_at k' i)) = BSIZE" "sl_locked (b_lock (buf_at k' i)) = (i \<in> H)"
      "b_refcnt (buf_at k' i) = (if i \<in> H then 1 else 0)"
      unfolding f [OF i] using bc_invD(4-7) [OF inv i] by blast+
    show "i = j" if "j < NBUF" "b_dev (buf_at k' i) = d \<and> caches d (b_blockno (buf_at k' i)) (buf_at k' j)" for j
      using bc_invD(8) [OF inv i that(1)] that f [OF i] f [OF that(1)] by (simp add: caches_def)
    show "b_data (buf_at k' i) = dblock k' d (b_blockno (buf_at k' i))"
      if "b_dev (buf_at k' i) = d \<and> valid (buf_at k' i) \<and> \<not> dirty (buf_at k' i) \<and> i \<notin> H"
      using bc_invD(9) [OF inv i] that f [OF i] v [OF i] db by (simp add: caches_def)
    show "b_blockno (buf_at k' i) < FSSIZE" if "b_dev (buf_at k' i) = d \<and> valid (buf_at k' i)"
      using bc_invD(10) [OF inv i] that f [OF i] v [OF i] by (simp add: caches_def)
    show "b_dev (buf_at k' i) = d" if "dirty (buf_at k' i)"
      using bc_invD(11) [OF inv i] that f [OF i] v [OF i] by simp
  qed
  show "dirt k' d = dirt k d" unfolding dirt_def using v by blast
  have "view k' d m = view k d m" for m
  proof (cases "\<exists>i < NBUF. caches d m (buf_at k i) \<and> valid (buf_at k i)")
    case True
    then obtain i where i: "i < NBUF" "caches d m (buf_at k i)" "valid (buf_at k i)" by blast
    then show ?thesis using view_cached [OF inv i] view_cached [OF inv' i(1), of m] v f by simp
  next
    case False
    then show ?thesis using view_uncached [of d m k] view_uncached [of d m k'] v db by metis
  qed
  then show "view k' d = view k d" by blast
qed

lemma bwrite_spec:
  assumes inv: "bc_inv k d H" and b: "b \<in> H" "caches d n (buf_at k b)" "valid (buf_at k b)"
  obtains k' where "bwrite k b = Ok k'" "bc_inv k' d H" "view k' d = view k d" "dirt k' d = dirt k d - {n}" "io_frame k k'"
    "disk k' = (disk k)(d AND 1 := (disk k (d AND 1))(unat n := b_data (buf_at k b)))"
    "dwrites k' = dwrites k @ [(d AND 1, unat n, b_data (buf_at k b))]"
    "caches d n (buf_at k' b)" "valid (buf_at k' b)" "b_data (buf_at k' b) = b_data (buf_at k b)"
    "\<forall>i. i \<noteq> b \<longrightarrow> buf_at k' i = buf_at k i"
proof -
  have bN: "b < NBUF" and len: "b < length (bufs k)" using bc_invD(2,3) [OF inv] b by auto
  have n: "n < FSSIZE" "b_dev (buf_at k b) = d" "b_blockno (buf_at k b) = n"
    using bc_invD(10) [OF inv bN b(2,3)] b(2) by (simp_all add: caches_def)
  have drv: "drive_ok k d" using bc_invD(1) [OF inv] .
  let ?k = "upd_buf k b (\<lambda>x. x\<lparr>b_flags := b_flags x OR B_DIRTY\<rparr>)"
  have fl: "b_flags (buf_at k b) OR B_DIRTY = B_VALID OR B_DIRTY"
    using bc_invD(4) [OF inv bN] b(3) by (auto simp: flags_ok_def valid_def B_VALID_def B_DIRTY_def)
  define k' where "k' = wakeup (upd_buf (disk_write ?k (d AND 1) (unat n) (b_data (buf_at k b))) b
    (\<lambda>x. x\<lparr>b_qnext := None, b_flags := B_VALID\<rparr>)) (ChBuf b)"
  let ?x = "(buf_at k b)\<lparr>b_qnext := None, b_flags := B_VALID\<rparr>"
  have "iderw ?k b = Ok (wakeup (upd_buf
    (disk_write ?k (b_dev (buf_at ?k b) AND 1) (unat (b_blockno (buf_at ?k b))) (b_data (buf_at ?k b)))
    b (\<lambda>x. x\<lparr>b_qnext := None, b_flags := B_VALID\<rparr>)) (ChBuf b))"
    by (rule iderw_write) (use fl len n drv bc_invD(6) [OF inv bN] b in \<open>simp_all add: drive_ok_def\<close>)
  then have "bwrite k b = Ok k'"
    using len n bc_invD(6) [OF inv bN] b by (simp add: bwrite_def holdingsleep_def k'_def)
  moreover have bufs': "bufs k' = (bufs k)[b := ?x]" using len by (simp add: k'_def disk_write_def)
  have io: "io_frame k k'" "idequeue k' = idequeue k" by (simp_all add: k'_def io_frame_def disk_write_def)
  have dsk: "disk k' = (disk k)(d AND 1 := (disk k (d AND 1))(unat n := b_data (buf_at k b)))"
    "dwrites k' = dwrites k @ [(d AND 1, unat n, b_data (buf_at k b))]"
    by (simp_all add: k'_def disk_write_def)
  have db: "dblock k' d m = (if m = n then b_data (buf_at k b) else dblock k d m)" for m
    by (auto simp: dblock_def dsk word_unat_eq_iff)
  have drv': "drive_ok k' d"
    by (rule drive_ok_frame [OF drv io]) (use drv bc_invD(5) [OF inv bN] in \<open>simp add: db drive_ok_def\<close>)
  have uniq: "\<not> caches d n (buf_at k j)" if "j < NBUF" "j \<noteq> b" for j using bc_invD(8) [OF inv] that bN b by blast
  have xx: "caches d n ?x" "valid ?x" "\<not> dirty ?x" using b by (simp_all add: caches_def valid_def dirty_def B_VALID_def B_DIRTY_def)
  have inv': "bc_inv k' d H"
    by (rule bc_inv_upd [OF inv bN bufs' _ _ drv' bc_invD(2) [OF inv]])
      (use xx b n uniq bc_invD(5,6,7) [OF inv bN] db in \<open>auto simp: caches_def\<close>)
  have at: "buf_at k' b = ?x" "\<And>i. i \<noteq> b \<Longrightarrow> buf_at k' i = buf_at k i" using len by (simp_all add: bufs')
  have "view k' d m = view k d m" for m
  proof (cases "m = n")
    case True
    then show ?thesis using view_cached [OF inv' bN, of n] view_cached [OF inv bN b(2,3)] at xx by simp
  next
    case False
    then show ?thesis using view_upd [OF inv inv' bN bufs' _ _ xx(1) False] db b by (simp add: caches_def)
  qed
  moreover have "dirt k' d = dirt k d - {n}" using dirt_upd [OF inv bN bufs' xx(1) _ uniq] b xx(3) by simp
  ultimately show thesis using that inv' io(1) dsk at xx by auto
qed

text \<open>Marking a held buffer for the log, as \<open>log_write\<close> does.\<close>

lemma mark_dirty_spec:
  assumes inv: "bc_inv k d H" and b: "b \<in> H" "caches d n (buf_at k b)" "valid (buf_at k b)"
  defines "k' \<equiv> upd_buf k b (\<lambda>x. x\<lparr>b_flags := b_flags x OR B_DIRTY\<rparr>)"
  shows "bc_inv k' d H" "view k' d = view k d" "dirt k' d = insert n (dirt k d)"
    "caches d n (buf_at k' b)" "valid (buf_at k' b)" "\<And>i. i \<noteq> b \<Longrightarrow> buf_at k' i = buf_at k i"
proof -
  have bN: "b < NBUF" and len: "b < length (bufs k)" using bc_invD(2,3) [OF inv] b by auto
  let ?x = "(buf_at k b)\<lparr>b_flags := b_flags (buf_at k b) OR B_DIRTY\<rparr>"
  have bufs': "bufs k' = (bufs k)[b := ?x]" by (simp add: k'_def)
  have uniq: "\<not> caches d n (buf_at k j)" if "j < NBUF" "j \<noteq> b" for j using bc_invD(8) [OF inv] that bN b by blast
  have fl: "b_flags (buf_at k b) OR B_DIRTY = B_VALID OR B_DIRTY"
    using bc_invD(4) [OF inv bN] b(3) by (auto simp: flags_ok_def valid_def B_VALID_def B_DIRTY_def)
  have xx: "caches d n ?x" "valid ?x" "dirty ?x" using b fl by (simp_all add: caches_def valid_def dirty_def B_VALID_def B_DIRTY_def)
  have db: "dblock k' d m = dblock k d m" for m by (simp add: k'_def dblock_def)
  have drv: "drive_ok k' d" using bc_invD(1) [OF inv] by (simp add: k'_def drive_ok_def dblock_def)
  show inv': "bc_inv k' d H"
    by (rule bc_inv_upd [OF inv bN bufs' _ _ drv bc_invD(2) [OF inv]])
      (use xx b fl uniq bc_invD(5,6,7,10) [OF inv bN] db in \<open>auto simp: caches_def\<close>)
  have at: "buf_at k' b = ?x" using len by (simp add: bufs')
  show "caches d n (buf_at k' b)" "valid (buf_at k' b)" unfolding at by (rule xx)+
  show "buf_at k' i = buf_at k i" if "i \<noteq> b" for i using that by (simp add: bufs')
  have "view k' d m = view k d m" for m
  proof (cases "m = n")
    case True
    then show ?thesis using view_cached [OF inv' bN, of n] view_cached [OF inv bN b(2,3)] at xx by simp
  next
    case False
    then show ?thesis using view_upd [OF inv inv' bN bufs' _ _ xx(1) False] db b by (simp add: caches_def)
  qed
  then show "view k' d = view k d" by blast
  show "dirt k' d = insert n (dirt k d)" using dirt_upd [OF inv bN bufs' xx(1) _ uniq] b xx(3) by simp
qed

text \<open>A buffer may be released when its data are on the disk, or when the log will write them.\<close>

lemma brelse_spec:
  assumes inv: "bc_inv k d H" and b: "b \<in> H" "caches d n (buf_at k b)" "valid (buf_at k b)"
    and settled: "n \<in> dirt k d \<or> b_data (buf_at k b) = dblock k d n"
  obtains k' where "brelse k b = Ok k'" "bc_inv k' d (H - {b})" "quiet k k' d"
    "\<forall>i < NBUF. i \<noteq> b \<longrightarrow> core (buf_at k' i) = core (buf_at k i)"
proof -
  have bN: "b < NBUF" and len: "b < length (bufs k)" "length (bufs k) = Suc NBUF" using bc_invD(2,3) [OF inv] b by auto
  let ?x = "(buf_at k b)\<lparr>b_lock := releasesleep (b_lock (buf_at k b)), b_refcnt := 0\<rparr>"
  define k1 where "k1 = upd_buf (wakeup (upd_buf k b (\<lambda>x. x\<lparr>b_lock := releasesleep (b_lock x)\<rparr>)) (ChBufLock b)) b
    (\<lambda>x. x\<lparr>b_refcnt := b_refcnt x - 1\<rparr>)"
  have bufs1: "bufs k1 = (bufs k)[b := ?x]" using len bc_invD(7) [OF inv bN] b by (simp add: k1_def)
  have dsk1: "disk k1 = disk k" "dwrites k1 = dwrites k" "io_frame k k1" "idequeue k1 = idequeue k" by (simp_all add: k1_def io_frame_def)
  have db: "dblock k1 d m = dblock k d m" for m by (simp add: dblock_def dsk1)
  have uniq: "\<not> caches d n (buf_at k j)" if "j < NBUF" "j \<noteq> b" for j using bc_invD(8) [OF inv] that bN b by blast
  have dn: "n \<in> dirt k d \<longleftrightarrow> dirty (buf_at k b)" using uniq b bN unfolding dirt_def by auto
  have xx: "caches d n ?x" "valid ?x" "dirty ?x \<longleftrightarrow> dirty (buf_at k b)" using b by (simp_all add: caches_def valid_def dirty_def)
  have drv1: "drive_ok k1 d"
    by (rule drive_ok_frame [OF bc_invD(1) [OF inv] dsk1(3,4)]) (use bc_invD(1) [OF inv] in \<open>simp add: db drive_ok_def\<close>)
  have inv1: "bc_inv k1 d (H - {b})"
    by (rule bc_inv_upd [OF inv bN bufs1 _ _ drv1])
      (use xx b uniq settled dn bc_invD(2) [OF inv] bc_invD(4,5,10) [OF inv bN] db in \<open>auto simp: caches_def releasesleep_def\<close>)
  have at1: "buf_at k1 b = ?x" "\<And>i. i \<noteq> b \<Longrightarrow> buf_at k1 i = buf_at k i" using len by (simp_all add: bufs1)
  have "view k1 d m = view k d m" for m
  proof (cases "m = n")
    case True
    then show ?thesis using view_cached [OF inv1 bN, of n] view_cached [OF inv bN b(2,3)] at1 xx by simp
  next
    case False
    then show ?thesis using view_upd [OF inv inv1 bN bufs1 _ _ xx(1) False] db b by (simp add: caches_def)
  qed
  then have v1: "view k1 d = view k d" by blast
  have d1: "dirt k1 d = dirt k d" using dirt_upd [OF inv bN bufs1 xx(1) _ uniq] b xx(3) dn by (auto simp: insert_absorb)
  define k' where "k' = link_front (unlink_buf k1 b) b"
  have bufs': "bufs k' = relink b (bufs k1)" by (simp add: k'_def relink_bufs)
  obtain xs where mru: "mru_list (bufs k1) xs" using inv1 by (auto simp: bc_inv_def)
  have "b \<in> set xs" using mru bN by (simp add: mru_list_def)
  then obtain us vs where "xs = us @ b # vs" by (meson split_list)
  then have mru': "mru_list (bufs k') (b # us @ vs)" using relink_mru mru bufs' by simp
  have c': "map core (bufs k') = map core (bufs k1)" by (simp add: bufs' relink_core)
  have io': "io_frame k1 k'" "disk k' = disk k1" "dwrites k' = dwrites k1" "idequeue k' = idequeue k1"
    by (simp_all add: k'_def) (simp add: io_frame_def)
  have drv': "drive_ok k' d"
    by (rule drive_ok_frame [OF drv1 io'(1,4)]) (use drv1 io' in \<open>simp add: dblock_def drive_ok_def\<close>)
  note inv' = bc_inv_core [OF inv1 c' mru' drv' io'(2)]
  have "quiet k k' d" using inv' v1 d1 io' dsk1 by (auto simp: quiet_def io_frame_def)
  moreover have "brelse k b = Ok k'"
    using bc_invD(6) [OF inv bN] b at1 by (simp add: brelse_def holdingsleep_def Let_def k'_def k1_def)
  moreover have "core (buf_at k' i) = core (buf_at k i)" if "i < NBUF" "i \<noteq> b" for i
    using core_nth [OF c', of i] at1(2) [OF that(2)] that len by (simp add: bufs1)
  ultimately show thesis using that inv' by blast
qed

subsection \<open>Start of the cache\<close>

definition mru_part :: "buf list \<Rightarrow> nat list \<Rightarrow> bool" where
  "mru_part bs xs \<longleftrightarrow> length bs = Suc NBUF \<and> distinct xs \<and> set xs \<subseteq> {..<NBUF} \<and>
     fchain (nexts bs) NBUF xs NBUF \<and> fchain (prevs bs) NBUF (rev xs) NBUF"

lemma front_links:
  assumes "length (bufs k) = Suc NBUF" and "b < NBUF" and "b_next (buf_at k NBUF) \<le> NBUF"
  defines "N \<equiv> nexts (bufs k)" and "P \<equiv> prevs (bufs k)"
  shows "nexts (bufs (link_front k b)) = N(b := N NBUF, NBUF := b)" "prevs (bufs (link_front k b)) = P(b := NBUF, N NBUF := b)"
    "map core (bufs (link_front k b)) = map core (bufs k)"
proof -
  define bs3 where "bs3 = (bufs k)[b := (buf_at k b)\<lparr>b_next := b_next (buf_at k NBUF), b_prev := NBUF\<rparr>]"
  define bs4 where "bs4 = bs3[b_next (bs3 ! NBUF) := (bs3 ! b_next (bs3 ! NBUF))\<lparr>b_prev := b\<rparr>]"
  have r: "bufs (link_front k b) = bs4[NBUF := (bs4 ! NBUF)\<lparr>b_next := b\<rparr>]"
    by (simp add: link_front_def bs4_def bs3_def Let_def)
  have len: "length bs3 = Suc NBUF" "length bs4 = Suc NBUF" using assms(1) by (simp_all add: bs3_def bs4_def)
  have b3: "nexts bs3 = N(b := N NBUF)" "prevs bs3 = P(b := NBUF)"
    unfolding bs3_def N_def P_def using links_update(5,6) [of b "bufs k"] assms(1,2) by simp_all
  have n3: "b_next (bs3 ! NBUF) = N NBUF" using fun_cong [OF b3(1), of NBUF] assms(2) by simp
  have b4: "nexts bs4 = N(b := N NBUF)" "prevs bs4 = P(b := NBUF, N NBUF := b)"
    unfolding bs4_def n3 using links_update(3,4) [of "N NBUF" bs3] len(1) b3 assms(3) by (simp_all add: N_def)
  show "nexts (bufs (link_front k b)) = N(b := N NBUF, NBUF := b)" "prevs (bufs (link_front k b)) = P(b := NBUF, N NBUF := b)"
    unfolding r using links_update(1,2) [of NBUF bs4] len(2) b4 by simp_all
  have "map core bs3 = map core (bufs k)" "map core bs4 = map core bs3" unfolding bs3_def bs4_def by (rule core_link)+
  then show "map core (bufs (link_front k b)) = map core (bufs k)" unfolding r core_link by simp
qed

lemma link_front_mru:
  assumes "mru_part (bufs k) xs" and b: "b < NBUF" "b \<notin> set xs"
  shows "mru_part (bufs (link_front k b)) (b # xs)"
proof -
  have len: "length (bufs k) = Suc NBUF" and d: "distinct xs" "NBUF \<notin> set xs" "set xs \<subseteq> {..<NBUF}"
    and N: "fchain (nexts (bufs k)) NBUF xs NBUF" and P: "fchain (prevs (bufs k)) NBUF (rev xs) NBUF"
    using assms by (auto simp: mru_part_def)
  have first: "b_next (buf_at k NBUF) = last (NBUF # rev xs)" using fchain_first [OF N] hd_last_rev [of xs NBUF] by simp
  have le: "b_next (buf_at k NBUF) \<le> NBUF"
  proof (cases xs)
    case (Cons x ys)
    then show ?thesis using fchain_first [OF N] d(3) by simp
  qed (use fchain_first [OF N] in simp)
  have nb: "b \<noteq> NBUF" using b by simp
  have "fchain ((nexts (bufs k))(b := b_next (buf_at k NBUF), NBUF := b)) NBUF (b # xs) NBUF"
    by (rule fchain_push [OF N nb b(2) d(2)])
  moreover have "fchain ((prevs (bufs k))(b := NBUF, b_next (buf_at k NBUF) := b)) NBUF (rev xs @ [b]) NBUF"
    unfolding first by (rule fchain_snoc [OF P nb]) (use b d in auto)
  moreover have "length (bufs (link_front k b)) = Suc NBUF" using len by (simp add: link_front_def Let_def)
  ultimately show ?thesis
    using front_links [OF len b(1) le] b d by (simp add: mru_part_def)
qed

text \<open>One turn of the loop of \<open>binit\<close>, and the loop.\<close>

lemma binit_step:
  assumes "mru_part (bufs k) xs" and b: "b < NBUF" "b \<notin> set xs"
  defines "k' \<equiv> link_front (upd_buf k b (\<lambda>x. x\<lparr>b_lock := initsleeplock (b_lock x) ''buffer''\<rparr>)) b"
  shows "mru_part (bufs k') (b # xs)" "map core (bufs k') = map core ((bufs k)[b := (buf_at k b)\<lparr>b_lock := initsleeplock (b_lock (buf_at k b)) ''buffer''\<rparr>])"
    "disk k' = disk k" "io_frame k0 k' = io_frame k0 k" "idequeue k' = idequeue k"
proof -
  let ?k = "upd_buf k b (\<lambda>x. x\<lparr>b_lock := initsleeplock (b_lock x) ''buffer''\<rparr>)"
  have len: "length (bufs k) = Suc NBUF" using assms(1) by (simp add: mru_part_def)
  have same: "nexts (bufs ?k) = nexts (bufs k)" "prevs (bufs ?k) = prevs (bufs k)"
    using len b by (auto simp: fun_eq_iff nth_list_update)
  have m: "mru_part (bufs ?k) xs" using assms(1) unfolding mru_part_def same by simp
  then show "mru_part (bufs k') (b # xs)" unfolding k'_def by (rule link_front_mru [OF _ b])
  have "fchain (nexts (bufs ?k)) NBUF xs NBUF" "set xs \<subseteq> {..<NBUF}" using m by (auto simp: mru_part_def)
  then have "b_next (buf_at ?k NBUF) \<le> NBUF" by (cases xs) auto
  then show "map core (bufs k') = map core ((bufs k)[b := (buf_at k b)\<lparr>b_lock := initsleeplock (b_lock (buf_at k b)) ''buffer''\<rparr>])"
    unfolding k'_def using front_links(3) [of ?k b] len b by simp
  show "disk k' = disk k" "idequeue k' = idequeue k" by (simp_all add: k'_def)
  show "io_frame k0 k' = io_frame k0 k" unfolding k'_def link_simps by (simp add: io_frame_def)
qed

text \<open>A buffer that has never been used.\<close>

definition unused_buf :: "u32 \<Rightarrow> buf \<Rightarrow> bool" where
  "unused_buf d x \<longleftrightarrow> b_flags x = 0 \<and> b_dev x \<noteq> d \<and> b_refcnt x = 0 \<and> length (b_data x) = BSIZE"

lemma unused_core: "core x = core y \<Longrightarrow> unused_buf d x = unused_buf d y"
  by (auto simp: unused_buf_def dest: core_fields)

lemma binit_loop:
  assumes "n \<le> NBUF" and "mru_part (bufs k) []" and "\<And>i. i < NBUF \<Longrightarrow> unused_buf d (buf_at k i)"
  defines "k' \<equiv> fold (\<lambda>b k. link_front (upd_buf k b (\<lambda>x. x\<lparr>b_lock := initsleeplock (b_lock x) ''buffer''\<rparr>)) b) [0 ..< n] k"
  shows "mru_part (bufs k') (rev [0 ..< n]) \<and> (\<forall>i < NBUF. unused_buf d (buf_at k' i)) \<and>
    (\<forall>i < n. \<not> sl_locked (b_lock (buf_at k' i))) \<and> disk k' = disk k \<and> io_frame k k' \<and> idequeue k' = idequeue k"
  unfolding k'_def using assms(1)
proof (induction n)
  case 0
  then show ?case using assms(2,3) by (simp add: io_frame_def)
next
  case (Suc n)
  let ?k = "fold (\<lambda>b k. link_front (upd_buf k b (\<lambda>x. x\<lparr>b_lock := initsleeplock (b_lock x) ''buffer''\<rparr>)) b) [0 ..< n] k"
  let ?k' = "link_front (upd_buf ?k n (\<lambda>x. x\<lparr>b_lock := initsleeplock (b_lock x) ''buffer''\<rparr>)) n"
  have IH: "mru_part (bufs ?k) (rev [0 ..< n])" "\<forall>i < NBUF. unused_buf d (buf_at ?k i)" "\<forall>i < n. \<not> sl_locked (b_lock (buf_at ?k i))"
    "disk ?k = disk k" "io_frame k ?k" "idequeue ?k = idequeue k"
    using Suc by auto
  have n: "n < NBUF" "n \<notin> set (rev [0 ..< n])" using Suc.prems by auto
  note st = binit_step [OF IH(1) n]
  have len: "length (bufs ?k) = Suc NBUF" using IH(1) by (simp add: mru_part_def)
  have c: "core (buf_at ?k' i) = core (if i = n then (buf_at ?k n)\<lparr>b_lock := initsleeplock (b_lock (buf_at ?k n)) ''buffer''\<rparr> else buf_at ?k i)"
    if "i < NBUF" for i
    using core_nth [OF st(2), of i] len n that by (simp add: nth_list_update)
  have "unused_buf d (buf_at ?k' i)" if "i < NBUF" for i
    using unused_core [OF c [OF that]] IH(2) that n by (simp add: unused_buf_def split: if_splits)
  moreover have "\<not> sl_locked (b_lock (buf_at ?k' i))" if "i < Suc n" for i
    using core_fields(4) [OF c, of i] IH(3) that n by (simp add: initsleeplock_def split: if_splits)
  ultimately show ?case using st IH by simp
qed

text \<open>\<open>binit\<close> establishes the invariant of the cache, with nothing cached.\<close>

lemma binit_inv:
  assumes len: "length (bufs k) = Suc NBUF" and unused: "\<And>i. i < NBUF \<Longrightarrow> unused_buf d (buf_at k i)" and drv: "drive_ok k d"
  shows "bc_inv (binit k) d {}" "dirt (binit k) d = {}" "disk (binit k) = disk k" "io_frame k (binit k)"
    "mru_list (bufs (binit k)) (rev [0 ..< NBUF])" "\<And>i. i < NBUF \<Longrightarrow> unused_buf d (buf_at (binit k) i)"
proof -
  let ?k0 = "upd_buf k NBUF (\<lambda>x. x\<lparr>b_prev := NBUF, b_next := NBUF\<rparr>)"
  have "mru_part (bufs ?k0) []" "\<And>i. i < NBUF \<Longrightarrow> unused_buf d (buf_at ?k0 i)" using len unused by (simp_all add: mru_part_def)
  from binit_loop [OF order_refl this]
  have B: "mru_part (bufs (binit k)) (rev [0 ..< NBUF])" "\<And>i. i < NBUF \<Longrightarrow> unused_buf d (buf_at (binit k) i)"
    "\<And>i. i < NBUF \<Longrightarrow> \<not> sl_locked (b_lock (buf_at (binit k) i))" "disk (binit k) = disk k" "io_frame ?k0 (binit k)"
    "idequeue (binit k) = idequeue k"
    by (auto simp: binit_def)
  show io: "io_frame k (binit k)" using B(5) by (simp add: io_frame_def)
  show mru: "mru_list (bufs (binit k)) (rev [0 ..< NBUF])"
    using B(1) by (auto simp: mru_part_def mru_list_def chain_fchain)
  show "disk (binit k) = disk k" "\<And>i. i < NBUF \<Longrightarrow> unused_buf d (buf_at (binit k) i)" by (fact B(4), fact B(2))
  have drv': "drive_ok (binit k) d"
    by (rule drive_ok_frame [OF drv io B(6)]) (use drv B(4) in \<open>simp add: drive_ok_def dblock_def\<close>)
  have u: "b_flags (buf_at (binit k) i) = 0" "b_dev (buf_at (binit k) i) \<noteq> d" "b_refcnt (buf_at (binit k) i) = 0"
    "length (b_data (buf_at (binit k) i)) = BSIZE" "\<not> dirty (buf_at (binit k) i)" if "i < NBUF" for i
    using B(2) [OF that] by (simp_all add: unused_buf_def dirty_def)
  then show "dirt (binit k) d = {}" by (auto simp: dirt_def)
  show "bc_inv (binit k) d {}" unfolding bc_inv_def using drv' mru u B(3) by (auto simp: flags_ok_def)
qed

end
