(* ===== verification/Recovery.thy ===== *)
theory Recovery
  imports Cache
begin

text \<open>
  Crash recovery (\<open>log.c\<close> over \<open>bio.c\<close> and \<open>ide.c\<close>). The first part is a redo log over any block store; the second shows
  that \<open>commit\<close> and \<open>recover_from_log\<close> are one, so that a crash after any number of the sector writes of a commit leaves
  either the old or the new contents of every block.
\<close>

subsection \<open>A redo log\<close>

definition play :: "('a \<times> 'b) list \<Rightarrow> ('a \<Rightarrow> 'b) \<Rightarrow> 'a \<Rightarrow> 'b" where
  "play ws D = fold (\<lambda>(a, v) D. D(a := v)) ws D"

lemma play_simps [simp]:
  "play [] D = D" "play ((a, v) # ws) D = play ws (D(a := v))" "play (us @ ws) D = play ws (play us D)"
  by (simp_all add: play_def)

lemma play_other: "a \<notin> fst ` set ws \<Longrightarrow> play ws D a = D a"
  by (induction ws arbitrary: D) auto

lemma play_cases: "play ws D a = D a \<or> (a, play ws D a) \<in> set ws"
  by (induction ws rule: rev_induct) (auto split: if_splits)

lemma play_fun: "a \<in> set as \<Longrightarrow> play (map (\<lambda>a. (a, V a)) as) D a = V a"
proof (induction as arbitrary: D)
  case (Cons x xs)
  then show ?case by (cases "a \<in> set xs") (auto simp: play_other image_iff)
qed simp

lemma play_map:
  assumes "inj_on f (set xs)" and "x \<in> set xs"
  shows "play (map (\<lambda>x. (f x, g x)) xs) D (f x) = g x"
  using assms
proof (induction xs arbitrary: D)
  case (Cons y ys)
  show ?case
  proof (cases "x \<in> set ys")
    case False
    then have "f x \<notin> f ` set ys" using Cons.prems by (auto simp: inj_on_def)
    then show ?thesis using Cons.prems False by (auto simp: play_other image_image)
  qed (use Cons in \<open>auto simp: inj_on_def\<close>)
qed simp

text \<open>
  A redo log with a header block \<open>hdr\<close> and data slots: \<open>ecd as old\<close> is a header that names the blocks \<open>as\<close>, written over
  the header \<open>old\<close>, and \<open>dcd\<close> reads it.
\<close>

definition log_writes :: "(nat \<Rightarrow> 'a) \<Rightarrow> 'a list \<Rightarrow> ('a \<Rightarrow> 'b) \<Rightarrow> ('a \<times> 'b) list" where
  "log_writes slot as V = map (\<lambda>i. (slot i, V (as ! i))) [0 ..< length as]"

definition home_writes :: "(nat \<Rightarrow> 'a) \<Rightarrow> 'a list \<Rightarrow> ('a \<Rightarrow> 'b) \<Rightarrow> ('a \<times> 'b) list" where
  "home_writes slot as D = map (\<lambda>i. (as ! i, D (slot i))) [0 ..< length as]"

definition tx_writes :: "'a \<Rightarrow> (nat \<Rightarrow> 'a) \<Rightarrow> ('a list \<Rightarrow> 'b \<Rightarrow> 'b) \<Rightarrow> 'a list \<Rightarrow> ('a \<Rightarrow> 'b) \<Rightarrow> 'b \<Rightarrow> ('a \<times> 'b) list" where
  "tx_writes hdr slot ecd as V old =
     log_writes slot as V @ [(hdr, ecd as old)] @ map (\<lambda>a. (a, V a)) as @ [(hdr, ecd [] (ecd as old))]"

definition redo :: "'a \<Rightarrow> (nat \<Rightarrow> 'a) \<Rightarrow> ('b \<Rightarrow> 'a list) \<Rightarrow> ('a \<Rightarrow> 'b) \<Rightarrow> 'a \<Rightarrow> 'b" where
  "redo hdr slot dcd D = play (home_writes slot (dcd (D hdr)) D) D"

definition log_area :: "'a \<Rightarrow> (nat \<Rightarrow> 'a) \<Rightarrow> nat \<Rightarrow> 'a set" where
  "log_area hdr slot cap = insert hdr (slot ` {..<cap})"

locale redo_log =
  fixes hdr :: 'a and slot :: "nat \<Rightarrow> 'a" and ecd :: "'a list \<Rightarrow> 'b \<Rightarrow> 'b" and dcd :: "'b \<Rightarrow> 'a list"
    and cap :: nat and good :: "'b \<Rightarrow> bool"
  assumes dcd_ecd: "good old \<Longrightarrow> length as \<le> cap \<Longrightarrow> dcd (ecd as old) = as"
    and good_ecd: "good old \<Longrightarrow> length as \<le> cap \<Longrightarrow> good (ecd as old)"
    and slot_inj: "i < cap \<Longrightarrow> j < cap \<Longrightarrow> slot i = slot j \<Longrightarrow> i = j"
    and slot_hdr: "i < cap \<Longrightarrow> slot i \<noteq> hdr"
begin

lemma log_writes_slot:
  assumes "length as \<le> cap" and "i < length as"
  shows "play (log_writes slot as V) D (slot i) = V (as ! i)"
  unfolding log_writes_def using assms slot_inj by (intro play_map) (auto simp: inj_on_def)

lemma log_writes_other:
  assumes "length as \<le> cap" and "a \<notin> slot ` {..<cap}"
  shows "play (take j (log_writes slot as V)) D a = D a"
  using assms by (intro play_other) (auto simp: log_writes_def dest!: in_set_takeD)

lemma redo_empty: "dcd (D hdr) = [] \<Longrightarrow> redo hdr slot dcd D = D"
  by (simp add: redo_def home_writes_def)

lemma redo_committed:
  assumes "dcd (D hdr) = as" and "\<And>i. i < length as \<Longrightarrow> D (slot i) = V (as ! i)"
  shows "redo hdr slot dcd D a = (if a \<in> set as then V a else D a)"
proof -
  have "home_writes slot as D = map (\<lambda>a. (a, V a)) as"
    using assms(2) by (intro nth_equalityI) (simp_all add: home_writes_def)
  then show ?thesis using assms(1) play_fun [of a as V D] by (auto simp: redo_def play_other image_iff)
qed

text \<open>The header after \<open>j\<close> of the writes.\<close>

lemma crash_hdr:
  assumes "length as \<le> cap" and "set as \<inter> log_area hdr slot cap = {}"
  shows "play (take j (tx_writes hdr slot ecd as V (D hdr))) D hdr \<in> {D hdr, ecd as (D hdr), ecd [] (ecd as (D hdr))}"
proof -
  let ?ws = "tx_writes hdr slot ecd as V (D hdr)"
  have "hdr \<notin> set as" using assms(2) by (auto simp: log_area_def)
  moreover have "hdr \<noteq> slot i" if "i < length as" for i using slot_hdr that assms(1) by (metis order_less_le_trans)
  ultimately have "v \<in> {ecd as (D hdr), ecd [] (ecd as (D hdr))}" if "(hdr, v) \<in> set ?ws" for v
    using that by (fastforce simp: tx_writes_def log_writes_def)
  then show ?thesis using play_cases [of "take j ?ws" D hdr] in_set_takeD by fastforce
qed

text \<open>A crash after \<open>j\<close> of the writes, then recovery.\<close>

lemma crash:
  assumes D: "good (D hdr)" "dcd (D hdr) = []" and as: "length as \<le> cap" "set as \<inter> log_area hdr slot cap = {}" and a: "a \<notin> log_area hdr slot cap"
  shows "redo hdr slot dcd (play (take j (tx_writes hdr slot ecd as V (D hdr))) D) a =
    (if length as < j \<and> a \<in> set as then V a else D a)"
proof -
  let ?L = "log_writes slot as V" and ?h = "ecd as (D hdr)" and ?H = "map (\<lambda>a. (a, V a)) as"
  have n: "length ?L = length as" by (simp add: log_writes_def)
  have hs: "hdr \<notin> slot ` {..<cap}" using slot_hdr by auto
  have a': "a \<noteq> hdr" "a \<notin> slot ` {..<cap}" using a by (auto simp: log_area_def)
  have hd_as: "hdr \<notin> set as" "\<And>i. i < cap \<Longrightarrow> slot i \<notin> set as" using as(2) by (auto simp: log_area_def)
  consider "j \<le> length as" | i where "j = Suc (length as + i)" "i \<le> length as" | "j > 2 * length as + 1"
    by (cases "j \<le> length as"; cases "j \<le> 2 * length as + 1") (auto dest!: less_imp_Suc_add simp: not_le)
  then show ?thesis
  proof cases
    case 1
    then have t: "take j (tx_writes hdr slot ecd as V (D hdr)) = take j ?L" by (simp add: tx_writes_def n)
    have "redo hdr slot dcd (play (take j ?L) D) = play (take j ?L) D"
      by (rule redo_empty) (simp add: log_writes_other [OF as(1) hs] D)
    then show ?thesis using 1 log_writes_other [OF as(1) a'(2)] by (simp add: t)
  next
    case 2
    let ?D = "play (take i ?H) ((play ?L D)(hdr := ?h))"
    have t: "take j (tx_writes hdr slot ecd as V (D hdr)) = ?L @ [(hdr, ?h)] @ take i ?H"
      using 2 by (simp add: tx_writes_def n)
    have out: "?D x = ((play ?L D)(hdr := ?h)) x" if "x \<notin> set as" for x
      using that by (intro play_other) (auto dest!: in_set_takeD)
    have "redo hdr slot dcd ?D a = (if a \<in> set as then V a else ?D a)"
    proof (rule redo_committed)
      show "dcd (?D hdr) = as" using out [OF hd_as(1)] dcd_ecd [OF D(1) as(1)] by simp
      show "?D (slot i) = V (as ! i)" if "i < length as" for i
        using that as(1) out [of "slot i"] hd_as(2) [of i] slot_hdr [of i] log_writes_slot [OF as(1) that] by simp
    qed
    moreover have "play ?L D a = D a" using log_writes_other [OF as(1) a'(2), of "length ?L" V D] by simp
    moreover have "length as < j" using 2 by simp
    ultimately show ?thesis unfolding t using out [of a] a' by simp
  next
    case 3
    let ?D = "play ?H ((play ?L D)(hdr := ?h))"
    have t: "take j (tx_writes hdr slot ecd as V (D hdr)) = ?L @ [(hdr, ?h)] @ ?H @ [(hdr, ecd [] ?h)]"
      using 3 by (simp add: tx_writes_def n)
    have "redo hdr slot dcd (?D(hdr := ecd [] ?h)) = ?D(hdr := ecd [] ?h)"
      by (rule redo_empty) (simp add: dcd_ecd [OF good_ecd [OF D(1) as(1)]])
    moreover have "?D a = (if a \<in> set as then V a else D a)"
      using play_fun [of a as V] a' log_writes_other [OF as(1) a'(2), of "length ?L" V D] by (auto simp: play_other image_iff)
    ultimately show ?thesis using 3 a' by (simp add: t)
  qed
qed

end

subsection \<open>The header of the log\<close>

definition hdr :: "int \<Rightarrow> u32" where "hdr st = word_of_int st"
definition slot :: "int \<Rightarrow> nat \<Rightarrow> u32" where "slot st i = word_of_int (st + int i + 1)"

definition LOGCAP :: nat where "LOGCAP = nat LOGSIZE - 1"

definition hdr_dec :: "u8 list \<Rightarrow> u32 list" where
  "hdr_dec bs = map (\<lambda>i. rd32 bs (4 + 4 * i)) [0 ..< nat (sint (rd32 bs 0))]"

lemma LOGCAP_simp [simp]: "LOGCAP = 29" "LOGSIZE = 30"
  by (simp_all add: LOGCAP_def LOGSIZE_def MAXOPBLOCKS_def)

text \<open>Writing the array of block numbers: entry \<open>i\<close> is word \<open>i + 1\<close> of the block.\<close>

definition wr_entries :: "(nat \<Rightarrow> u32) \<Rightarrow> nat list \<Rightarrow> u8 list \<Rightarrow> u8 list" where
  "wr_entries f xs bs = fold (\<lambda>i bs. wr32 bs (4 + 4 * i) (f i)) xs bs"

lemma wr_entries_simps [simp]:
  "wr_entries f [] bs = bs" "wr_entries f (x # xs) bs = wr_entries f xs (wr32 bs (4 + 4 * x) (f x))"
  by (simp_all add: wr_entries_def)

lemma wr_entries_cong: "xs = ys \<Longrightarrow> (\<And>i. i \<in> set ys \<Longrightarrow> f i = g i) \<Longrightarrow> wr_entries f xs bs = wr_entries g ys bs"
  by (induction xs arbitrary: ys bs) auto

lemma wr_entries_length [simp]:
  "(\<And>i. i \<in> set xs \<Longrightarrow> 4 + 4 * i + 4 \<le> length bs) \<Longrightarrow> length (wr_entries f xs bs) = length bs"
  by (induction xs arbitrary: bs) auto

lemma wr_entries_other:
  "(\<And>i. i \<in> set xs \<Longrightarrow> 4 + 4 * i + 4 \<le> length bs) \<Longrightarrow> 4 * j + 4 \<le> length bs \<Longrightarrow> (\<And>i. i \<in> set xs \<Longrightarrow> j \<noteq> Suc i) \<Longrightarrow>
   rd32 (wr_entries f xs bs) (4 * j) = rd32 bs (4 * j)"
proof (induction xs arbitrary: bs)
  case (Cons x xs)
  have "j \<noteq> Suc x" "4 + 4 * x + 4 \<le> length bs" using Cons.prems by simp_all
  then have "rd32 (wr32 bs (4 + 4 * x) (f x)) (4 * j) = rd32 bs (4 * j)" using Cons.prems(2) by (intro rd_wr_other(1)) auto
  then show ?case using Cons by simp
qed simp

lemma wr_entries_at:
  "(\<And>i. i \<in> set xs \<Longrightarrow> 4 + 4 * i + 4 \<le> length bs) \<Longrightarrow> distinct xs \<Longrightarrow> i \<in> set xs \<Longrightarrow>
   rd32 (wr_entries f xs bs) (4 + 4 * i) = f i"
proof (induction xs arbitrary: bs)
  case (Cons x xs)
  show ?case
  proof (cases "i = x")
    case True
    then have "rd32 (wr_entries f xs (wr32 bs (4 + 4 * x) (f x))) (4 * Suc x) = rd32 (wr32 bs (4 + 4 * x) (f x)) (4 * Suc x)"
      using Cons.prems by (intro wr_entries_other) auto
    then show ?thesis using True Cons.prems by simp
  qed (use Cons in simp)
qed simp

definition hdr_enc :: "u32 list \<Rightarrow> u8 list \<Rightarrow> u8 list" where
  "hdr_enc as bs = wr_entries (\<lambda>i. as ! i) [0 ..< length as] (wr32 bs 0 (of_nat (length as)))"

lemma hdr_enc_length [simp]: "length as \<le> LOGCAP \<Longrightarrow> length bs = BSIZE \<Longrightarrow> length (hdr_enc as bs) = BSIZE"
  unfolding hdr_enc_def by (subst wr_entries_length) (auto simp: BSIZE_def)

lemma sint_small: "n < 2 ^ 31 \<Longrightarrow> sint (of_nat n :: u32) = int n"
  by (simp add: signed_of_nat signed_take_bit_int_eq_self)

lemma hdr_dec_enc:
  assumes "length as \<le> LOGCAP" and "length bs = BSIZE"
  shows "hdr_dec (hdr_enc as bs) = as"
proof -
  let ?bs = "wr32 bs 0 (of_nat (length as))"
  have len: "4 + 4 * i + 4 \<le> length ?bs" if "i \<in> set [0 ..< length as]" for i using that assms by (simp add: BSIZE_def)
  have "rd32 (hdr_enc as bs) 0 = rd32 ?bs 0"
    using wr_entries_other [of "[0 ..< length as]" ?bs 0] len assms by (simp add: hdr_enc_def BSIZE_def)
  then have "nat (sint (rd32 (hdr_enc as bs) 0)) = length as" using assms by (simp add: BSIZE_def sint_small)
  moreover have "rd32 (hdr_enc as bs) (4 + 4 * i) = as ! i" if "i < length as" for i
    unfolding hdr_enc_def by (rule wr_entries_at [OF len]) (use that in simp_all)
  ultimately show ?thesis by (intro nth_equalityI) (simp_all add: hdr_dec_def)
qed

lemma word_of_int_close:
  assumes "word_of_int x = (word_of_int y :: u32)" and "\<bar>x - y\<bar> < 2 ^ 32"
  shows "x = y"
proof -
  have "x mod 2 ^ 32 = y mod 2 ^ 32" using assms(1) by (simp add: word_of_int_eq_iff take_bit_eq_mod)
  then have "2 ^ 32 dvd x - y" by (simp only: mod_eq_dvd_iff)
  then show ?thesis using dvd_imp_le_int [of "x - y" "2 ^ 32"] assms(2) by fastforce
qed

interpretation xlog: redo_log "hdr st" "slot st" hdr_enc hdr_dec LOGCAP "\<lambda>bs. length bs = BSIZE" for st
proof
  fix i j assume ij: "i < LOGCAP" "j < LOGCAP"
  show "i = j" if "slot st i = slot st j"
    using word_of_int_close [OF that [unfolded slot_def]] ij by simp
  show "slot st i \<noteq> hdr st"
    using word_of_int_close [of "st + int i + 1" st] ij by (auto simp: slot_def hdr_def)
qed (simp_all add: hdr_dec_enc)

lemma write_blocks_ok:
  "i + n \<le> length blk \<Longrightarrow> 4 + 4 * (i + n) \<le> length bs \<Longrightarrow>
   write_blocks n i blk bs = Ok (wr_entries (\<lambda>j. word_of_int (blk ! j)) [i ..< i + n] bs)"
proof (induction n arbitrary: i bs)
  case (Suc n)
  have "[i ..< i + Suc n] = i # [Suc i ..< Suc i + n]" by (simp add: upt_rec)
  then show ?case using Suc.prems Suc.IH [of "Suc i" "wr32 bs (4 + 4 * i) (word_of_int (blk ! i))"] by simp
qed simp

lemma read_blocks_ok:
  "i + n \<le> length blk \<Longrightarrow> 4 + 4 * (i + n) \<le> length bs \<Longrightarrow>
   \<exists>blk'. read_blocks n i bs blk = Ok blk' \<and> length blk' = length blk \<and>
     (\<forall>j < length blk. blk' ! j = (if i \<le> j \<and> j < i + n then sint (rd32 bs (4 + 4 * j)) else blk ! j))"
proof (induction n arbitrary: i blk)
  case (Suc n)
  obtain blk' where b: "read_blocks n (Suc i) bs (blk[i := sint (rd32 bs (4 + 4 * i))]) = Ok blk'" "length blk' = length blk"
    "\<forall>j < length blk. blk' ! j =
       (if Suc i \<le> j \<and> j < Suc i + n then sint (rd32 bs (4 + 4 * j)) else blk[i := sint (rd32 bs (4 + 4 * i))] ! j)"
    using Suc.IH [of "Suc i" "blk[i := sint (rd32 bs (4 + 4 * i))]"] Suc.prems by auto
  have "blk' ! j = (if i \<le> j \<and> j < i + Suc n then sint (rd32 bs (4 + 4 * j)) else blk ! j)" if "j < length blk" for j
    using b(3) that by (cases "j = i") auto
  then show ?case using b(1,2) Suc.prems by simp
qed simp

text \<open>The blocks of the current transaction.\<close>

definition logged :: "logst \<Rightarrow> u32 list" where
  "logged l = map word_of_int (take (nat (lh_n l)) (lh_block l))"

definition log_geo :: "logst \<Rightarrow> u32 \<Rightarrow> bool" where
  "log_geo l d \<longleftrightarrow> l_dev l = d \<and> 0 \<le> l_start l \<and> l_start l + LOGSIZE \<le> uint FSSIZE \<and> length (lh_block l) = nat LOGSIZE \<and>
     0 \<le> lh_n l \<and> lh_n l < LOGSIZE"

lemma logged_length [simp]: "log_geo l d \<Longrightarrow> length (logged l) = nat (lh_n l)"
  by (auto simp: logged_def log_geo_def min_def)

lemma logged_nth: "log_geo l d \<Longrightarrow> t < nat (lh_n l) \<Longrightarrow> logged l ! t = word_of_int (lh_block l ! t)"
  by (auto simp: logged_def log_geo_def)

lemma small_block: "0 \<le> x \<Longrightarrow> x < uint FSSIZE \<Longrightarrow> (word_of_int x :: u32) < FSSIZE"
  by (simp add: FSSIZE_def word_less_def uint_word_of_int)

lemma geo_range:
  assumes "log_geo l d"
  shows "hdr (l_start l) < FSSIZE" "i < LOGCAP \<Longrightarrow> slot (l_start l) i < FSSIZE"
  unfolding hdr_def slot_def by (rule small_block; use assms in \<open>simp add: log_geo_def\<close>)+

lemma word_of_int_sint_blocks [simp]: "word_of_int (sint w) = (w :: u32)"
  by simp

text \<open>The disk writes of an operation.\<close>

definition dw :: "u32 \<Rightarrow> (u32 \<times> u8 list) list \<Rightarrow> (u32 \<times> nat \<times> u8 list) list" where
  "dw d ws = map (\<lambda>(n, bs). (d AND 1, unat n, bs)) ws"

definition play_disk :: "(u32 \<times> nat \<times> u8 list) list \<Rightarrow> (u32 \<Rightarrow> nat \<Rightarrow> u8 list) \<Rightarrow> u32 \<Rightarrow> nat \<Rightarrow> u8 list" where
  "play_disk ws D = fold (\<lambda>(d, s, bs) D. D(d := (D d)(s := bs))) ws D"

definition wrote :: "kernel \<Rightarrow> kernel \<Rightarrow> u32 \<Rightarrow> (u32 \<times> u8 list) list \<Rightarrow> bool" where
  "wrote k k' d ws \<longleftrightarrow> dwrites k' = dwrites k @ dw d ws \<and> disk k' = play_disk (dw d ws) (disk k)"

lemma wrote_trans: "wrote k k' d us \<Longrightarrow> wrote k' k'' d vs \<Longrightarrow> wrote k k'' d (us @ vs)"
  by (simp add: wrote_def dw_def play_disk_def)

lemma wrote_quiet: "quiet k k' d \<Longrightarrow> wrote k k' d []"
  by (simp add: wrote_def quiet_def dw_def play_disk_def)

lemma play_disk_dw: "play_disk (dw d ws) D (d AND 1) (unat n) = play ws (\<lambda>n. D (d AND 1) (unat n)) n"
proof (induction ws arbitrary: D)
  case (Cons w ws)
  obtain a v where w: "w = (a, v)" by (cases w)
  have eq: "(\<lambda>n. (D(d AND 1 := (D (d AND 1))(unat a := v))) (d AND 1) (unat n)) = (\<lambda>n. D (d AND 1) (unat n))(a := v)"
    by (auto simp: word_unat_eq_iff)
  have "play_disk (dw d (w # ws)) D = play_disk (dw d ws) (D(d AND 1 := (D (d AND 1))(unat a := v)))"
    by (simp add: w dw_def play_disk_def)
  then show ?case unfolding w play_simps eq [symmetric] by (simp only: Cons)
qed (simp add: dw_def play_disk_def)

lemma wrote_dblock: "wrote k k' d ws \<Longrightarrow> dblock k' d = play ws (dblock k d)"
  using play_disk_dw [of d ws "disk k"] by (auto simp: wrote_def dblock_def [abs_def])

lemma io_frame_trans: "io_frame k k' \<Longrightarrow> io_frame k' k'' \<Longrightarrow> io_frame k k''"
  by (simp add: io_frame_def)

lemma view_clean: "bc_inv k d {} \<Longrightarrow> n \<notin> dirt k d \<Longrightarrow> view k d n = dblock k d n"
proof (cases "\<exists>i < NBUF. caches d n (buf_at k i) \<and> valid (buf_at k i)")
  case True
  assume a: "bc_inv k d {}" "n \<notin> dirt k d"
  obtain i where i: "i < NBUF" "caches d n (buf_at k i)" "valid (buf_at k i)" using True by blast
  then have "\<not> dirty (buf_at k i)" using a(2) by (auto simp: dirt_def)
  then show ?thesis using view_cached [OF a(1) i] bc_invD(9) [OF a(1) i] by simp
qed (use view_uncached in blast)

subsection \<open>Copying a block within the cache\<close>

lemma core_caches: "core x = core y \<Longrightarrow> caches d n x = caches d n y" "core x = core y \<Longrightarrow> valid x = valid y"
  by (auto simp: caches_def valid_def dest: core_fields)

text \<open>
  The statements that \<open>install_trans\<close> and \<open>write_log\<close> share: buffer \<open>s\<close> is copied to buffer \<open>t\<close>, which is written to the
  disk, and both are released.
\<close>

lemma copy_release:
  assumes inv: "bc_inv k d {s, t}" and st: "s \<noteq> t" "a \<noteq> b"
    and s: "caches d a (buf_at k s)" "valid (buf_at k s)" and t: "caches d b (buf_at k t)" "valid (buf_at k t)"
    and settled: "a \<in> dirt k d \<or> b_data (buf_at k s) = dblock k d a"
  obtains k' where "bindR (bwrite (set_data k t (b_data (buf_at k s))) t) (\<lambda>k. bindR (brelse k s) (\<lambda>k. brelse k t)) = Ok k'"
    "bc_inv k' d {}" "view k' d = (view k d)(b := b_data (buf_at k s))" "dirt k' d = dirt k d - {b}"
    "wrote k k' d [(b, b_data (buf_at k s))]" "io_frame k k'"
proof -
  let ?v = "b_data (buf_at k s)"
  have len: "length ?v = BSIZE" "t < length (bufs k)" "s < NBUF" "t < NBUF"
    using bc_invD(2,3,5) [OF inv] by auto
  let ?k1 = "upd_buf k t (\<lambda>x. x\<lparr>b_data := ?v\<rparr>)"
  note k1 = set_data_spec [OF inv _ t len(1), simplified]
  have t1: "caches d b (buf_at ?k1 t)" "valid (buf_at ?k1 t)" "b_data (buf_at ?k1 t) = ?v" "buf_at ?k1 s = buf_at k s"
    using t st len by (simp_all add: caches_def valid_def)
  obtain k2 where k2: "bwrite ?k1 t = Ok k2" "bc_inv k2 d {s, t}" "view k2 d = view ?k1 d" "dirt k2 d = dirt ?k1 d - {b}"
    "io_frame ?k1 k2" "disk k2 = (disk ?k1)(d AND 1 := (disk ?k1 (d AND 1))(unat b := b_data (buf_at ?k1 t)))"
    "dwrites k2 = dwrites ?k1 @ [(d AND 1, unat b, b_data (buf_at ?k1 t))]"
    "caches d b (buf_at k2 t)" "valid (buf_at k2 t)" "b_data (buf_at k2 t) = b_data (buf_at ?k1 t)"
    "\<forall>i. i \<noteq> t \<longrightarrow> buf_at k2 i = buf_at ?k1 i"
    by (rule bwrite_spec [OF k1(1) _ t1(1,2)]) simp_all
  have w2: "wrote k k2 d [(b, ?v)]" using k2(6,7) t1(3) by (simp add: wrote_def dw_def play_disk_def)
  note db2 = wrote_dblock [OF w2]
  have s2: "caches d a (buf_at k2 s)" "valid (buf_at k2 s)" "a \<in> dirt k2 d \<or> b_data (buf_at k2 s) = dblock k2 d a"
    using s settled st k2(4,11) k1(3) t1(4) db2 by auto
  obtain k3 where k3: "brelse k2 s = Ok k3" "bc_inv k3 d ({s, t} - {s})" "quiet k2 k3 d"
    "\<forall>i < NBUF. i \<noteq> s \<longrightarrow> core (buf_at k3 i) = core (buf_at k2 i)"
    by (rule brelse_spec [OF k2(2) insertI1 s2])
  have inv3: "bc_inv k3 d {t}" using k3(2) st by (simp add: insert_Diff_if)
  have db3: "dblock k3 d = dblock k2 d" using k3(3) by (simp add: quiet_def dblock_def [abs_def])
  have c3: "core (buf_at k3 t) = core (buf_at k2 t)" using k3(4) len(4) st(1) by simp
  have t3: "caches d b (buf_at k3 t)" "valid (buf_at k3 t)" "b_data (buf_at k3 t) = dblock k3 d b"
    using core_caches [OF c3] core_fields(6) [OF c3] k2(8-10) t1(3) db2 db3 by simp_all
  obtain k4 where k4: "brelse k3 t = Ok k4" "bc_inv k4 d ({t} - {t})" "quiet k3 k4 d"
    by (rule brelse_spec [OF inv3 _ t3(1,2)]) (use t3(3) in simp_all)
  have "wrote k k4 d [(b, ?v)]"
    using wrote_trans [OF wrote_trans [OF w2 wrote_quiet [OF k3(3)]] wrote_quiet [OF k4(3)]] by simp
  moreover have "view k4 d = (view k d)(b := ?v)" "dirt k4 d = dirt k d - {b}" "io_frame k k4"
    using k1(2,3,6) k2(3-5) k3(3) k4(3) by (auto simp: quiet_def intro: io_frame_trans)
  ultimately show thesis using that [of k4] k2(1) k3(1) k4(1,2) by simp
qed

subsection \<open>The steps of a commit\<close>

abbreviation lslot :: "kernel \<Rightarrow> nat \<Rightarrow> u32" where "lslot k \<equiv> slot (l_start (lg k))"
abbreviation lhdr :: "kernel \<Rightarrow> u32" where "lhdr k \<equiv> hdr (l_start (lg k))"

lemma idx_block: "log_geo l d \<Longrightarrow> t < nat (lh_n l) \<Longrightarrow> idx s (lh_block l) (nat (int t)) = Ok (lh_block l ! t)"
  by (auto simp: idx_def log_geo_def)

lemma geo_lt: "log_geo l d \<Longrightarrow> t < nat (lh_n l) \<Longrightarrow> t < LOGCAP"
  by (auto simp: log_geo_def)

lemma dirt_range: "bc_inv k d H \<Longrightarrow> n \<in> dirt k d \<Longrightarrow> n < FSSIZE"
  using bc_invD(4,10) dirty_valid by (fastforce simp: dirt_def)

lemma write_log_block_spec:
  assumes inv: "bc_inv k d {}" and geo: "log_geo (lg k) d" and t: "t < nat (lh_n (lg k))"
    and n: "logged (lg k) ! t \<in> dirt k d" and sl: "lslot k t \<notin> dirt k d" and room: "card (dirt k d) < NBUF"
  obtains k' where "write_log_block k (int t) = Ok k'" "bc_inv k' d {}" "dirt k' d = dirt k d"
    "view k' d = (view k d)(lslot k t := view k d (logged (lg k) ! t))"
    "wrote k k' d [(lslot k t, view k d (logged (lg k) ! t))]" "io_frame k k'"
proof -
  let ?a = "logged (lg k) ! t" and ?b = "lslot k t"
  have dev: "l_dev (lg k) = d" using geo by (simp add: log_geo_def)
  have ne: "?a \<noteq> ?b" using n sl by metis
  obtain to k1 where r1: "bread k d ?b = Ok (to, k1)" "to < NBUF" "to \<notin> {}" "bc_inv k1 d (insert to {})" "caches d ?b (buf_at k1 to)"
    "valid (buf_at k1 to)" "b_data (buf_at k1 to) = view k d ?b" "quiet k k1 d" "\<forall>i. i \<noteq> to \<longrightarrow> buf_at k1 i = buf_at k i"
    by (rule bread_spec [OF inv geo_range(2) [OF geo geo_lt [OF geo t]]]) (use room in auto)
  have k1: "lg k1 = lg k" "dirt k1 d = dirt k d" "view k1 d = view k d" using r1(8) by (simp_all add: quiet_def io_frame_def)
  have nh: "\<not> caches d ?a (buf_at k1 i)" if "i \<in> {to}" for i using that r1(5) ne by (auto simp: caches_def)
  obtain fr k2 where r2: "bread k1 d ?a = Ok (fr, k2)" "fr < NBUF" "fr \<notin> {to}" "bc_inv k2 d (insert fr {to})"
    "caches d ?a (buf_at k2 fr)" "valid (buf_at k2 fr)" "b_data (buf_at k2 fr) = view k1 d ?a" "quiet k1 k2 d"
    "\<forall>i. i \<noteq> fr \<longrightarrow> buf_at k2 i = buf_at k1 i"
    by (rule bread_spec [OF r1(4) dirt_range [OF inv n] nh]) (use n k1 in auto)
  have k2: "dirt k2 d = dirt k d" "view k2 d = view k d" using r2(8) k1 by (simp_all add: quiet_def)
  have ft: "fr \<noteq> to" using r2(3) by simp
  have st: "?a \<in> dirt k2 d \<or> b_data (buf_at k2 fr) = dblock k2 d ?a" using n k2 by simp
  have t2: "caches d ?b (buf_at k2 to)" "valid (buf_at k2 to)" using r1(5,6) r2(9) ft by simp_all
  obtain k' where k': "bindR (bwrite (set_data k2 to (b_data (buf_at k2 fr))) to) (\<lambda>k. bindR (brelse k fr) (\<lambda>k. brelse k to)) = Ok k'"
    "bc_inv k' d {}" "view k' d = (view k2 d)(?b := b_data (buf_at k2 fr))" "dirt k' d = dirt k2 d - {?b}"
    "wrote k2 k' d [(?b, b_data (buf_at k2 fr))]" "io_frame k2 k'"
    by (rule copy_release [OF r2(4) ft ne r2(5,6) t2 st])
  have "write_log_block k (int t) = Ok k'"
    using r1(1) r2(1) k'(1) k1(1) idx_block [OF geo t] logged_nth [OF geo t]
    by (simp add: write_log_block_def dev slot_def)
  moreover have "wrote k k' d [(?b, view k d ?a)]"
    using wrote_trans [OF wrote_trans [OF wrote_quiet [OF r1(8)] wrote_quiet [OF r2(8)]] k'(5)] r2(7) k1 by simp
  moreover have "io_frame k k'" using r1(8) r2(8) k'(6) by (auto simp: quiet_def intro: io_frame_trans)
  ultimately show thesis using that k' k2 r2(7) k1 sl by simp
qed

lemma install_block_spec:
  assumes inv: "bc_inv k d {}" and geo: "log_geo (lg k) d" and t: "t < nat (lh_n (lg k))"
    and n: "logged (lg k) ! t < FSSIZE" "logged (lg k) ! t \<noteq> lslot k t" and sl: "lslot k t \<notin> dirt k d"
    and room: "card (dirt k d) < NBUF" "logged (lg k) ! t \<in> dirt k d \<or> dirt k d = {}"
  obtains k' where "install_block k (int t) = Ok k'" "bc_inv k' d {}" "dirt k' d = dirt k d - {logged (lg k) ! t}"
    "wrote k k' d [(logged (lg k) ! t, dblock k d (lslot k t))]" "io_frame k k'"
proof -
  let ?b = "logged (lg k) ! t" and ?a = "lslot k t"
  have dev: "l_dev (lg k) = d" using geo by (simp add: log_geo_def)
  obtain lb k1 where r1: "bread k d ?a = Ok (lb, k1)" "lb < NBUF" "lb \<notin> {}" "bc_inv k1 d (insert lb {})" "caches d ?a (buf_at k1 lb)"
    "valid (buf_at k1 lb)" "b_data (buf_at k1 lb) = view k d ?a" "quiet k k1 d" "\<forall>i. i \<noteq> lb \<longrightarrow> buf_at k1 i = buf_at k i"
    by (rule bread_spec [OF inv geo_range(2) [OF geo geo_lt [OF geo t]]]) (use room in auto)
  have k1: "lg k1 = lg k" "dirt k1 d = dirt k d" "view k1 d = view k d" using r1(8) by (simp_all add: quiet_def io_frame_def)
  have nh: "\<not> caches d ?b (buf_at k1 i)" if "i \<in> {lb}" for i using that r1(5) n by (auto simp: caches_def)
  obtain db k2 where r2: "bread k1 d ?b = Ok (db, k2)" "db < NBUF" "db \<notin> {lb}" "bc_inv k2 d (insert db {lb})"
    "caches d ?b (buf_at k2 db)" "valid (buf_at k2 db)" "b_data (buf_at k2 db) = view k1 d ?b" "quiet k1 k2 d"
    "\<forall>i. i \<noteq> db \<longrightarrow> buf_at k2 i = buf_at k1 i"
    by (rule bread_spec [OF r1(4) n(1) nh]) (use room k1 in \<open>auto simp: NBUF_def\<close>)
  have k2: "dirt k2 d = dirt k d" "dblock k2 d = dblock k d"
    using r1(8) r2(8) k1 by (simp_all add: quiet_def dblock_def [abs_def])
  have ft: "lb \<noteq> db" using r2(3) by simp
  have s2: "caches d ?a (buf_at k2 lb)" "valid (buf_at k2 lb)" "b_data (buf_at k2 lb) = dblock k d ?a"
    using r1(5-7) r2(9) ft view_clean [OF inv sl] by simp_all
  have st: "?a \<in> dirt k2 d \<or> b_data (buf_at k2 lb) = dblock k2 d ?a" using s2 k2 by simp
  have inv2: "bc_inv k2 d {lb, db}" using r2(4) by (simp add: insert_commute)
  obtain k' where k': "bindR (bwrite (set_data k2 db (b_data (buf_at k2 lb))) db) (\<lambda>k. bindR (brelse k lb) (\<lambda>k. brelse k db)) = Ok k'"
    "bc_inv k' d {}" "view k' d = (view k2 d)(?b := b_data (buf_at k2 lb))" "dirt k' d = dirt k2 d - {?b}"
    "wrote k2 k' d [(?b, b_data (buf_at k2 lb))]" "io_frame k2 k'"
    by (rule copy_release [OF inv2 ft n(2) [symmetric] s2(1,2) r2(5,6) st])
  have "install_block k (int t) = Ok k'"
    using r1(1) r2(1) k'(1) k1(1) idx_block [OF geo t] logged_nth [OF geo t]
    by (simp add: install_block_def dev slot_def)
  moreover have "wrote k k' d [(?b, dblock k d ?a)]"
    using wrote_trans [OF wrote_trans [OF wrote_quiet [OF r1(8)] wrote_quiet [OF r2(8)]] k'(5)] s2(3) by simp
  moreover have "io_frame k k'" using r1(8) r2(8) k'(6) by (auto simp: quiet_def intro: io_frame_trans)
  ultimately show thesis using that k' k2 by simp
qed

lemma frame_lg: "io_frame k k' \<Longrightarrow> lg k' = lg k"
  by (simp add: io_frame_def)

lemma write_log_from_ok:
  assumes "bc_inv k d {}" and "log_geo (lg k) d" and "t + n \<le> nat (lh_n (lg k))" and "set (logged (lg k)) \<subseteq> dirt k d"
    and "\<And>i. i < LOGCAP \<Longrightarrow> lslot k i \<notin> dirt k d" and "card (dirt k d) < NBUF"
  shows "\<exists>k'. write_log_from n (int t) k = Ok k' \<and> bc_inv k' d {} \<and> dirt k' d = dirt k d \<and> io_frame k k' \<and>
    (\<forall>a \<in> dirt k d. view k' d a = view k d a) \<and>
    wrote k k' d (map (\<lambda>i. (lslot k i, view k d (logged (lg k) ! i))) [t ..< t + n])"
  using assms
proof (induction n arbitrary: t k)
  case 0
  then show ?case by (auto simp: wrote_def dw_def play_disk_def io_frame_def)
next
  case (Suc n)
  have t: "t < nat (lh_n (lg k))" using Suc.prems(3) by simp
  have nth: "logged (lg k) ! i \<in> dirt k d" if "i < nat (lh_n (lg k))" for i
    using nth_mem [of i "logged (lg k)"] that Suc.prems(4) logged_length [OF Suc.prems(2)] by auto
  have sl: "lslot k t \<notin> dirt k d" using Suc.prems(5) geo_lt [OF Suc.prems(2) t] by blast
  obtain k1 where k1: "write_log_block k (int t) = Ok k1" "bc_inv k1 d {}" "dirt k1 d = dirt k d"
    "view k1 d = (view k d)(lslot k t := view k d (logged (lg k) ! t))"
    "wrote k k1 d [(lslot k t, view k d (logged (lg k) ! t))]" "io_frame k k1"
    by (rule write_log_block_spec [OF Suc.prems(1,2) t nth [OF t] sl Suc.prems(6)])
  have v1: "view k1 d a = view k d a" if "a \<in> dirt k d" for a using that k1(4) sl by auto
  note lg = frame_lg [OF k1(6)]
  obtain k' where k': "write_log_from n (int (Suc t)) k1 = Ok k'" "bc_inv k' d {}" "dirt k' d = dirt k d" "io_frame k1 k'"
    "\<forall>a \<in> dirt k d. view k' d a = view k1 d a"
    "wrote k1 k' d (map (\<lambda>i. (lslot k i, view k1 d (logged (lg k) ! i))) [Suc t ..< Suc t + n])"
    using Suc.IH [of k1 "Suc t"] Suc.prems k1(2,3) lg by auto
  have m: "map (\<lambda>i. (lslot k i, view k1 d (logged (lg k) ! i))) [Suc t ..< Suc t + n] =
      map (\<lambda>i. (lslot k i, view k d (logged (lg k) ! i))) [Suc t ..< Suc t + n]"
    using v1 nth Suc.prems(3) by auto
  have "[t ..< t + Suc n] = t # [Suc t ..< Suc t + n]" by (simp add: upt_rec)
  then have "wrote k k' d (map (\<lambda>i. (lslot k i, view k d (logged (lg k) ! i))) [t ..< t + Suc n])"
    using wrote_trans [OF k1(5) k'(6) [unfolded m]] by simp
  then show ?case using k1(1) k' v1 io_frame_trans [OF k1(6) k'(4)] by (simp add: add.commute)
qed

lemma install_from_ok:
  assumes "bc_inv k d {}" and "log_geo (lg k) d" and "t + n \<le> nat (lh_n (lg k))"
    and "set (logged (lg k)) \<inter> log_area (lhdr k) (lslot k) LOGCAP = {}" and "\<And>a. a \<in> set (logged (lg k)) \<Longrightarrow> a < FSSIZE"
    and "\<And>i. i < LOGCAP \<Longrightarrow> lslot k i \<notin> dirt k d" and "card (dirt k d) < NBUF"
    and "dirt k d = {} \<or> distinct (logged (lg k)) \<and> (\<forall>i. t \<le> i \<and> i < nat (lh_n (lg k)) \<longrightarrow> logged (lg k) ! i \<in> dirt k d)"
  shows "\<exists>k'. install_from n (int t) k = Ok k' \<and> bc_inv k' d {} \<and> io_frame k k' \<and>
    dirt k' d = dirt k d - (\<lambda>i. logged (lg k) ! i) ` {t ..< t + n} \<and>
    wrote k k' d (map (\<lambda>i. (logged (lg k) ! i, dblock k d (lslot k i))) [t ..< t + n])"
  using assms
proof (induction n arbitrary: t k)
  case 0
  then show ?case by (auto simp: wrote_def dw_def play_disk_def io_frame_def)
next
  case (Suc n)
  let ?a = "logged (lg k) ! t"
  have t: "t < nat (lh_n (lg k))" using Suc.prems(3) by simp
  have mem: "logged (lg k) ! i \<in> set (logged (lg k))" if "i < nat (lh_n (lg k))" for i using that Suc.prems(2) by simp
  have ns: "logged (lg k) ! t \<noteq> lslot k i" if "i < LOGCAP" for i
    using mem [OF t] Suc.prems(4) that by (auto simp: log_area_def)
  have room: "?a \<in> dirt k d \<or> dirt k d = {}" using Suc.prems(8) t by blast
  obtain k1 where k1: "install_block k (int t) = Ok k1" "bc_inv k1 d {}" "dirt k1 d = dirt k d - {?a}"
    "wrote k k1 d [(?a, dblock k d (lslot k t))]" "io_frame k k1"
    by (rule install_block_spec [OF Suc.prems(1,2) t Suc.prems(5) [OF mem [OF t]] ns Suc.prems(6) Suc.prems(7) room])
      (use geo_lt [OF Suc.prems(2) t] in auto)
  note lg = frame_lg [OF k1(5)]
  have fin: "finite (dirt k d)" by (rule finite_subset [of _ "(\<lambda>i. b_blockno (buf_at k i)) ` {..<NBUF}"]) (auto simp: dirt_def caches_def)
  have c1: "card (dirt k1 d) < NBUF" using Suc.prems(7) k1(3) card_mono [OF fin, of "dirt k1 d"] by auto
  have d1: "dirt k1 d = {} \<or> distinct (logged (lg k)) \<and> (\<forall>i. Suc t \<le> i \<and> i < nat (lh_n (lg k)) \<longrightarrow> logged (lg k) ! i \<in> dirt k1 d)"
    using Suc.prems(8) k1(3) t logged_length [OF Suc.prems(2)] by (auto simp: nth_eq_iff_index_eq)
  obtain k' where k': "install_from n (int (Suc t)) k1 = Ok k'" "bc_inv k' d {}" "io_frame k1 k'"
    "dirt k' d = dirt k1 d - (\<lambda>i. logged (lg k) ! i) ` {Suc t ..< Suc t + n}"
    "wrote k1 k' d (map (\<lambda>i. (logged (lg k) ! i, dblock k1 d (lslot k i))) [Suc t ..< Suc t + n])"
    using Suc.IH [of k1 "Suc t", unfolded lg, OF k1(2) Suc.prems(2) _ Suc.prems(4,5) _ c1 d1] Suc.prems(3,6) k1(3) by auto
  have "dblock k1 d (lslot k i) = dblock k d (lslot k i)" if "i < nat (lh_n (lg k))" for i
    using wrote_dblock [OF k1(4)] ns [OF geo_lt [OF Suc.prems(2) that]] by (simp add: fun_upd_apply not_sym)
  then have m: "map (\<lambda>i. (logged (lg k) ! i, dblock k1 d (lslot k i))) [Suc t ..< Suc t + n] =
      map (\<lambda>i. (logged (lg k) ! i, dblock k d (lslot k i))) [Suc t ..< Suc t + n]"
    using Suc.prems(3) by auto
  have u: "[t ..< t + Suc n] = t # [Suc t ..< Suc t + n]" "{t ..< t + Suc n} = insert t {Suc t ..< Suc t + n}" by (auto simp: upt_rec)
  have "wrote k k' d (map (\<lambda>i. (logged (lg k) ! i, dblock k d (lslot k i))) [t ..< t + Suc n])"
    unfolding u using wrote_trans [OF k1(4) k'(5) [unfolded m]] by (simp del: upt_Suc)
  moreover have "dirt k' d = dirt k d - (\<lambda>i. logged (lg k) ! i) ` {t ..< t + Suc n}" unfolding u k'(4) k1(3) by auto
  ultimately show ?case using k1(1) k' io_frame_trans [OF k1(5) k'(3)] by (simp add: add.commute)
qed

lemma bc_inv_lg [simp]:
  "bc_inv (k\<lparr>lg := l\<rparr>) d H = bc_inv k d H" "view (k\<lparr>lg := l\<rparr>) d = view k d" "dirt (k\<lparr>lg := l\<rparr>) d = dirt k d"
  "dblock (k\<lparr>lg := l\<rparr>) d = dblock k d" "wrote k0 (k\<lparr>lg := l\<rparr>) d ws = wrote k0 k d ws" "wrote (k\<lparr>lg := l\<rparr>) k1 d ws = wrote k k1 d ws"
proof -
  show "view (k\<lparr>lg := l\<rparr>) d = view k d" by (rule ext) (simp add: view_def dblock_def cong: option.case_cong)
qed (simp_all add: bc_inv_def dirt_def drive_ok_def dblock_def [abs_def] wrote_def)

lemma write_head_spec:
  assumes inv: "bc_inv k d {}" and geo: "log_geo (lg k) d" and h: "lhdr k \<notin> dirt k d" and room: "card (dirt k d) < NBUF"
  obtains k' where "write_head k = Ok k'" "bc_inv k' d {}" "dirt k' d = dirt k d" "io_frame k k'"
    "\<forall>a \<in> dirt k d. view k' d a = view k d a" "wrote k k' d [(lhdr k, hdr_enc (logged (lg k)) (dblock k d (lhdr k)))]"
proof -
  let ?n = "nat (lh_n (lg k))" and ?old = "dblock k d (lhdr k)"
  have dev: "l_dev (lg k) = d" using geo by (simp add: log_geo_def)
  have n: "?n \<le> LOGCAP" "?n \<le> length (lh_block (lg k))" using geo by (auto simp: log_geo_def)
  obtain b k1 where r: "bread k d (lhdr k) = Ok (b, k1)" "b < NBUF" "b \<notin> {}" "bc_inv k1 d (insert b {})" "caches d (lhdr k) (buf_at k1 b)"
    "valid (buf_at k1 b)" "b_data (buf_at k1 b) = view k d (lhdr k)" "quiet k k1 d" "\<forall>i. i \<noteq> b \<longrightarrow> buf_at k1 i = buf_at k i"
    by (rule bread_spec [OF inv geo_range(1) [OF geo]]) (use room in auto)
  have old: "b_data (buf_at k1 b) = ?old" "length ?old = BSIZE"
    using r(7) view_clean [OF inv h] bc_invD(1) [OF inv] geo_range(1) [OF geo] by (simp_all add: drive_ok_def)
  have lg1: "lg k1 = lg k" using r(8) by (simp add: quiet_def io_frame_def)
  let ?bs = "hdr_enc (logged (lg k)) ?old"
  have "wr_entries (\<lambda>j. word_of_int (lh_block (lg k) ! j)) [0 ..< 0 + ?n] (wr32 ?old 0 (word_of_int (lh_n (lg k)))) = ?bs"
  proof -
    have "(word_of_int (lh_n (lg k)) :: u32) = of_nat (length (logged (lg k)))"
      using logged_length [OF geo] geo by (simp add: log_geo_def)
    moreover have "wr_entries (\<lambda>j. word_of_int (lh_block (lg k) ! j)) [0 ..< 0 + ?n] bs =
        wr_entries (\<lambda>j. logged (lg k) ! j) [0 ..< length (logged (lg k))] bs" for bs
      using logged_length [OF geo] logged_nth [OF geo] by (intro wr_entries_cong) simp_all
    ultimately show ?thesis unfolding hdr_enc_def by (simp only:)
  qed
  moreover have "write_blocks ?n 0 (lh_block (lg k)) (wr32 ?old 0 (word_of_int (lh_n (lg k)))) =
      Ok (wr_entries (\<lambda>j. word_of_int (lh_block (lg k) ! j)) [0 ..< 0 + ?n] (wr32 ?old 0 (word_of_int (lh_n (lg k)))))"
    by (rule write_blocks_ok) (use n old in \<open>auto simp: BSIZE_def\<close>)
  ultimately have wb: "write_blocks ?n 0 (lh_block (lg k)) (wr32 ?old 0 (word_of_int (lh_n (lg k)))) = Ok ?bs" by simp
  have len: "length ?bs = BSIZE" using n(1) logged_length [OF geo] old(2) by simp
  let ?k2 = "upd_buf k1 b (\<lambda>x. x\<lparr>b_data := ?bs\<rparr>)"
  have inv1: "bc_inv k1 d {b}" using r(4) by simp
  note k2 = set_data_spec [OF inv1 _ r(5,6) len, simplified]
  have t2: "caches d (lhdr k) (buf_at ?k2 b)" "valid (buf_at ?k2 b)" "b_data (buf_at ?k2 b) = ?bs"
    using r(5,6) k2(7) by (simp_all add: caches_def valid_def)
  obtain k3 where k3: "bwrite ?k2 b = Ok k3" "bc_inv k3 d {b}" "view k3 d = view ?k2 d" "dirt k3 d = dirt ?k2 d - {lhdr k}"
    "io_frame ?k2 k3" "disk k3 = (disk ?k2)(d AND 1 := (disk ?k2 (d AND 1))(unat (lhdr k) := b_data (buf_at ?k2 b)))"
    "dwrites k3 = dwrites ?k2 @ [(d AND 1, unat (lhdr k), b_data (buf_at ?k2 b))]"
    "caches d (lhdr k) (buf_at k3 b)" "valid (buf_at k3 b)" "b_data (buf_at k3 b) = b_data (buf_at ?k2 b)"
    "\<forall>i. i \<noteq> b \<longrightarrow> buf_at k3 i = buf_at ?k2 i"
    by (rule bwrite_spec [OF k2(1) _ t2(1,2)]) simp_all
  have w3: "wrote k1 k3 d [(lhdr k, ?bs)]" using k3(6,7) t2(3) by (simp add: wrote_def dw_def play_disk_def)
  obtain k4 where k4: "brelse k3 b = Ok k4" "bc_inv k4 d ({b} - {b})" "quiet k3 k4 d"
    by (rule brelse_spec [OF k3(2) _ k3(8,9)]) (use k3(10) t2(3) wrote_dblock [OF w3] in simp_all)
  have "write_head k = Ok k4"
    using r(1) k3(1) k4(1) wb old(1) by (simp add: write_head_def dev lg1 hdr_def [symmetric] Let_def)
  moreover have "wrote k k4 d [(lhdr k, ?bs)]"
    using wrote_trans [OF wrote_trans [OF wrote_quiet [OF r(8)] w3] wrote_quiet [OF k4(3)]] by simp
  moreover have "dirt k4 d = dirt k d" "io_frame k k4" "\<forall>a \<in> dirt k d. view k4 d a = view k d a"
    using k2(2,3,6) k3(3-5) k4(3) r(8) h by (auto simp: quiet_def intro: io_frame_trans)
  ultimately show thesis using that k4(2) by simp
qed

subsection \<open>Commit and recovery\<close>

abbreviation larea :: "kernel \<Rightarrow> u32 set" where "larea k \<equiv> log_area (lhdr k) (lslot k) LOGCAP"

text \<open>The state in which \<open>end_op\<close> commits: the dirty blocks are those of the log header, and the log on the disk is empty.\<close>

definition log_ready :: "kernel \<Rightarrow> u32 \<Rightarrow> bool" where
  "log_ready k d \<longleftrightarrow> bc_inv k d {} \<and> log_geo (lg k) d \<and> distinct (logged (lg k)) \<and> set (logged (lg k)) = dirt k d \<and>
     set (logged (lg k)) \<inter> larea k = {} \<and> rd32 (dblock k d (lhdr k)) 0 = 0"

lemma logged_card:
  assumes "log_geo l d"
  shows "card (set (logged l)) < NBUF"
  using card_length [of "logged l"] assms logged_length [OF assms] by (auto simp: log_geo_def NBUF_def)

lemma commit_spec:
  assumes ready: "log_ready k d" and pos: "lh_n (lg k) > 0"
  obtains k' where "commit k = Ok k'" "bc_inv k' d {}" "dirt k' d = {}" "lg k' = (lg k)\<lparr>lh_n := 0\<rparr>"
    "wrote k k' d (tx_writes (lhdr k) (lslot k) hdr_enc (logged (lg k)) (view k d) (dblock k d (lhdr k)))"
proof -
  let ?as = "logged (lg k)" and ?n = "nat (lh_n (lg k))" and ?V = "view k d"
  have inv: "bc_inv k d {}" and geo: "log_geo (lg k) d" and dist: "distinct ?as" and dirt: "dirt k d = set ?as"
    and area: "set ?as \<inter> larea k = {}"
    using ready unfolding log_ready_def by blast+
  have room: "card (dirt k d) < NBUF" using logged_card [OF geo] dirt by simp
  have sl: "lslot k i \<notin> dirt k d" if "i < LOGCAP" for i using area that by (auto simp: dirt log_area_def)
  have h: "lhdr k \<notin> dirt k d" using area by (auto simp: dirt log_area_def)
  have len: "length ?as = ?n" "?n \<le> LOGCAP" using geo by (auto simp: log_geo_def)
  obtain k1 where k1: "write_log_from ?n (int 0) k = Ok k1" "bc_inv k1 d {}" "dirt k1 d = dirt k d" "io_frame k k1"
    "\<forall>a \<in> dirt k d. view k1 d a = ?V a" "wrote k k1 d (map (\<lambda>i. (lslot k i, ?V (?as ! i))) [0 ..< 0 + ?n])"
    using write_log_from_ok [OF inv geo, of 0 ?n] dirt sl room by auto
  have L: "map (\<lambda>i. (lslot k i, ?V (?as ! i))) [0 ..< 0 + ?n] = log_writes (lslot k) ?as ?V" by (simp add: log_writes_def len)
  note lg1 = frame_lg [OF k1(4)]
  have D1: "dblock k1 d = play (log_writes (lslot k) ?as ?V) (dblock k d)" using wrote_dblock [OF k1(6)] unfolding L .
  have hns: "lhdr k \<notin> lslot k ` {..<LOGCAP}"
  proof
    assume "lhdr k \<in> lslot k ` {..<LOGCAP}"
    then obtain i where "i < LOGCAP" "lslot k i = lhdr k" by (auto simp del: LOGCAP_simp)
    then show False using xlog.slot_hdr by blast
  qed
  have h1: "dblock k1 d (lhdr k) = dblock k d (lhdr k)"
    unfolding D1 using xlog.log_writes_other [OF len(2) [folded len(1)] hns, of "length ?as" ?V "dblock k d"]
    by (simp add: log_writes_def)
  obtain k2 where k2: "write_head k1 = Ok k2" "bc_inv k2 d {}" "dirt k2 d = dirt k d" "io_frame k1 k2"
    "wrote k1 k2 d [(lhdr k, hdr_enc ?as (dblock k d (lhdr k)))]"
    using write_head_spec [OF k1(2), unfolded lg1 k1(3) h1, OF geo h room] by metis
  note lg2 = frame_lg [OF k2(4), unfolded lg1]
  have D2: "dblock k2 d (lslot k i) = ?V (?as ! i)" if "i < length ?as" for i
    using wrote_dblock [OF k2(5)] xlog.log_writes_slot [OF len(2) [folded len(1)] that] xlog.slot_hdr [of i "l_start (lg k)"] that len
    by (simp add: D1)
  have m: "map (\<lambda>i. (?as ! i, dblock k2 d (lslot k i))) [0 ..< 0 + ?n] = map (\<lambda>a. (a, ?V a)) ?as"
    by (rule nth_equalityI) (use D2 len in simp_all)
  obtain k3 where k3: "install_from ?n (int 0) k2 = Ok k3" "bc_inv k3 d {}" "io_frame k2 k3"
    "dirt k3 d = dirt k d - (\<lambda>i. ?as ! i) ` {0 ..< 0 + ?n}"
    "wrote k2 k3 d (map (\<lambda>i. (?as ! i, dblock k2 d (lslot k i))) [0 ..< 0 + ?n])"
    using install_from_ok [OF k2(2), unfolded lg2 k2(3), OF geo _ area _ _ room, of 0 ?n] dirt_range [OF inv] dirt sl dist len by auto
  have clean: "dirt k3 d = {}" unfolding k3(4) dirt set_conv_nth len(1) by auto
  have D3: "dblock k3 d (lhdr k) = hdr_enc ?as (dblock k d (lhdr k))"
    using wrote_dblock [OF k3(5) [unfolded m]] wrote_dblock [OF k2(5)] h dirt by (simp add: play_other image_image)
  let ?k4 = "k3\<lparr>lg := (lg k3)\<lparr>lh_n := 0\<rparr>\<rparr>"
  have lg4: "lg ?k4 = (lg k)\<lparr>lh_n := 0\<rparr>" using frame_lg [OF k3(3)] lg2 by simp
  have geo4: "log_geo (lg ?k4) d" using geo unfolding lg4 by (simp add: log_geo_def)
  obtain k5 where k5: "write_head ?k4 = Ok k5" "bc_inv k5 d {}" "dirt k5 d = {}" "io_frame ?k4 k5"
    "wrote ?k4 k5 d [(lhdr k, hdr_enc [] (hdr_enc ?as (dblock k d (lhdr k))))]"
    by (rule write_head_spec [of ?k4 d])
      (use k3(2) clean D3 geo4 lg4 in \<open>simp_all add: logged_def NBUF_def\<close>)
  have "wrote k k5 d (tx_writes (lhdr k) (lslot k) hdr_enc ?as ?V (dblock k d (lhdr k)))"
    using wrote_trans [OF k1(6) [unfolded L] wrote_trans [OF k2(5) wrote_trans [OF k3(5) [unfolded m] k5(5) [simplified]]]]
    by (simp add: tx_writes_def)
  moreover have "commit k = Ok k5"
    using pos k1(1) k2(1) k3(1) k5(1) lg1 lg2 by (simp add: commit_def write_log_def install_trans_def)
  ultimately show thesis using that k5(2,3) frame_lg [OF k5(4)] lg4 by simp
qed

text \<open>What \<open>read_head\<close> finds in a header that names few enough blocks.\<close>

definition hdr_ok :: "u8 list \<Rightarrow> bool" where
  "hdr_ok bs \<longleftrightarrow> 0 \<le> sint (rd32 bs 0) \<and> sint (rd32 bs 0) < LOGSIZE"

lemma read_head_spec:
  assumes inv: "bc_inv k d {}" and geo: "log_geo (lg k) d" and clean: "dirt k d = {}" and h: "hdr_ok (dblock k d (lhdr k))"
  obtains k' where "read_head k = Ok k'" "bc_inv k' d {}" "dirt k' d = {}" "wrote k k' d []" "log_geo (lg k') d"
    "l_start (lg k') = l_start (lg k)" "l_size (lg k') = l_size (lg k)" "logged (lg k') = hdr_dec (dblock k d (lhdr k))"
proof -
  let ?bs = "dblock k d (lhdr k)"
  let ?n = "sint (rd32 ?bs 0)"
  have dev: "l_dev (lg k) = d" using geo by (simp add: log_geo_def)
  obtain b k1 where r: "bread k d (lhdr k) = Ok (b, k1)" "b < NBUF" "b \<notin> {}" "bc_inv k1 d (insert b {})" "caches d (lhdr k) (buf_at k1 b)"
    "valid (buf_at k1 b)" "b_data (buf_at k1 b) = view k d (lhdr k)" "quiet k k1 d" "\<forall>i. i \<noteq> b \<longrightarrow> buf_at k1 i = buf_at k i"
    by (rule bread_spec [OF inv geo_range(1) [OF geo]]) (use clean in \<open>auto simp: NBUF_def\<close>)
  have bs: "b_data (buf_at k1 b) = ?bs" "length ?bs = BSIZE"
    using r(7) view_clean [OF inv] clean bc_invD(1) [OF inv] geo_range(1) [OF geo] by (simp_all add: drive_ok_def)
  have lg1: "lg k1 = lg k" using r(8) by (simp add: quiet_def io_frame_def)
  obtain blk where blk: "read_blocks (nat ?n) 0 ?bs (lh_block (lg k)) = Ok blk" "length blk = length (lh_block (lg k))"
    "\<forall>j < length (lh_block (lg k)). blk ! j = (if 0 \<le> j \<and> j < 0 + nat ?n then sint (rd32 ?bs (4 + 4 * j)) else lh_block (lg k) ! j)"
  proof -
    have "0 + nat ?n \<le> length (lh_block (lg k))" "4 + 4 * (0 + nat ?n) \<le> length ?bs"
      using h geo bs by (auto simp: hdr_ok_def log_geo_def BSIZE_def)
    from read_blocks_ok [OF this] show thesis using that by blast
  qed
  let ?l = "(lg k)\<lparr>lh_n := ?n, lh_block := blk\<rparr>"
  let ?k2 = "k1\<lparr>lg := ?l\<rparr>"
  have inv2: "bc_inv ?k2 d {b}" using r(4) by simp
  have b2: "caches d (lhdr k) (buf_at ?k2 b)" "valid (buf_at ?k2 b)" "b_data (buf_at ?k2 b) = dblock ?k2 d (lhdr k)"
    using r(5,6,8) bs(1) by (simp_all add: quiet_def dblock_def)
  obtain k3 where k3: "brelse ?k2 b = Ok k3" "bc_inv k3 d ({b} - {b})" "quiet ?k2 k3 d"
    by (rule brelse_spec [OF inv2 _ b2(1,2)]) (use b2(3) in simp_all)
  have lg3: "lg k3 = ?l" using k3(3) by (simp add: quiet_def io_frame_def)
  have "read_head k = Ok k3"
    using r(1) blk(1) k3(1) bs(1) by (simp add: read_head_def dev hdr_def [symmetric] Let_def lg1)
  moreover have geo3: "log_geo (lg k3) d" using geo h blk(2) unfolding lg3 by (simp add: log_geo_def hdr_ok_def)
  moreover have "logged (lg k3) = hdr_dec ?bs"
  proof (rule nth_equalityI)
    show "length (logged (lg k3)) = length (hdr_dec ?bs)" using logged_length [OF geo3] by (simp add: lg3 hdr_dec_def)
    fix i assume i: "i < length (logged (lg k3))"
    then have n: "i < nat ?n" using logged_length [OF geo3] by (simp add: lg3)
    then have "i < length (lh_block (lg k))" using geo h by (auto simp: log_geo_def hdr_ok_def)
    then show "logged (lg k3) ! i = hdr_dec ?bs ! i" using logged_nth [OF geo3, of i] n blk(3) by (simp add: lg3 hdr_dec_def)
  qed
  moreover have "wrote k k3 d []"
    using wrote_trans [OF wrote_quiet [OF r(8)] wrote_quiet [OF k3(3), simplified]] by simp
  moreover have "dirt k3 d = {}" using k3(3) r(8) clean by (simp add: quiet_def)
  ultimately show thesis using that k3(2) lg3 by simp
qed

text \<open>Recovery on a machine that has just booted is the redo log's.\<close>

lemma recover_spec:
  assumes inv: "bc_inv k d {}" and geo: "log_geo (lg k) d" and clean: "dirt k d = {}" and h: "hdr_ok (dblock k d (lhdr k))"
    and dec: "set (hdr_dec (dblock k d (lhdr k))) \<inter> larea k = {}" "\<And>a. a \<in> set (hdr_dec (dblock k d (lhdr k))) \<Longrightarrow> a < FSSIZE"
  obtains k' where "recover_from_log k = Ok k'" "bc_inv k' d {}" "dirt k' d = {}" "lh_n (lg k') = 0"
    "log_geo (lg k') d" "l_start (lg k') = l_start (lg k)" "l_size (lg k') = l_size (lg k)"
    "dblock k' d = (redo (lhdr k) (lslot k) hdr_dec (dblock k d))(lhdr k := hdr_enc [] (dblock k d (lhdr k)))"
proof -
  let ?as = "hdr_dec (dblock k d (lhdr k))"
  obtain k1 where k1: "read_head k = Ok k1" "bc_inv k1 d {}" "dirt k1 d = {}" "wrote k k1 d []" "log_geo (lg k1) d"
    "l_start (lg k1) = l_start (lg k)" "l_size (lg k1) = l_size (lg k)" "logged (lg k1) = ?as"
    by (rule read_head_spec [OF inv geo clean h])
  have D1: "dblock k1 d = dblock k d" using wrote_dblock [OF k1(4)] by simp
  have len: "length ?as = nat (lh_n (lg k1))" using logged_length [OF k1(5)] k1(8) by simp
  obtain k2 where k2: "install_from (length ?as) (int 0) k1 = Ok k2" "bc_inv k2 d {}" "io_frame k1 k2" "dirt k2 d = {}"
    "wrote k1 k2 d (map (\<lambda>i. (?as ! i, dblock k d (lslot k i))) [0 ..< 0 + length ?as])"
    using install_from_ok [OF k1(2,5), of 0 "length ?as", unfolded k1(3,6,8) D1] dec len by (auto simp: NBUF_def)
  have D2: "dblock k2 d = redo (lhdr k) (lslot k) hdr_dec (dblock k d)"
    using wrote_dblock [OF k2(5)] D1 by (simp add: redo_def home_writes_def)
  have hh: "dblock k2 d (lhdr k) = dblock k d (lhdr k)"
    unfolding wrote_dblock [OF k2(5)] D1
    by (rule play_other) (use dec(1) in \<open>auto simp: log_area_def in_set_conv_nth\<close>)
  let ?k3 = "k2\<lparr>lg := (lg k2)\<lparr>lh_n := 0\<rparr>\<rparr>"
  have geo3: "log_geo (lg ?k3) d" "l_start (lg ?k3) = l_start (lg k)" "l_size (lg ?k3) = l_size (lg k)"
    using k1(5-7) frame_lg [OF k2(3)] by (simp_all add: log_geo_def)
  have e3: "logged (lg ?k3) = []" by (simp add: logged_def)
  have d3: "dblock ?k3 d (lhdr k) = dblock k d (lhdr k)" using hh by simp
  obtain k4 where k4: "write_head ?k3 = Ok k4" "bc_inv k4 d {}" "dirt k4 d = {}" "io_frame ?k3 k4"
    "wrote ?k3 k4 d [(lhdr k, hdr_enc [] (dblock k d (lhdr k)))]"
    by (rule write_head_spec [of ?k3 d, unfolded geo3(2) e3 d3])
      (use k2(2,4) geo3 in \<open>simp_all add: NBUF_def\<close>)
  have "recover_from_log k = Ok k4"
    using k1(1) k2(1) k4(1) len by (simp add: recover_from_log_def install_trans_def)
  moreover have "dblock k4 d = (redo (lhdr k) (lslot k) hdr_dec (dblock k d))(lhdr k := hdr_enc [] (dblock k d (lhdr k)))"
    using wrote_dblock [OF k4(5)] D2 by simp
  ultimately show thesis using that k4(2,3) frame_lg [OF k4(4)] geo3 by simp
qed

text \<open>
  A machine that has started again after a crash: its cache is empty or clean, its disk is \<open>D\<close>, and \<open>initlog\<close> has read
  the place of the log.
\<close>

definition booted :: "kernel \<Rightarrow> u32 \<Rightarrow> int \<Rightarrow> (u32 \<Rightarrow> nat \<Rightarrow> u8 list) \<Rightarrow> bool" where
  "booted r d st D \<longleftrightarrow> bc_inv r d {} \<and> dirt r d = {} \<and> log_geo (lg r) d \<and> l_start (lg r) = st \<and> disk r = D"

lemma hdr_ok_enc: "length as \<le> LOGCAP \<Longrightarrow> length bs = BSIZE \<Longrightarrow> hdr_ok (hdr_enc as bs)"
proof -
  assume a: "length as \<le> LOGCAP" "length bs = BSIZE"
  have "rd32 (hdr_enc as bs) 0 = of_nat (length as)"
    using wr_entries_other [of "[0 ..< length as]" "wr32 bs 0 (of_nat (length as))" 0 "\<lambda>i. as ! i"] a
    by (simp add: hdr_enc_def BSIZE_def)
  then show ?thesis using a by (simp add: hdr_ok_def sint_small)
qed

lemma log_readyD:
  assumes "log_ready k d"
  shows "bc_inv k d {}" "log_geo (lg k) d" "distinct (logged (lg k))" "dirt k d = set (logged (lg k))"
    "set (logged (lg k)) \<inter> larea k = {}" "rd32 (dblock k d (lhdr k)) 0 = 0" "length (logged (lg k)) \<le> LOGCAP"
    "length (dblock k d (lhdr k)) = BSIZE" "hdr_dec (dblock k d (lhdr k)) = []" "hdr_ok (dblock k d (lhdr k))"
proof -
  show g: "bc_inv k d {}" "log_geo (lg k) d" "distinct (logged (lg k))" "dirt k d = set (logged (lg k))"
    "set (logged (lg k)) \<inter> larea k = {}" and h: "rd32 (dblock k d (lhdr k)) 0 = 0"
    using assms unfolding log_ready_def by blast+
  show "length (logged (lg k)) \<le> LOGCAP" using g(2) by (auto simp: log_geo_def)
  show "length (dblock k d (lhdr k)) = BSIZE" using bc_invD(1) [OF g(1)] geo_range(1) [OF g(2)] by (simp add: drive_ok_def)
  show "hdr_dec (dblock k d (lhdr k)) = []" "hdr_ok (dblock k d (lhdr k))" using h by (simp_all add: hdr_dec_def hdr_ok_def)
qed

lemma recover_after_crash:
  fixes j :: nat
  assumes ready: "log_ready k d"
  defines "ws \<equiv> tx_writes (lhdr k) (lslot k) hdr_enc (logged (lg k)) (view k d) (dblock k d (lhdr k))"
  assumes boot: "booted r d (l_start (lg k)) (play_disk (take j (dw d ws)) (disk k))"
  shows "\<exists>r'. recover_from_log r = Ok r' \<and> dirt r' d = {} \<and> bc_inv r' d {} \<and> log_geo (lg r') d \<and> lh_n (lg r') = 0 \<and>
    l_start (lg r') = l_start (lg k) \<and> l_size (lg r') = l_size (lg r) \<and> rd32 (dblock r' d (lhdr k)) 0 = 0 \<and>
    (\<forall>a. a \<notin> larea k \<longrightarrow> dblock r' d a = (if nat (lh_n (lg k)) < j then view k d a else dblock k d a))"
proof -
  note R = log_readyD [OF ready]
  let ?as = "logged (lg k)"
  have st: "l_start (lg r) = l_start (lg k)" and r: "bc_inv r d {}" "log_geo (lg r) d" "dirt r d = {}"
    using boot by (simp_all add: booted_def)
  have "take j (dw d ws) = dw d (take j ws)" by (simp add: dw_def take_map)
  then have Dr: "dblock r d = play (take j ws) (dblock k d)"
    using boot play_disk_dw [of d "take j ws" "disk k"] by (auto simp: booted_def dblock_def [abs_def])
  have "dblock r d (lhdr k) \<in> {dblock k d (lhdr k), hdr_enc ?as (dblock k d (lhdr k)), hdr_enc [] (hdr_enc ?as (dblock k d (lhdr k)))}"
    unfolding Dr ws_def by (rule xlog.crash_hdr [OF R(7,5)])
  then have h: "hdr_ok (dblock r d (lhdr k))" "set (hdr_dec (dblock r d (lhdr k))) \<subseteq> set ?as"
    using R(7-10) hdr_ok_enc [of _ "dblock k d (lhdr k)"] hdr_ok_enc [of "[]"] hdr_dec_enc by auto
  obtain r' where r': "recover_from_log r = Ok r'" "bc_inv r' d {}" "dirt r' d = {}"
    "lh_n (lg r') = 0" "log_geo (lg r') d" "l_start (lg r') = l_start (lg k)" "l_size (lg r') = l_size (lg r)"
    "dblock r' d = (redo (lhdr k) (lslot k) hdr_dec (dblock r d))(lhdr k := hdr_enc [] (dblock r d (lhdr k)))"
    by (rule recover_spec [OF r, unfolded st]) (use h R(5) dirt_range [OF R(1)] R(4) in auto)
  have "dblock r' d a = (if nat (lh_n (lg k)) < j then view k d a else dblock k d a)" if a: "a \<notin> larea k" for a
  proof -
    have "dblock r' d a = redo (lhdr k) (lslot k) hdr_dec (dblock r d) a" using a by (simp add: r'(8) log_area_def)
    also have "\<dots> = (if length ?as < j \<and> a \<in> set ?as then view k d a else dblock k d a)"
      unfolding Dr ws_def by (rule xlog.crash [where D = "dblock k d", OF R(8,9,7,5) a])
    finally show ?thesis using view_clean [OF R(1), of a] R(4) logged_length [OF R(2)] by auto
  qed
  moreover have "length (dblock r d (lhdr k)) = BSIZE"
    using bc_invD(1) [OF r(1)] geo_range(1) [OF R(2)] by (simp add: drive_ok_def)
  then have "rd32 (dblock r' d (lhdr k)) 0 = 0" by (simp add: r'(8) hdr_enc_def [of "[]"] BSIZE_def)
  ultimately show ?thesis using r' by blast
qed

end
