(* ===== verification/Transaction.thy ===== *)
theory Transaction
  imports Recovery
begin

text \<open>
  File system transactions (\<open>begin_op\<close>, \<open>bread\<close>, \<open>log_write\<close>, \<open>brelse\<close>, \<open>end_op\<close>) as steps on the kernel and the set of
  buffers that are held, their invariant, and what a crash does to them. A block is changed by storing into a held buffer
  and calling \<open>log_write\<close>; the last \<open>end_op\<close> comes when no buffer is held.
\<close>

subsection \<open>A read that returns\<close>

lemma lock_held:
  "curproc k \<noteq> None \<Longrightarrow> sl_locked (b_lock (buf_at k b)) \<Longrightarrow> lock_buf k b = Sleep ''sleeplock''"
  by (auto simp: lock_buf_def myproc_def acquiresleep_def)

lemma bread_held:
  assumes inv: "bc_inv k d H" and b: "b \<in> H" "caches d n (buf_at k b)"
  shows "bread k d n = Sleep ''sleeplock''"
proof -
  have bN: "b < NBUF" "b < length (bufs k)" using bc_invD(2,3) [OF inv] b by auto
  obtain xs where mru: "mru_list (bufs k) xs" using inv by (auto simp: bc_inv_def)
  have mem: "set xs = {..<NBUF}" using mru by (simp add: mru_list_def)
  have P: "(\<lambda>i. b_dev (buf_at k i) = d \<and> b_blockno (buf_at k i) = n) = (\<lambda>i. caches d n (buf_at k i))" by (simp add: caches_def)
  have "List.find (\<lambda>i. caches d n (buf_at k i)) xs = Some b"
    by (rule find_unique) (use b bN mem bc_invD(8) [OF inv] in auto)
  then have f: "find_buf (Suc NBUF) b_next (\<lambda>x. b_dev x = d \<and> b_blockno x = n) (bufs k) (b_next (buf_at k NBUF)) = Ok (Some b)"
    unfolding find_buf_mru(1) [OF mru] P by simp
  let ?k = "upd_buf k b (\<lambda>x. x\<lparr>b_refcnt := b_refcnt x + 1\<rparr>)"
  have "lock_buf ?k b = Sleep ''sleeplock''"
    by (rule lock_held) (use bc_invD(1,6) [OF inv] b bN in \<open>simp_all add: drive_ok_def\<close>)
  then show ?thesis unfolding bread_def bget_def f by simp
qed

lemma bread_full:
  assumes inv: "bc_inv k d H" and none: "\<And>i. i < NBUF \<Longrightarrow> \<not> caches d n (buf_at k i)"
    and full: "\<And>i. i < NBUF \<Longrightarrow> i \<in> H \<or> dirty (buf_at k i)"
  shows "bread k d n = Panic ''bget: no buffers''"
proof -
  obtain xs where mru: "mru_list (bufs k) xs" using inv by (auto simp: bc_inv_def)
  have mem: "set xs = {..<NBUF}" using mru by (simp add: mru_list_def)
  have f: "find_buf (Suc NBUF) b_next (\<lambda>x. b_dev x = d \<and> b_blockno x = n) (bufs k) (b_next (buf_at k NBUF)) = Ok None"
    unfolding find_buf_mru(1) [OF mru] using none mem by (simp add: find_None_iff caches_def)
  have g: "find_buf (Suc NBUF) b_prev (\<lambda>x. b_refcnt x = 0 \<and> b_flags x AND B_DIRTY = 0) (bufs k) (b_prev (buf_at k NBUF)) = Ok None"
    unfolding find_buf_mru(2) [OF mru] using full mem bc_invD(7) [OF inv] by (force simp: find_None_iff dirty_def)
  show ?thesis unfolding bread_def bget_def f using g by simp
qed

text \<open>Whenever \<open>bread\<close> returns, it returns the block.\<close>

lemma bread_returns:
  assumes inv: "bc_inv k d H" and n: "n < FSSIZE" and r: "bread k d n = Ok (b, k')"
  shows "b < NBUF \<and> b \<notin> H \<and> bc_inv k' d (insert b H) \<and> caches d n (buf_at k' b) \<and> valid (buf_at k' b) \<and>
    b_data (buf_at k' b) = view k d n \<and> quiet k k' d \<and> (\<forall>i. i \<noteq> b \<longrightarrow> buf_at k' i = buf_at k i)"
proof -
  have nh: "\<not> caches d n (buf_at k i)" if "i \<in> H" for i using bread_held [OF inv that] r by auto
  have "(\<exists>i < NBUF. caches d n (buf_at k i)) \<or> (\<exists>i < NBUF. i \<notin> H \<and> \<not> dirty (buf_at k i))"
    using bread_full [OF inv, of n] r by force
  then obtain b1 k1 where "bread k d n = Ok (b1, k1)" "b1 < NBUF" "b1 \<notin> H" "bc_inv k1 d (insert b1 H)" "caches d n (buf_at k1 b1)"
    "valid (buf_at k1 b1)" "b_data (buf_at k1 b1) = view k d n" "quiet k k1 d" "\<forall>i. i \<noteq> b1 \<longrightarrow> buf_at k1 i = buf_at k i"
    using bread_free [OF inv n nh] by metis
  then show ?thesis using r by simp
qed

subsection \<open>The invariant of transactions\<close>

definition held_ok :: "kernel \<Rightarrow> u32 \<Rightarrow> nat \<Rightarrow> bool" where
  "held_ok k d b \<longleftrightarrow> b_dev (buf_at k b) = d \<and> valid (buf_at k b) \<and>
     (b_blockno (buf_at k b) \<in> dirt k d \<or> b_data (buf_at k b) = dblock k d (b_blockno (buf_at k b)))"

text \<open>The superblock, which no transaction writes, says where the log is.\<close>

definition sb_says :: "kernel \<Rightarrow> u32 \<Rightarrow> bool" where
  "sb_says k d \<longleftrightarrow> (let s = get_superblock (dblock k d 1) in
     sint (sb_logstart s) = l_start (lg k) \<and> sint (sb_nlog s) = l_size (lg k)) \<and> 1 \<notin> larea k"

definition tx_inv :: "kernel \<Rightarrow> u32 \<Rightarrow> nat set \<Rightarrow> bool" where
  "tx_inv k d H \<longleftrightarrow> bc_inv k d H \<and> log_geo (lg k) d \<and> l_size (lg k) \<le> LOGSIZE \<and>
     (\<forall>x \<in> set (take (nat (lh_n (lg k))) (lh_block (lg k))). 0 \<le> x \<and> x < uint FSSIZE) \<and>
     distinct (logged (lg k)) \<and> set (logged (lg k)) = dirt k d \<and> set (logged (lg k)) \<inter> larea k = {} \<and>
     rd32 (dblock k d (lhdr k)) 0 = 0 \<and> (\<forall>b \<in> H. held_ok k d b) \<and> sb_says k d \<and> 1 \<notin> dirt k d"

inductive tx_step :: "u32 \<Rightarrow> kernel \<times> nat set \<Rightarrow> kernel \<times> nat set \<Rightarrow> bool" for d where
  tx_begin: "begin_op k = Ok k' \<Longrightarrow> tx_step d (k, H) (k', H)"
| tx_read: "n < FSSIZE \<Longrightarrow> bread k d n = Ok (b, k') \<Longrightarrow> tx_step d (k, H) (k', insert b H)"
| tx_write: "b \<in> H \<Longrightarrow> b_blockno (buf_at k b) \<notin> insert 1 (larea k) \<Longrightarrow> length bs = BSIZE \<Longrightarrow>
    log_write (set_data k b bs) b = Ok k' \<Longrightarrow> tx_step d (k, H) (k', H)"
| tx_release: "b \<in> H \<Longrightarrow> brelse k b = Ok k' \<Longrightarrow> tx_step d (k, H) (k', H - {b})"
| tx_end: "H = {} \<or> l_outstanding (lg k) > 1 \<Longrightarrow> end_op k = Ok k' \<Longrightarrow> tx_step d (k, H) (k', H)"

inductive_cases tx_stepE: "tx_step d (k, H) (k', H')"

lemma tx_invD:
  assumes "tx_inv k d H"
  shows "bc_inv k d H" "log_geo (lg k) d" "l_size (lg k) \<le> LOGSIZE"
    "\<And>x. x \<in> set (take (nat (lh_n (lg k))) (lh_block (lg k))) \<Longrightarrow> 0 \<le> x \<and> x < uint FSSIZE"
    "distinct (logged (lg k))" "dirt k d = set (logged (lg k))" "set (logged (lg k)) \<inter> larea k = {}"
    "rd32 (dblock k d (lhdr k)) 0 = 0" "\<And>b. b \<in> H \<Longrightarrow> held_ok k d b" "sb_says k d" "1 \<notin> dirt k d"
  using assms unfolding tx_inv_def by blast+

lemma log_ready_tx: "tx_inv k d {} \<Longrightarrow> log_ready k d"
  unfolding tx_inv_def log_ready_def by blast

text \<open>Steps that leave the log and the disk alone.\<close>

lemma tx_inv_quiet:
  assumes "tx_inv k d H" and "bc_inv k' d H'" and "quiet k k' d" and "\<And>b. b \<in> H' \<Longrightarrow> held_ok k' d b"
  shows "tx_inv k' d H'"
proof -
  have e: "lg k' = lg k" "dirt k' d = dirt k d" "dblock k' d = dblock k d"
    using assms(3) by (simp_all add: quiet_def io_frame_def dblock_def [abs_def])
  show ?thesis using assms(1,2,4) unfolding tx_inv_def sb_says_def e by blast
qed

lemma held_ok_quiet:
  assumes "held_ok k d b" and "quiet k k' d" and "core (buf_at k' b) = core (buf_at k b)"
  shows "held_ok k' d b"
  using assms core_fields [OF assms(3)] core_caches(2) [OF assms(3)] by (simp add: held_ok_def quiet_def dblock_def)

lemma tx_read_inv:
  assumes inv: "tx_inv k d H" and n: "n < FSSIZE" and r: "bread k d n = Ok (b, k')"
  shows "tx_inv k' d (insert b H)"
proof (rule tx_inv_quiet [OF inv])
  note R = bread_returns [OF tx_invD(1) [OF inv] n r]
  show "bc_inv k' d (insert b H)" and q: "quiet k k' d" using R by blast+
  fix c assume c: "c \<in> insert b H"
  show "held_ok k' d c"
  proof (cases "c = b")
    case True
    have "n \<in> dirt k d \<or> view k d n = dblock k d n"
    proof (rule disjCI)
      assume "\<not> view k d n = dblock k d n"
      then obtain i where i: "i < NBUF" "caches d n (buf_at k i)" "valid (buf_at k i)" "b_data (buf_at k i) \<noteq> dblock k d n"
        using view_uncached [of d n k] view_cached [OF tx_invD(1) [OF inv]] by metis
      show "n \<in> dirt k d"
      proof (cases "i \<in> H")
        case True
        then show ?thesis using tx_invD(9) [OF inv True] i by (auto simp: held_ok_def caches_def)
      next
        case False
        then show ?thesis using bc_invD(9) [OF tx_invD(1) [OF inv] i(1-3)] i by (auto simp: dirt_def)
      qed
    qed
    then show ?thesis using True R by (auto simp: held_ok_def caches_def quiet_def dblock_def)
  next
    case False
    then show ?thesis using c R tx_invD(9) [OF inv] by (intro held_ok_quiet [OF _ q]) auto
  qed
qed

lemma tx_release_inv:
  assumes inv: "tx_inv k d H" and b: "b \<in> H" and r: "brelse k b = Ok k'"
  shows "tx_inv k' d (H - {b})"
proof -
  have h: "held_ok k d b" using tx_invD(9) [OF inv b] .
  then have c: "caches d (b_blockno (buf_at k b)) (buf_at k b)" "valid (buf_at k b)"
    "b_blockno (buf_at k b) \<in> dirt k d \<or> b_data (buf_at k b) = dblock k d (b_blockno (buf_at k b))"
    by (simp_all add: held_ok_def caches_def)
  obtain k1 where k1: "brelse k b = Ok k1" "bc_inv k1 d (H - {b})" "quiet k k1 d"
    "\<forall>i < NBUF. i \<noteq> b \<longrightarrow> core (buf_at k1 i) = core (buf_at k i)"
    by (rule brelse_spec [OF tx_invD(1) [OF inv] b c])
  have "held_ok k1 d c" if "c \<in> H - {b}" for c
    using that k1(4) bc_invD(2) [OF tx_invD(1) [OF inv]] tx_invD(9) [OF inv] by (intro held_ok_quiet [OF _ k1(3)]) auto
  then show ?thesis using tx_inv_quiet [OF inv k1(2,3)] k1(1) r by simp
qed

subsection \<open>Logging a block\<close>

definition log_add :: "logst \<Rightarrow> u32 \<Rightarrow> logst" where
  "log_add l n =
     (let i = log_slot l (sint n); l = l\<lparr>lh_block := (lh_block l)[i := sint n]\<rparr>
      in if int i = lh_n l then l\<lparr>lh_n := lh_n l + 1\<rparr> else l)"

lemma small_sint: "n < FSSIZE \<Longrightarrow> sint (n :: u32) = uint n"
proof -
  assume "n < FSSIZE"
  then have "unat n < 1000" by (simp add: FSSIZE_def word_less_nat_alt)
  then have "sint (of_nat (unat n) :: u32) = int (unat n)" by (intro sint_small) simp
  then show ?thesis by simp
qed

lemma small_int_word:
  "0 \<le> x \<Longrightarrow> x < uint FSSIZE \<Longrightarrow> 0 \<le> y \<Longrightarrow> y < uint FSSIZE \<Longrightarrow> (word_of_int x :: u32) = word_of_int y \<longleftrightarrow> x = y"
  using word_of_int_close [of x y] by (auto simp: FSSIZE_def)

lemma log_add_spec:
  assumes geo: "log_geo l d" and rng: "\<And>x. x \<in> set (take (nat (lh_n l)) (lh_block l)) \<Longrightarrow> 0 \<le> x \<and> x < uint FSSIZE"
    and n: "n < FSSIZE" and room: "lh_n l < LOGSIZE - 1"
  shows "log_geo (log_add l n) d" "logged (log_add l n) = (if n \<in> set (logged l) then logged l else logged l @ [n])"
    "l_start (log_add l n) = l_start l" "l_size (log_add l n) = l_size l"
    "\<And>x. x \<in> set (take (nat (lh_n (log_add l n))) (lh_block (log_add l n))) \<Longrightarrow> 0 \<le> x \<and> x < uint FSSIZE"
proof -
  let ?t = "take (nat (lh_n l)) (lh_block l)"
  have sn: "sint n = uint n" "0 \<le> sint n" "sint n < uint FSSIZE" "word_of_int (sint n) = n"
    using small_sint [OF n] n by (simp_all add: word_less_def)
  have len: "length (lh_block l) = 30" "0 \<le> lh_n l" "nat (lh_n l) < 30" "length ?t = nat (lh_n l)"
    using geo room by (auto simp: log_geo_def)
  have mem: "n \<in> set (logged l) \<longleftrightarrow> sint n \<in> set ?t"
  proof
    assume "n \<in> set (logged l)"
    then obtain x where x: "x \<in> set ?t" "n = word_of_int x" by (auto simp: logged_def)
    then have "word_of_int (sint n) = (word_of_int x :: u32)" using sn(4) by simp
    then show "sint n \<in> set ?t" using small_int_word [of "sint n" x] sn rng [OF x(1)] x(1) by simp
  qed (use sn(4) in \<open>force simp: logged_def\<close>)
  have *: "log_geo (log_add l n) d \<and> logged (log_add l n) = (if n \<in> set (logged l) then logged l else logged l @ [n]) \<and>
    l_start (log_add l n) = l_start l \<and> l_size (log_add l n) = l_size l \<and>
    set (take (nat (lh_n (log_add l n))) (lh_block (log_add l n))) \<subseteq> insert (sint n) (set ?t)"
  proof (cases "find_index (\<lambda>m. m = sint n) ?t")
    case None
    then have nin: "sint n \<notin> set ?t" by (auto simp: find_index_None)
    have i: "log_slot l (sint n) = nat (lh_n l)" using None by (simp add: log_slot_def)
    have a: "log_add l n = l\<lparr>lh_block := (lh_block l)[nat (lh_n l) := sint n], lh_n := lh_n l + 1\<rparr>"
      using len by (simp add: log_add_def i)
    have t: "take (nat (lh_n l + 1)) ((lh_block l)[nat (lh_n l) := sint n]) = ?t @ [sint n]"
      using len by (simp add: nat_add_distrib take_Suc_conv_app_nth)
    then have "logged (log_add l n) = logged l @ [n]" unfolding logged_def a using sn(4) by simp
    moreover have "log_geo (log_add l n) d" using geo room unfolding a by (simp add: log_geo_def)
    ultimately show ?thesis using mem nin t by (auto simp: a)
  next
    case (Some i)
    then have i: "i < nat (lh_n l)" "lh_block l ! i = sint n" "sint n \<in> set ?t"
      using find_index_Some [OF Some] len by (auto simp: in_set_conv_nth)
    have s: "log_slot l (sint n) = i" using Some by (simp add: log_slot_def)
    have u: "(lh_block l)[i := sint n] = lh_block l" using i(2) by (metis list_update_id)
    have a: "log_add l n = l" using i len by (simp add: log_add_def s u)
    show ?thesis using geo mem i(3) unfolding a by auto
  qed
  then show "log_geo (log_add l n) d" "logged (log_add l n) = (if n \<in> set (logged l) then logged l else logged l @ [n])"
    "l_start (log_add l n) = l_start l" "l_size (log_add l n) = l_size l" by blast+
  show "0 \<le> x \<and> x < uint FSSIZE" if "x \<in> set (take (nat (lh_n (log_add l n))) (lh_block (log_add l n)))" for x
    using * that rng [of x] sn by auto
qed

lemma log_write_eq:
  assumes "log_write k b = Ok k'"
  shows "k' = upd_buf (k\<lparr>lg := log_add (lg k) (b_blockno (buf_at k b))\<rparr>) b (\<lambda>x. x\<lparr>b_flags := b_flags x OR B_DIRTY\<rparr>)"
    "lh_n (lg k) < LOGSIZE" "lh_n (lg k) < l_size (lg k) - 1" "l_outstanding (lg k) \<ge> 1"
  using assms by (auto simp: log_write_def log_add_def Let_def split: if_splits)

lemma tx_write_inv:
  assumes inv: "tx_inv k d H" and b: "b \<in> H" and n: "b_blockno (buf_at k b) \<notin> insert 1 (larea k)" and bs: "length bs = BSIZE"
    and w: "log_write (set_data k b bs) b = Ok k'"
  shows "tx_inv k' d H" "view k' d = (view k d)(b_blockno (buf_at k b) := bs)" "dblock k' d = dblock k d"
proof -
  let ?n = "b_blockno (buf_at k b)"
  note I = tx_invD [OF inv]
  have c: "caches d ?n (buf_at k b)" "valid (buf_at k b)" using I(9) [OF b] by (simp_all add: held_ok_def caches_def)
  have bN: "b < NBUF" "b < length (bufs k)" using bc_invD(2,3) [OF I(1)] b by auto
  have nr: "?n < FSSIZE" using bc_invD(10) [OF I(1) bN(1) c] .
  let ?k1 = "upd_buf k b (\<lambda>x. x\<lparr>b_data := bs\<rparr>)"
  note k1 = set_data_spec [OF I(1) b c bs]
  have b1: "b_blockno (buf_at ?k1 b) = ?n" "caches d ?n (buf_at ?k1 b)" "valid (buf_at ?k1 b)"
    using c k1(7) by (simp_all add: caches_def valid_def)
  let ?l = "log_add (lg k) ?n"
  let ?k2 = "?k1\<lparr>lg := ?l\<rparr>"
  have k': "k' = upd_buf ?k2 b (\<lambda>x. x\<lparr>b_flags := b_flags x OR B_DIRTY\<rparr>)" and rm: "lh_n (lg k) < LOGSIZE - 1"
    using log_write_eq [OF w] b1(1) I(3) by simp_all
  have inv2: "bc_inv ?k2 d H" using k1(1) by simp
  have b2: "caches d ?n (buf_at ?k2 b)" "valid (buf_at ?k2 b)" using b1 by simp_all
  note k2 = mark_dirty_spec [OF inv2 b b2, folded k']
  note L = log_add_spec [OF I(2,4) nr rm]
  have lg': "lg k' = ?l" by (simp add: k')
  show db: "dblock k' d = dblock k d" by (simp add: k' dblock_def [abs_def])
  have dirt': "dirt k' d = insert ?n (dirt k d)" using k2(3) k1(3) by simp
  have "held_ok k' d c" if "c \<in> H" for c
  proof (cases "c = b")
    case True
    then show ?thesis using k2(4,5) dirt' by (simp add: held_ok_def caches_def)
  next
    case False
    then have "buf_at k' c = buf_at k c" using k2(6) by simp
    then show ?thesis using I(9) [OF that] dirt' db by (auto simp: held_ok_def)
  qed
  moreover have "distinct (logged ?l)" "set (logged ?l) = dirt k' d" "set (logged ?l) \<inter> larea k = {}" "1 \<notin> dirt k' d"
    using L(2) I(5-7,11) dirt' n by (auto simp: insert_absorb)
  ultimately show "tx_inv k' d H"
    using k2(1) L(1,5) I(3,8,10) unfolding tx_inv_def sb_says_def lg' db by (simp add: L(3,4))
  show "view k' d = (view k d)(?n := bs)" using k2(2) k1(2) by simp
qed

subsection \<open>The start and the end of a transaction\<close>

lemma tx_inv_log:
  assumes "tx_inv k d H" and "l_start l = l_start (lg k)" "l_size l = l_size (lg k)" "l_dev l = l_dev (lg k)" "lh_n l = lh_n (lg k)"
    "lh_block l = lh_block (lg k)"
  shows "tx_inv (k\<lparr>lg := l\<rparr>) d H"
proof -
  have "logged l = logged (lg k)" "log_geo l d = log_geo (lg k) d" using assms(2-6) by (simp_all add: logged_def log_geo_def)
  moreover have "held_ok (k\<lparr>lg := l\<rparr>) d b = held_ok k d b" for b by (simp add: held_ok_def)
  ultimately show ?thesis using tx_invD [OF assms(1)] assms(2-6) unfolding tx_inv_def sb_says_def by simp
qed

lemma tx_inv_wakeup:
  assumes "tx_inv k d H"
  shows "tx_inv (wakeup k ch) d H"
proof -
  have q: "quiet k (wakeup k ch) d"
  proof -
    have "view (wakeup k ch) d = view k d" by (rule ext) (simp add: view_def dblock_def cong: option.case_cong)
    then show ?thesis by (simp add: quiet_def dirt_def io_frame_def)
  qed
  have "bc_inv (wakeup k ch) d H" using tx_invD(1) [OF assms] by (simp add: bc_inv_def drive_ok_def dblock_def)
  then show ?thesis
    by (rule tx_inv_quiet [OF assms _ q]) (rule held_ok_quiet [OF tx_invD(9) [OF assms] q], simp_all)
qed

lemma tx_begin_inv: "tx_inv k d H \<Longrightarrow> begin_op k = Ok k' \<Longrightarrow> tx_inv k' d H"
  by (auto simp: begin_op_def split: if_splits intro!: tx_inv_log)

text \<open>A commit, whether or not anything was logged.\<close>

definition commit_writes :: "kernel \<Rightarrow> u32 \<Rightarrow> (u32 \<times> u8 list) list" where
  "commit_writes k d =
     (if lh_n (lg k) > 0 then tx_writes (lhdr k) (lslot k) hdr_enc (logged (lg k)) (view k d) (dblock k d (lhdr k)) else [])"

lemma commit_tx:
  assumes inv: "tx_inv k d {}"
  obtains k' where "commit k = Ok k'" "tx_inv k' d {}" "lg k' = (lg k)\<lparr>lh_n := 0\<rparr>" "dirt k' d = {}"
    "wrote k k' d (commit_writes k d)" "\<forall>a. a \<notin> larea k \<longrightarrow> dblock k' d a = view k d a"
proof (cases "lh_n (lg k) > 0")
  case False
  note I = tx_invD [OF inv]
  have n0: "lh_n (lg k) = 0" using I(2) False by (simp add: log_geo_def)
  then have clean: "dirt k d = {}" using I(6) by (simp add: logged_def)
  have "(lg k)\<lparr>lh_n := 0\<rparr> = lg k" using n0 by (simp add: logst.equality)
  moreover have "\<forall>a. a \<notin> larea k \<longrightarrow> dblock k d a = view k d a" using view_clean [OF I(1)] clean by simp
  moreover have "commit k = Ok k" "wrote k k d (commit_writes k d)"
    using False by (simp_all add: commit_def commit_writes_def wrote_def dw_def play_disk_def)
  ultimately show thesis using that [of k] inv clean by simp
next
  case True
  note I = tx_invD [OF inv]
  note R = log_readyD [OF log_ready_tx [OF inv]]
  let ?ws = "tx_writes (lhdr k) (lslot k) hdr_enc (logged (lg k)) (view k d) (dblock k d (lhdr k))"
  obtain k' where k': "commit k = Ok k'" "bc_inv k' d {}" "dirt k' d = {}" "lg k' = (lg k)\<lparr>lh_n := 0\<rparr>" "wrote k k' d ?ws"
    by (rule commit_spec [OF log_ready_tx [OF inv] True])
  have "length ?ws = 2 * length (logged (lg k)) + 2" by (simp add: tx_writes_def log_writes_def)
  then have all: "take (Suc (Suc (2 * length (logged (lg k))))) ?ws = ?ws" by simp
  have hd': "dblock k' d (lhdr k) = hdr_enc [] (hdr_enc (logged (lg k)) (dblock k d (lhdr k)))"
    using wrote_dblock [OF k'(5)] by (simp add: tx_writes_def)
  have "rd32 (dblock k' d (lhdr k)) 0 = 0"
    using R(7,8) unfolding hd' by (simp add: hdr_enc_def [of "[]"] BSIZE_def)
  moreover have home: "dblock k' d a = view k d a" if a: "a \<notin> larea k" for a
  proof -
    have nh: "a \<noteq> lhdr k" using a by (auto simp: log_area_def)
    have "hdr_dec (play ?ws (dblock k d) (lhdr k)) = []"
      using hd' wrote_dblock [OF k'(5)] hdr_dec_enc [of "[]" "hdr_enc (logged (lg k)) (dblock k d (lhdr k))"] R(7,8) by simp
    then have "redo (lhdr k) (lslot k) hdr_dec (play ?ws (dblock k d)) = play ?ws (dblock k d)" by (rule xlog.redo_empty)
    then have "dblock k' d a = (if a \<in> set (logged (lg k)) then view k d a else dblock k d a)"
      using xlog.crash [where D = "dblock k d" and j = "Suc (Suc (2 * length (logged (lg k))))", OF R(8,9,7,5) a, of "view k d"]
        wrote_dblock [OF k'(5)] unfolding all by simp
    then show ?thesis using view_clean [OF R(1), of a] R(4) by auto
  qed
  moreover have "sb_says k' d"
    using I(10,11) view_clean [OF R(1), of 1] home [of 1] k'(4) by (auto simp: sb_says_def Let_def)
  ultimately have "tx_inv k' d {}" using k'(2-4) I(2,3) by (simp add: tx_inv_def logged_def log_geo_def)
  then show thesis using that k' home True by (simp add: commit_writes_def)
qed

lemma end_op_tx:
  assumes inv: "tx_inv k d {}" and out: "l_outstanding (lg k) = 1" and nc: "\<not> l_committing (lg k)"
  obtains k' where "end_op k = Ok k'" "tx_inv k' d {}" "wrote k k' d (commit_writes k d)" "lh_n (lg k') = 0" "dirt k' d = {}"
    "l_start (lg k') = l_start (lg k)" "\<forall>a. a \<notin> larea k \<longrightarrow> dblock k' d a = view k d a"
proof -
  let ?l = "(lg k)\<lparr>l_outstanding := 0, l_committing := True\<rparr>"
  let ?k1 = "k\<lparr>lg := ?l\<rparr>"
  have inv1: "tx_inv ?k1 d {}" by (rule tx_inv_log [OF inv]) simp_all
  have w1: "commit_writes ?k1 d = commit_writes k d" by (simp add: commit_writes_def logged_def)
  obtain k2 where k2: "commit ?k1 = Ok k2" "tx_inv k2 d {}" "lg k2 = (lg ?k1)\<lparr>lh_n := 0\<rparr>" "dirt k2 d = {}"
    "wrote ?k1 k2 d (commit_writes ?k1 d)" "\<forall>a. a \<notin> larea ?k1 \<longrightarrow> dblock k2 d a = view ?k1 d a"
    by (rule commit_tx [OF inv1])
  let ?k3 = "k2\<lparr>lg := (lg k2)\<lparr>l_committing := False\<rparr>\<rparr>"
  have inv3: "tx_inv ?k3 d {}" by (rule tx_inv_log [OF k2(2)]) simp_all
  have "end_op k = Ok (wakeup ?k3 ChLog)" using out nc k2(1) by (simp add: end_op_def)
  moreover have "wrote k (wakeup ?k3 ChLog) d (commit_writes k d)" using k2(5) by (simp add: w1 wrote_def)
  moreover have "dirt (wakeup ?k3 ChLog) d = {}" using k2(4) by (simp add: dirt_def)
  moreover have "\<forall>a. a \<notin> larea k \<longrightarrow> dblock (wakeup ?k3 ChLog) d a = view k d a" using k2(6) by (simp add: dblock_def)
  ultimately show thesis using that tx_inv_wakeup [OF inv3] k2(3) by simp
qed

lemma tx_end_inv:
  assumes inv: "tx_inv k d H" and g: "H = {} \<or> l_outstanding (lg k) > 1" and e: "end_op k = Ok k'"
  shows "tx_inv k' d H"
proof (cases "l_outstanding (lg k) = 1")
  case True
  then have H: "H = {}" using g by simp
  have "\<not> l_committing (lg k)" using e by (auto simp: end_op_def Let_def)
  then obtain k1 where "end_op k = Ok k1" "tx_inv k1 d {}"
    by (rule end_op_tx [OF inv [unfolded H] True]) (rule that)
  then show ?thesis using e H by simp
next
  case False
  then have "k' = wakeup (k\<lparr>lg := (lg k)\<lparr>l_outstanding := l_outstanding (lg k) - 1\<rparr>\<rparr>) ChLog"
    using e by (auto simp: end_op_def Let_def split: if_splits)
  then show ?thesis using tx_inv_wakeup [OF tx_inv_log [OF inv]] by simp
qed

lemma tx_step_inv: "tx_step d (k, H) (k', H') \<Longrightarrow> tx_inv k d H \<Longrightarrow> tx_inv k' d H'"
  by (erule tx_stepE)
    (auto intro: tx_begin_inv tx_read_inv tx_write_inv(1) tx_release_inv tx_end_inv)

subsection \<open>Start of the machine\<close>

text \<open>A kernel that has just been loaded, with the disk that is there.\<close>

definition powered :: "kernel \<Rightarrow> u32 \<Rightarrow> (u32 \<Rightarrow> nat \<Rightarrow> u8 list) \<Rightarrow> bool" where
  "powered r d D \<longleftrightarrow> length (bufs r) = Suc NBUF \<and> (\<forall>i < NBUF. unused_buf d (buf_at r i)) \<and> drive_ok r d \<and>
     length (lh_block (lg r)) = nat LOGSIZE \<and> lh_n (lg r) = 0 \<and> disk r = D"

lemma readsb_spec:
  assumes inv: "bc_inv k d {}" and clean: "dirt k d = {}"
  obtains k' where "readsb k d = Ok (get_superblock (dblock k d 1), k')" "bc_inv k' d {}" "quiet k k' d"
proof -
  have one: "(1 :: u32) < FSSIZE" by (simp add: FSSIZE_def)
  obtain b k1 where r: "bread k d 1 = Ok (b, k1)" "b < NBUF" "b \<notin> {}" "bc_inv k1 d (insert b {})" "caches d 1 (buf_at k1 b)"
    "valid (buf_at k1 b)" "b_data (buf_at k1 b) = view k d 1" "quiet k k1 d" "\<forall>i. i \<noteq> b \<longrightarrow> buf_at k1 i = buf_at k i"
    by (rule bread_spec [OF inv one]) (use clean in \<open>auto simp: NBUF_def\<close>)
  have d1: "b_data (buf_at k1 b) = dblock k d 1" "dblock k1 d = dblock k d"
    using r(7,8) view_clean [OF inv] clean by (simp_all add: quiet_def dblock_def [abs_def])
  have inv1: "bc_inv k1 d {b}" using r(4) by simp
  obtain k2 where k2: "brelse k1 b = Ok k2" "bc_inv k2 d ({b} - {b})" "quiet k1 k2 d"
    by (rule brelse_spec [OF inv1 _ r(5,6)]) (use d1 in simp_all)
  have "quiet k k2 d" using r(8) k2(3) by (auto simp: quiet_def intro: io_frame_trans)
  moreover have "readsb k d = Ok (get_superblock (dblock k d 1), k2)" using r(1) k2(1) d1 by (simp add: readsb_def Let_def)
  ultimately show thesis using that k2(2) by simp
qed

lemma commit_writes_blocks: "tx_inv k d {} \<Longrightarrow> fst ` set (commit_writes k d) \<subseteq> larea k \<union> dirt k d"
proof -
  assume inv: "tx_inv k d {}"
  have "length (logged (lg k)) \<le> LOGCAP" using log_readyD(7) [OF log_ready_tx [OF inv]] .
  then show ?thesis
    using tx_invD(6) [OF inv] by (auto simp: commit_writes_def tx_writes_def log_writes_def log_area_def)
qed

text \<open>The machine starts again on a disk that has the first \<open>j\<close> writes of a commit.\<close>

lemma boot_after_crash:
  assumes inv: "tx_inv k d {}" and r: "powered r d (play_disk (take j (dw d (commit_writes k d))) (disk k))"
  shows "\<exists>r'. initlog (binit r) d = Ok r' \<and> tx_inv r' d {} \<and> l_start (lg r') = l_start (lg k) \<and> dirt r' d = {} \<and>
    (\<forall>a. a \<notin> larea k \<longrightarrow> view r' d a = (if nat (lh_n (lg k)) < j then view k d a else dblock k d a))"
proof -
  note I = tx_invD [OF inv]
  let ?ws = "commit_writes k d"
  let ?D = "play_disk (take j (dw d ?ws)) (disk k)"
  have P: "length (bufs r) = Suc NBUF" "\<And>i. i < NBUF \<Longrightarrow> unused_buf d (buf_at r i)" "drive_ok r d" "length (lh_block (lg r)) = nat LOGSIZE"
    "lh_n (lg r) = 0" "disk r = ?D"
    using r by (simp_all add: powered_def)
  note B = binit_inv [OF P(1-3)]
  obtain k1 where k1: "readsb (binit r) d = Ok (get_superblock (dblock (binit r) d 1), k1)" "bc_inv k1 d {}" "quiet (binit r) k1 d"
    by (rule readsb_spec [OF B(1,2)])
  have lg1: "lg k1 = lg r" using k1(3) B(4) by (simp add: quiet_def io_frame_def)
  have D1: "disk k1 = ?D" "dirt k1 d = {}" using k1(3) B(2,3) P(6) by (simp_all add: quiet_def)
  have "take j (dw d ?ws) = dw d (take j ?ws)" by (simp add: dw_def take_map)
  then have db: "dblock (binit r) d = play (take j ?ws) (dblock k d)"
    using play_disk_dw [of d "take j ?ws" "disk k"] B(3) P(6) by (auto simp: dblock_def [abs_def])
  have "1 \<notin> larea k" using I(10) by (simp add: sb_says_def)
  then have sb: "dblock (binit r) d 1 = dblock k d 1"
    unfolding db using commit_writes_blocks [OF inv] I(11) by (intro play_other) (auto dest!: in_set_takeD)
  let ?s = "get_superblock (dblock k d 1)"
  let ?k2 = "k1\<lparr>lg := (lg k1)\<lparr>l_start := sint (sb_logstart ?s), l_size := sint (sb_nlog ?s), l_dev := d\<rparr>\<rparr>"
  have lg2: "l_start (lg ?k2) = l_start (lg k)" "l_size (lg ?k2) = l_size (lg k)" "l_dev (lg ?k2) = d"
    using I(10) by (simp_all add: sb_says_def Let_def)
  have boot: "booted ?k2 d (l_start (lg k)) ?D"
    using k1(2) D1 lg2 lg1 P(4,5) I(2) by (simp add: booted_def log_geo_def)
  have "\<exists>i. (i = j \<or> lh_n (lg k) = 0 \<and> i = 0) \<and> booted ?k2 d (l_start (lg k)) (play_disk (take i (dw d
      (tx_writes (lhdr k) (lslot k) hdr_enc (logged (lg k)) (view k d) (dblock k d (lhdr k))))) (disk k))"
  proof (cases "lh_n (lg k) > 0")
    case True
    then show ?thesis using boot by (auto simp: commit_writes_def)
  next
    case False
    then have "lh_n (lg k) = 0" using I(2) by (simp add: log_geo_def)
    then show ?thesis using boot by (intro exI [of _ 0]) (simp add: commit_writes_def dw_def)
  qed
  then obtain i where i: "i = j \<or> lh_n (lg k) = 0 \<and> i = 0" "booted ?k2 d (l_start (lg k)) (play_disk (take i (dw d
      (tx_writes (lhdr k) (lslot k) hdr_enc (logged (lg k)) (view k d) (dblock k d (lhdr k))))) (disk k))"
    by blast
  obtain r' where r': "recover_from_log ?k2 = Ok r'" "dirt r' d = {}" "bc_inv r' d {}" "log_geo (lg r') d" "lh_n (lg r') = 0"
    "l_start (lg r') = l_start (lg k)" "l_size (lg r') = l_size (lg k)" "rd32 (dblock r' d (lhdr k)) 0 = 0"
    "\<forall>a. a \<notin> larea k \<longrightarrow> dblock r' d a = (if nat (lh_n (lg k)) < i then view k d a else dblock k d a)"
    using recover_after_crash [OF log_ready_tx [OF inv] i(2)] unfolding lg2 by blast
  have same: "view k d a = dblock k d a" if "lh_n (lg k) = 0" for a
    using view_clean [OF I(1)] I(6) that by (simp add: logged_def)
  have blocks: "dblock r' d a = (if nat (lh_n (lg k)) < j then view k d a else dblock k d a)" if "a \<notin> larea k" for a
    using r'(9) that i(1) same [of a] by auto
  have "dblock r' d 1 = dblock k d 1" using blocks \<open>1 \<notin> larea k\<close> view_clean [OF I(1), of 1] I(11) by simp
  then have "tx_inv r' d {}"
    using r'(2-8) I(3,10) by (simp add: tx_inv_def sb_says_def logged_def)
  moreover have "initlog (binit r) d = Ok r'"
    using k1(1) sb r'(1) by (simp add: initlog_def LOGHEADER_SIZE_def BSIZE_def)
  ultimately show ?thesis using r'(2,3,6) view_clean [OF r'(3)] blocks by auto
qed

subsection \<open>A small disk\<close>

text \<open>A disk of zeros but for the superblock, a machine that starts on it, and a transaction that has logged block 500.\<close>

definition demo_super :: "u8 list" where
  "demo_super = wr32 (wr32 (replicate BSIZE 0) 12 30) 16 2"

definition demo_disk :: "u32 \<Rightarrow> nat \<Rightarrow> u8 list" where
  "demo_disk d n = (if n = 1 then demo_super else replicate BSIZE 0)"

definition demo_buf :: buf where
  "demo_buf = \<lparr>b_flags = 0, b_dev = 0, b_blockno = 0, b_lock = \<lparr>sl_locked = False, sl_name = [], sl_pid = 0\<rparr>, b_refcnt = 0,
     b_prev = 0, b_next = 0, b_qnext = None, b_data = replicate BSIZE 0\<rparr>"

definition demo_log :: "int \<Rightarrow> int list \<Rightarrow> logst" where
  "demo_log n blk = \<lparr>l_start = 2, l_size = 30, l_outstanding = n, l_committing = False, l_dev = 1, lh_n = n, lh_block = blk\<rparr>"

definition demo_off :: kernel where
  "demo_off = demo_kernel\<lparr>bufs := replicate (Suc NBUF) demo_buf, disk := demo_disk, lg := demo_log 0 (replicate 30 0)\<rparr>"

definition demo_tx :: kernel where
  "demo_tx = upd_buf ((binit demo_off)\<lparr>lg := demo_log 1 (500 # replicate 29 0)\<rparr>) 0 (\<lambda>x. x\<lparr>b_dev := 1, b_blockno := 500,
     b_flags := B_VALID OR B_DIRTY, b_data := replicate BSIZE 7\<rparr>)"

lemma demo_super_length [simp]: "length demo_super = BSIZE"
  by (simp add: demo_super_def BSIZE_def)

lemma demo_drive: "drive_ok demo_off 1"
  by (simp add: drive_ok_def demo_off_def demo_kernel_def dblock_def demo_disk_def)

lemma demo_powered: "powered demo_off 1 demo_disk"
  using demo_drive by (simp add: powered_def demo_off_def demo_buf_def unused_buf_def demo_log_def del: replicate_Suc)

lemma demo_sb: "get_superblock demo_super = \<lparr>sb_size = 0, sb_nblocks = 0, sb_ninodes = 0, sb_nlog = 30, sb_logstart = 2,
    sb_inodestart = 0, sb_bmapstart = 0\<rparr>"
proof -
  have z: "rd32 (replicate 512 0) i = 0" if "i + 4 \<le> 512" for i using that by (simp add: rd32_def)
  show ?thesis by (simp add: get_superblock_def demo_super_def z BSIZE_def)
qed

lemma demo_binit:
  "bc_inv (binit demo_off) 1 {}" "dirt (binit demo_off) 1 = {}" "disk (binit demo_off) = demo_disk" "io_frame demo_off (binit demo_off)"
  "\<And>i. i < NBUF \<Longrightarrow> unused_buf 1 (buf_at (binit demo_off) i)"
proof -
  have P: "length (bufs demo_off) = Suc NBUF" "\<And>i. i < NBUF \<Longrightarrow> unused_buf 1 (buf_at demo_off i)" "disk demo_off = demo_disk"
    using demo_powered by (simp_all add: powered_def)
  note B = binit_inv [OF P(1,2) demo_drive]
  show "bc_inv (binit demo_off) 1 {}" "dirt (binit demo_off) 1 = {}" "io_frame demo_off (binit demo_off)"
    "\<And>i. i < NBUF \<Longrightarrow> unused_buf 1 (buf_at (binit demo_off) i)"
    using B by blast+
  show "disk (binit demo_off) = demo_disk" using B(3) P(3) by simp
qed

lemma demo_area: "a \<in> log_area (hdr 2) (slot 2) LOGCAP \<Longrightarrow> 2 \<le> unat a \<and> unat a < 32"
proof -
  have u: "unat (word_of_int x :: u32) = nat x" if "0 \<le> x" "x < 32" for x
    using that by (simp add: unat_eq_nat_uint uint_word_of_int)
  assume "a \<in> log_area (hdr 2) (slot 2) LOGCAP"
  then consider "a = word_of_int 2" | i where "i < 29" "a = word_of_int (2 + int i + 1)"
    unfolding log_area_def hdr_def slot_def LOGCAP_simp by blast
  then show ?thesis by cases (simp_all only: u, auto)
qed

lemma demo_tx_inv: "tx_inv demo_tx 1 {}"
proof -
  let ?k = "(binit demo_off)\<lparr>lg := demo_log 1 (500 # replicate 29 0)\<rparr>"
  let ?x = "(buf_at ?k 0)\<lparr>b_dev := 1, b_blockno := 500, b_flags := B_VALID OR B_DIRTY, b_data := replicate BSIZE 7\<rparr>"
  have inv: "bc_inv ?k 1 {}" using demo_binit(1) by simp
  have b: "0 < NBUF" by (simp add: NBUF_def)
  have bs: "bufs demo_tx = (bufs ?k)[0 := ?x]" by (simp add: demo_tx_def)
  have lg: "lg demo_tx = demo_log 1 (500 # replicate 29 0)" by (simp add: demo_tx_def)
  have db: "dblock demo_tx 1 n = demo_disk 1 (unat n)" "dblock ?k 1 n = demo_disk 1 (unat n)" for n
    using demo_binit(3) by (simp_all add: demo_tx_def dblock_def)
  have un: "unused_buf 1 (buf_at ?k i)" if "i < NBUF" for i using demo_binit(5) [OF that] by simp
  have x: "caches 1 500 ?x" "dirty ?x" by (simp_all add: caches_def dirty_def B_VALID_def B_DIRTY_def)
  have uniq: "\<not> caches 1 500 (buf_at ?k j)" if "j < NBUF" for j using un [OF that] by (simp add: unused_buf_def caches_def)
  have drv: "drive_ok demo_tx 1" using bc_invD(1) [OF inv] by (simp add: demo_tx_def drive_ok_def dblock_def)
  have inv': "bc_inv demo_tx 1 {}"
    by (rule bc_inv_upd [OF inv b bs _ _ drv])
      (use uniq bc_invD(6,7) [OF inv b] x(2) db in \<open>auto simp: caches_def FSSIZE_def\<close>)
  have dirt: "dirt demo_tx 1 = {500}"
    using dirt_upd [OF inv b bs x(1) _ uniq] x(2) un [OF b] demo_binit(2) by (simp add: unused_buf_def dirty_def)
  have out: "500 \<notin> log_area (hdr 2) (slot 2) LOGCAP" "1 \<notin> log_area (hdr 2) (slot 2) LOGCAP"
    using demo_area [of 500] demo_area [of 1] by auto
  have "rd32 (dblock demo_tx 1 (hdr 2)) 0 = 0" unfolding db by (simp add: hdr_def demo_disk_def rd32_def BSIZE_def)
  moreover have "sb_says demo_tx 1" using out(2) by (simp add: sb_says_def lg demo_log_def db demo_disk_def demo_sb)
  moreover have "log_geo (lg demo_tx) 1" by (simp add: lg log_geo_def demo_log_def FSSIZE_def)
  ultimately show ?thesis
    using inv' dirt out by (simp add: tx_inv_def lg demo_log_def logged_def FSSIZE_def)
qed

subsection \<open>Transactions are atomic\<close>

text \<open>
  C1. A crash never leaves half a transaction. When the last \<open>end_op\<close> of a transaction runs, it returns, the invariant
  holds again, and the disk has the contents that readers saw. And if the machine loses power after any number \<open>j\<close> of the
  sector writes of the commit and starts again (\<open>binit\<close>, \<open>initlog\<close>), recovery ends, and outside the log every block has its
  new contents when the header had been written (\<open>j\<close> greater than the number of logged blocks), and every block its old
  contents otherwise.
\<close>

theorem end_op_crash_atomic:
  assumes "tx_inv k d {}" and "l_outstanding (lg k) = 1" and "\<not> l_committing (lg k)"
  shows "\<exists>k' ws. end_op k = Ok k' \<and> tx_inv k' d {} \<and> dwrites k' = dwrites k @ ws \<and>
    (\<forall>a. a \<notin> larea k \<longrightarrow> dblock k' d a = view k d a) \<and>
    (\<forall>j r. powered r d (play_disk (take j ws) (disk k)) \<longrightarrow>
       (\<exists>r'. initlog (binit r) d = Ok r' \<and> tx_inv r' d {} \<and>
          (\<forall>a. a \<notin> larea k \<longrightarrow> view r' d a = (if nat (lh_n (lg k)) < j then view k d a else dblock k d a))))"
proof -
  obtain k' where k': "end_op k = Ok k'" "tx_inv k' d {}" "wrote k k' d (commit_writes k d)"
    "\<forall>a. a \<notin> larea k \<longrightarrow> dblock k' d a = view k d a"
    by (rule end_op_tx [OF assms]) (rule that)
  then have "dwrites k' = dwrites k @ dw d (commit_writes k d)" by (simp add: wrote_def)
  then show ?thesis using k' boot_after_crash [OF assms(1)] by blast
qed

theorem end_op_crash_atomic_witness:
  "\<exists>k' ws. end_op demo_tx = Ok k' \<and> tx_inv k' 1 {} \<and> dwrites k' = dwrites demo_tx @ ws \<and>
    (\<forall>a. a \<notin> larea demo_tx \<longrightarrow> dblock k' 1 a = view demo_tx 1 a) \<and>
    (\<exists>r'. initlog (binit demo_off) 1 = Ok r' \<and> tx_inv r' 1 {} \<and>
       (\<forall>a. a \<notin> larea demo_tx \<longrightarrow> view r' 1 a = dblock demo_tx 1 a))"
proof -
  have lg: "l_outstanding (lg demo_tx) = 1" "\<not> l_committing (lg demo_tx)" by (simp_all add: demo_tx_def demo_log_def)
  have "powered demo_off 1 (play_disk (take 0 ws) (disk demo_tx))" for ws
    using demo_powered demo_binit(3) by (simp add: demo_tx_def play_disk_def)
  then show ?thesis using end_op_crash_atomic [OF demo_tx_inv lg] by (metis not_less_zero)
qed

text \<open>
  C2. Every sequence of transaction steps (\<open>begin_op\<close>, reads, logged writes, releases, \<open>end_op\<close>) from a state with the
  invariant keeps it: the blocks in the log header are distinct, lie outside the log, fit it, and are exactly the dirty
  buffers, which \<open>bget\<close> never recycles; the log on disk stays empty between commits; a held buffer is on disk or logged.
\<close>

theorem transactions_invariant:
  assumes "tx_inv k d H" and "(tx_step d)\<^sup>*\<^sup>* (k, H) (k', H')"
  shows "tx_inv k' d H' \<and> int (length (logged (lg k'))) < LOGSIZE"
proof -
  have "tx_inv k' d H'"
    using assms(2,1) by (induction rule: rtranclp_induct2) (auto dest: tx_step_inv)
  then show ?thesis using tx_invD(2) by (fastforce simp: log_geo_def)
qed

theorem transactions_invariant_witness:
  "\<exists>k'. end_op demo_tx = Ok k' \<and> tx_inv k' 1 {} \<and> int (length (logged (lg k'))) < LOGSIZE"
proof -
  have "l_outstanding (lg demo_tx) = 1" "\<not> l_committing (lg demo_tx)" by (simp_all add: demo_tx_def demo_log_def)
  then obtain k' where k': "end_op demo_tx = Ok k'" by (rule end_op_tx [OF demo_tx_inv]) (rule that)
  then have "(tx_step 1)\<^sup>*\<^sup>* (demo_tx, {}) (k', {})" by (auto intro: tx_end)
  then show ?thesis using transactions_invariant [OF demo_tx_inv] k' by blast
qed

end
