(* ===== verification/Drivers.thy ===== *)
theory Drivers
  imports Transaction
begin

text \<open>
  The two disk drivers. \<open>ide.c\<close> and \<open>memide.c\<close> offer the same \<open>iderw\<close>: on drive 1, a request of the buffer cache has the
  same effect on the buffer and on the contents of the disk with either of them.
\<close>

definition request_ok :: "kernel \<Rightarrow> nat \<Rightarrow> bool" where
  "request_ok k b \<longleftrightarrow> b < length (bufs k) \<and> sl_locked (b_lock (buf_at k b)) \<and> flags_ok (b_flags (buf_at k b)) \<and>
     b_flags (buf_at k b) \<noteq> B_VALID \<and> b_dev (buf_at k b) = 1 \<and> b_blockno (buf_at k b) < FSSIZE"

lemma flags_request: "flags_ok f \<Longrightarrow> f \<noteq> B_VALID \<Longrightarrow> f = 0 \<or> f = B_VALID OR B_DIRTY"
  by (auto simp: flags_ok_def)

text \<open>
  C38. The IDE driver and the memory disk agree: for a locked buffer that is to be read or written back, with an idle queue
  and a drive that works, both requests end without an error, and leave the same data and flags in the
  buffer and the same blocks on the disk; the IDE driver changes no other buffer.
\<close>

theorem ide_memide_agree:
  assumes "request_ok k b" and "idequeue k = None" and "havedisk1 k" and "\<not> ide_fault k"
    and "memdisk m = disk k 1" and "disksize m = FSSIZE"
  shows "\<exists>k' x m'. iderw k b = Ok k' \<and> memide_iderw m (buf_at k b) = Ok (x, m') \<and>
    b_data (buf_at k' b) = b_data x \<and> b_flags (buf_at k' b) = b_flags x \<and> disk k' 1 = memdisk m' \<and>
    (\<forall>i. i \<noteq> b \<longrightarrow> buf_at k' i = buf_at k i)"
proof -
  have b: "b < length (bufs k)" "sl_locked (b_lock (buf_at k b))" "b_dev (buf_at k b) = 1" "b_blockno (buf_at k b) < FSSIZE"
    using assms(1) by (simp_all add: request_ok_def)
  consider "b_flags (buf_at k b) = 0" | "b_flags (buf_at k b) = B_VALID OR B_DIRTY"
    using assms(1) flags_request unfolding request_ok_def by blast
  then show ?thesis
  proof cases
    case 1
    then show ?thesis
      using iderw_read [OF assms(2) b(1,2) 1 b(4) _ assms(4)] assms b
      by (simp add: memide_iderw_def holdingsleep_def dblock_def not_le B_VALID_def B_DIRTY_def)
  next
    case 2
    then show ?thesis
      using iderw_write [OF assms(2) b(1,2) 2 b(4) _ assms(4)] assms b
      by (simp add: memide_iderw_def holdingsleep_def disk_write_def not_le B_VALID_def B_DIRTY_def)
  qed
qed

definition demo_request :: kernel where
  "demo_request = demo_kernel\<lparr>bufs := [demo_buf\<lparr>b_flags := B_VALID OR B_DIRTY, b_dev := 1, b_blockno := 7,
     b_lock := \<lparr>sl_locked = True, sl_name = [], sl_pid = 3\<rparr>, b_data := replicate BSIZE 9\<rparr>], disk := demo_disk\<rparr>"

theorem ide_memide_agree_witness:
  "request_ok demo_request 0 \<and> idequeue demo_request = None \<and>
   (\<exists>k' x m'. iderw demo_request 0 = Ok k' \<and>
     memide_iderw \<lparr>disksize = FSSIZE, memdisk = demo_disk 1\<rparr> (buf_at demo_request 0) = Ok (x, m') \<and>
     b_data (buf_at k' 0) = b_data x \<and> b_flags (buf_at k' 0) = b_flags x \<and> disk k' 1 = memdisk m')"
proof -
  have r: "request_ok demo_request 0"
    by (simp add: request_ok_def demo_request_def demo_buf_def flags_ok_def B_VALID_def B_DIRTY_def FSSIZE_def)
  have q: "idequeue demo_request = None" "havedisk1 demo_request" "\<not> ide_fault demo_request" "disk demo_request = demo_disk"
    by (simp_all add: demo_request_def demo_kernel_def)
  show ?thesis
    using ide_memide_agree [OF r q(1-3), of "\<lparr>disksize = FSSIZE, memdisk = demo_disk 1\<rparr>"] r q by auto
qed

end
