(* ===== verification/Descriptors.thy ===== *)
theory Descriptors
  imports Sysfile
begin

text \<open>
  File descriptors (\<open>sysfile.c\<close>, \<open>file.c\<close>): every descriptor of every process names a place of the file table, and the
  reference count of a file is the number of descriptors and swap files that name it.
\<close>

definition proc_refs :: "nat \<Rightarrow> proc \<Rightarrow> nat" where
  "proc_refs f q = count_list (p_ofile q) (Some f) + count_list (FilesForSwap q) (Some f)"

definition fd_refs :: "kernel \<Rightarrow> nat \<Rightarrow> nat" where
  "fd_refs k f = sum_list (map (proc_refs f) (ptable k))"

definition files_typed :: "kernel \<Rightarrow> bool" where
  "files_typed k \<longleftrightarrow>
     (\<forall>q \<in> set (ptable k). length (p_ofile q) = NOFILE \<and> (\<forall>f. Some f \<in> set (p_ofile q) \<union> set (FilesForSwap q) \<longrightarrow> f < length (ftable k))) \<and>
     (\<forall>f < length (ftable k). f_ref (file_at k f) = int (fd_refs k f))"

lemma count_list_update:
  "i < length xs \<Longrightarrow> count_list (xs[i := v]) x + (if xs ! i = x then 1 else 0) = count_list xs x + (if v = x then 1 else 0)"
proof (induction xs arbitrary: i)
  case (Cons y ys)
  show ?case
  proof (cases i)
    case (Suc j)
    then show ?thesis using Cons.IH [of j] Cons.prems by (simp split: if_splits)
  qed auto
qed simp

lemma sum_list_update_nat:
  "i < length xs \<Longrightarrow> sum_list (map g (xs[i := y])) + g (xs ! i) = sum_list (map g xs) + (g y :: nat)"
proof (induction xs arbitrary: i)
  case (Cons x xs)
  show ?case using Cons by (cases i) auto
qed simp

lemma fd_refs_set_fd:
  assumes "p < length (ptable k)" and "fd < length (p_ofile (proc_at k p))"
  shows "fd_refs (set_fd k p fd v) f + (if p_ofile (proc_at k p) ! fd = Some f then 1 else 0) =
    fd_refs k f + (if v = Some f then 1 else 0)"
proof -
  let ?q = "proc_at k p"
  have "proc_refs f (?q\<lparr>p_ofile := (p_ofile ?q)[fd := v]\<rparr>) + (if p_ofile ?q ! fd = Some f then 1 else 0) =
      proc_refs f ?q + (if v = Some f then 1 else 0)"
    using count_list_update [OF assms(2), of v "Some f"] by (simp add: proc_refs_def)
  then show ?thesis
    using sum_list_update_nat [OF assms(1), of "proc_refs f" "?q\<lparr>p_ofile := (p_ofile ?q)[fd := v]\<rparr>"]
    by (simp add: fd_refs_def set_fd_def upd_proc_def)
qed

lemma set_fd_ptable: "ptable (set_fd k p fd v) = (ptable k)[p := (proc_at k p)\<lparr>p_ofile := (p_ofile (proc_at k p))[fd := v]\<rparr>]"
  by (simp add: set_fd_def upd_proc_def)

lemma set_fd_names:
  assumes "\<forall>q \<in> set (ptable k). length (p_ofile q) = NOFILE \<and> (\<forall>f. Some f \<in> set (p_ofile q) \<union> set (FilesForSwap q) \<longrightarrow> f < n)"
    and "\<And>f. v = Some f \<Longrightarrow> f < n" and "p < length (ptable k)"
  shows "\<forall>q \<in> set (ptable (set_fd k p fd v)). length (p_ofile q) = NOFILE \<and> (\<forall>f. Some f \<in> set (p_ofile q) \<union> set (FilesForSwap q) \<longrightarrow> f < n)"
proof
  fix q assume "q \<in> set (ptable (set_fd k p fd v))"
  then have "q = (proc_at k p)\<lparr>p_ofile := (p_ofile (proc_at k p))[fd := v]\<rparr> \<or> q \<in> set (ptable k)"
    unfolding set_fd_ptable using set_update_subset_insert by fast
  then show "length (p_ofile q) = NOFILE \<and> (\<forall>f. Some f \<in> set (p_ofile q) \<union> set (FilesForSwap q) \<longrightarrow> f < n)"
    using assms nth_mem [OF assms(3)] set_update_subset_insert [of "p_ofile (proc_at k p)" fd v] by fastforce
qed

lemma files_typed_bump:
  assumes names: "\<forall>q \<in> set (ptable k). length (p_ofile q) = NOFILE \<and> (\<forall>f. Some f \<in> set (p_ofile q) \<union> set (FilesForSwap q) \<longrightarrow> f < length (ftable k))"
    and counts: "\<And>g. g < length (ftable k) \<Longrightarrow> f_ref (file_at k g) + (if g = f then d else 0) = int (fd_refs k g)"
  shows "files_typed (upd_file k f (\<lambda>x. x\<lparr>f_ref := f_ref x + d\<rparr>))"
proof -
  let ?k = "upd_file k f (\<lambda>x. x\<lparr>f_ref := f_ref x + d\<rparr>)"
  have same: "ptable ?k = ptable k" "length (ftable ?k) = length (ftable k)" by (simp_all add: upd_file_def)
  have refs: "fd_refs ?k g = fd_refs k g" for g by (simp add: fd_refs_def same)
  have "f_ref (file_at ?k g) = int (fd_refs ?k g)" if "g < length (ftable k)" for g
    using counts [OF that] that unfolding refs by (cases "g = f") (simp_all add: upd_file_def)
  then show ?thesis using names unfolding files_typed_def same by blast
qed

lemma typed_slot:
  assumes "files_typed k" and "p < length (ptable k)"
  shows "length (p_ofile (proc_at k p)) = NOFILE"
    and "i < NOFILE \<Longrightarrow> p_ofile (proc_at k p) ! i = Some f \<Longrightarrow> f < length (ftable k) \<and> 1 \<le> f_ref (file_at k f)"
proof -
  have q: "proc_at k p \<in> set (ptable k)" using assms(2) by simp
  show len: "length (p_ofile (proc_at k p)) = NOFILE" using assms(1) q unfolding files_typed_def by blast
  assume i: "i < NOFILE" "p_ofile (proc_at k p) ! i = Some f"
  then have m: "Some f \<in> set (p_ofile (proc_at k p))" using len nth_mem by metis
  then have f: "f < length (ftable k)" using assms(1) q unfolding files_typed_def by blast
  have "count_list (p_ofile (proc_at k p)) (Some f) \<noteq> 0" using m by (simp add: count_list_0_iff)
  then have "1 \<le> proc_refs f (proc_at k p)" by (simp add: proc_refs_def)
  also have "\<dots> \<le> fd_refs k f" unfolding fd_refs_def by (rule member_le_sum_list) (use q in auto)
  finally show "f < length (ftable k) \<and> 1 \<le> f_ref (file_at k f)" using f assms(1) unfolding files_typed_def by simp
qed

lemma argfd_open:
  assumes "myproc k = Ok p" and "argint k 0 = Ok (Some w)"
  shows "argfd k 0 = Ok (if 0 \<le> sint w \<and> sint w < int NOFILE then map_option (Pair (nat (sint w))) (p_ofile (proc_at k p) ! nat (sint w)) else None)"
  using assms by (auto simp: argfd_def split: option.splits)

text \<open>
  C36. In a state where every descriptor names a file and every file counts its descriptors, \<open>dup\<close> never panics: for an
  open descriptor of a process with a free slot it returns the lowest free slot, which then names the same file, and
  otherwise it returns -1 and changes nothing. The counts are right again afterwards.
\<close>
theorem dup_typed:
  assumes typed: "files_typed k" and p: "myproc k = Ok p" "p < length (ptable k)" and w: "argint k 0 = Ok (Some w)"
  shows "\<exists>r k'. sys_dup k = Ok (r, k') \<and> files_typed k' \<and>
    (let t = p_ofile (proc_at k p)
     in if 0 \<le> sint w \<and> sint w < int NOFILE \<and> t ! nat (sint w) \<noteq> None \<and> None \<in> set t
        then \<exists>fd < NOFILE. r = int fd \<and> t ! fd = None \<and> (\<forall>j < fd. t ! j \<noteq> None) \<and>
               p_ofile (proc_at k' p) = t[fd := t ! nat (sint w)]
        else r = -1 \<and> k' = k)"
proof (cases "0 \<le> sint w \<and> sint w < int NOFILE \<and> p_ofile (proc_at k p) ! nat (sint w) \<noteq> None")
  case False
  then have "sys_dup k = Ok (-1, k)" using argfd_open [OF p(1) w] by (auto simp: sys_dup_def)
  then show ?thesis using typed False by (auto simp: Let_def)
next
  case True
  then obtain f where f: "p_ofile (proc_at k p) ! nat (sint w) = Some f" by blast
  have i: "nat (sint w) < NOFILE" using True by linarith
  have len: "length (p_ofile (proc_at k p)) = NOFILE" by (rule typed_slot(1) [OF typed p(2)])
  have ok: "f < length (ftable k)" "1 \<le> f_ref (file_at k f)" using typed_slot(2) [OF typed p(2) i f] by blast+
  have a: "argfd k 0 = Ok (Some (nat (sint w), f))" using argfd_open [OF p(1) w] True f by simp
  show ?thesis
  proof (cases "find_index (\<lambda>x. x = None) (p_ofile (proc_at k p))")
    case None
    then have "None \<notin> set (p_ofile (proc_at k p))" by (auto simp: find_index_None)
    moreover have "sys_dup k = Ok (-1, k)" using a p(1) None by (simp add: sys_dup_def fdalloc_def)
    ultimately show ?thesis using typed by (auto simp: Let_def)
  next
    case (Some fd)
    note fi = find_index_Some [OF Some]
    let ?k1 = "set_fd k p fd (Some f)"
    let ?k2 = "upd_file ?k1 f (\<lambda>x. x\<lparr>f_ref := f_ref x + 1\<rparr>)"
    have ft: "ftable ?k1 = ftable k" by (simp add: set_fd_def upd_proc_def)
    have run: "sys_dup k = Ok (int fd, ?k2)" using a p(1) Some ok(2) by (simp add: sys_dup_def fdalloc_def filedup_def ft)
    have counts: "f_ref (file_at ?k1 g) + (if g = f then 1 else 0) = int (fd_refs ?k1 g)" if "g < length (ftable ?k1)" for g
      using fd_refs_set_fd [OF p(2), of fd "Some f" g] fi len that typed unfolding ft files_typed_def by auto
    have names: "\<forall>q \<in> set (ptable ?k1). length (p_ofile q) = NOFILE \<and> (\<forall>f. Some f \<in> set (p_ofile q) \<union> set (FilesForSwap q) \<longrightarrow> f < length (ftable ?k1))"
      unfolding ft by (rule set_fd_names) (use typed ok(1) p(2) in \<open>auto simp: files_typed_def\<close>)
    have "files_typed ?k2" by (rule files_typed_bump [OF names counts])
    moreover have "p_ofile (proc_at ?k2 p) = (p_ofile (proc_at k p))[fd := Some f]"
      using p(2) by (simp add: upd_file_def set_fd_def upd_proc_def)
    moreover have "None \<in> set (p_ofile (proc_at k p))" using fi nth_mem by metis
    ultimately show ?thesis using run fi len f True by (auto simp: Let_def)
  qed
qed

text \<open>A process with one open file, as descriptor 0; the argument of the call is 0.\<close>

definition demo_files :: "nat option list \<Rightarrow> int \<Rightarrow> kernel" where
  "demo_files t n = demo_kernel\<lparr>ftable := [\<lparr>f_type = FD_NONE, f_ref = n, f_readable = 1, f_writable = 0, f_pipe = 0, f_ip = None, f_off = 0\<rparr>],
     ptable := [demo_proc\<lparr>p_ofile := t @ replicate (NOFILE - length t) None, p_tf := (p_tf demo_proc)\<lparr>tf_esp := 0x1000\<rparr>\<rparr>]\<rparr>"

lemma demo_files_facts:
  "myproc (demo_files t n) = Ok 0" "0 < length (ptable (demo_files t n))"
  "p_ofile (proc_at (demo_files t n) 0) = t @ replicate (NOFILE - length t) None"
  by (simp_all add: myproc_def demo_files_def demo_kernel_def demo_proc_def)

lemma demo_files_typed: "files_typed (demo_files [Some 0] 1)" "files_typed (demo_files [Some 0, Some 0] 2)"
  by (simp_all add: files_typed_def fd_refs_def proc_refs_def demo_files_def demo_kernel_def demo_proc_def NOFILE_def)

lemma demo_files_arg: "argint (demo_files [Some 0] 1) 0 = Ok (Some 0)" "argint (demo_files [Some 0, Some 0] 2) 0 = Ok (Some 0)"
  by code_simp+

theorem dup_typed_witness:
  "\<exists>k'. sys_dup (demo_files [Some 0] 1) = Ok (1, k') \<and> files_typed k' \<and>
     p_ofile (proc_at k' 0) = [Some 0, Some 0] @ replicate 14 None"
proof -
  let ?t = "[Some (0 :: nat)] @ replicate 15 None"
  have t: "p_ofile (proc_at (demo_files [Some 0] 1) 0) = ?t" by (simp add: demo_files_facts NOFILE_def)
  obtain r k' fd where "sys_dup (demo_files [Some 0] 1) = Ok (r, k')" "files_typed k'" and r: "r = int fd" "?t ! fd = None"
    "\<forall>j < fd. ?t ! j \<noteq> None" "p_ofile (proc_at k' 0) = ?t[fd := ?t ! 0]"
    using dup_typed [OF demo_files_typed(1) demo_files_facts(1,2) demo_files_arg(1)] unfolding t
    by (auto simp: Let_def NOFILE_def)
  moreover have "fd = 1"
  proof -
    have "fd \<noteq> 0" using r(2) by (cases fd) auto
    moreover have "\<not> 1 < fd" using r(3) by auto
    ultimately show ?thesis by simp
  qed
  ultimately show ?thesis by (auto simp: numeral_eq_Suc)
qed

text \<open>
  C37. Closing a descriptor of a file that another descriptor still names returns 0, frees exactly that slot, and leaves
  every descriptor naming a file and every file counting its descriptors.
\<close>
theorem close_shared_typed:
  assumes typed: "files_typed k" and p: "myproc k = Ok p" "p < length (ptable k)" and w: "argint k 0 = Ok (Some w)"
    and i: "0 \<le> sint w" "sint w < int NOFILE" "p_ofile (proc_at k p) ! nat (sint w) = Some f" and shared: "1 < fd_refs k f"
  shows "\<exists>k'. sys_close k = Ok (0, k') \<and> files_typed k' \<and> fd_refs k' f + 1 = fd_refs k f \<and>
    p_ofile (proc_at k' p) = (p_ofile (proc_at k p))[nat (sint w) := None] \<and>
    (\<forall>q < length (ptable k). q \<noteq> p \<longrightarrow> proc_at k' q = proc_at k q)"
proof -
  let ?i = "nat (sint w)"
  let ?k1 = "set_fd k p ?i None"
  let ?k2 = "upd_file ?k1 f (\<lambda>x. x\<lparr>f_ref := f_ref x + (-1)\<rparr>)"
  have lt: "?i < NOFILE" using i(1,2) by linarith
  have len: "?i < length (p_ofile (proc_at k p))" using typed_slot(1) [OF typed p(2)] lt by simp
  have f: "f < length (ftable k)" using typed_slot(2) [OF typed p(2) lt i(3)] by blast
  have ref: "f_ref (file_at k f) = int (fd_refs k f)" using typed f unfolding files_typed_def by blast
  have ft: "ftable ?k1 = ftable k" by (simp add: set_fd_def upd_proc_def)
  have "argfd k 0 = Ok (Some (?i, f))" using argfd_open [OF p(1) w] i by simp
  then have run: "sys_close k = Ok (0, ?k2)"
    using p(1) shared ref f by (simp add: sys_close_def fileclose_def ft Let_def upd_file_def)
  have counts: "f_ref (file_at ?k1 g) + (if g = f then -1 else 0) = int (fd_refs ?k1 g)" if "g < length (ftable ?k1)" for g
    using fd_refs_set_fd [OF p(2) len, of None g] i(3) that typed unfolding ft files_typed_def by (auto split: if_splits)
  have names: "\<forall>q \<in> set (ptable ?k1). length (p_ofile q) = NOFILE \<and> (\<forall>f. Some f \<in> set (p_ofile q) \<union> set (FilesForSwap q) \<longrightarrow> f < length (ftable ?k1))"
    unfolding ft by (rule set_fd_names) (use typed p(2) in \<open>auto simp: files_typed_def\<close>)
  have "files_typed ?k2" by (rule files_typed_bump [OF names counts])
  moreover have "fd_refs ?k2 f + 1 = fd_refs k f"
    using fd_refs_set_fd [OF p(2) len, of None f] i(3) by (simp add: fd_refs_def upd_file_def)
  ultimately show ?thesis using run p(2) by (auto simp: upd_file_def set_fd_def upd_proc_def)
qed

theorem close_shared_typed_witness:
  "\<exists>k'. sys_close (demo_files [Some 0, Some 0] 2) = Ok (0, k') \<and> files_typed k' \<and> fd_refs k' 0 = 1"
proof -
  let ?k = "demo_files [Some 0, Some 0] 2"
  have refs: "fd_refs ?k 0 = 2"
    by (simp add: fd_refs_def proc_refs_def demo_files_def demo_kernel_def demo_proc_def NOFILE_def)
  have slot: "p_ofile (proc_at ?k 0) ! nat (sint (0 :: u32)) = Some 0" by (simp add: demo_files_facts)
  show ?thesis
    using close_shared_typed [OF demo_files_typed(2) demo_files_facts(1,2) demo_files_arg(2) _ _ slot] refs
    by (auto simp: NOFILE_def)
qed

end
