(* ===== verification/Umalloc.thy ===== *)
theory Umalloc
  imports Cache
begin

text \<open>
  \<open>umalloc.c\<close>: the allocator of Kernighan and Ritchie. Addresses and sizes are counted in headers (8 bytes); \<open>s_ptr\<close> and
  \<open>s_size\<close> are the fields of the header at an address, and \<open>base\<close> is the address of the static header, which lies below
  the heap. \<open>sbrk\<close> is a parameter with a state of its own: it is asked for a number of bytes and answers with the address
  of new memory, or with nothing. The loops may run for ever on a damaged list, so they are partial.
\<close>

record umem =
  s_ptr :: "nat \<Rightarrow> nat"
  s_size :: "nat \<Rightarrow> nat"
  freep :: "nat option"

partial_function (option) free_find :: "umem \<Rightarrow> nat \<Rightarrow> nat \<Rightarrow> nat option" where
  "free_find m bp p =
     (if p < bp \<and> bp < s_ptr m p \<or> s_ptr m p \<le> p \<and> (p < bp \<or> bp < s_ptr m p) then Some p
      else free_find m bp (s_ptr m p))"

text \<open>\<open>free\<close>, on the header of the block; a null \<open>freep\<close> would be followed.\<close>

definition free_link :: "umem \<Rightarrow> nat \<Rightarrow> nat \<Rightarrow> umem" where
  "free_link m bp p =
     (let nx = s_ptr m p;
          m = (if bp + s_size m bp = nx
               then m\<lparr>s_size := (s_size m)(bp := s_size m bp + s_size m nx), s_ptr := (s_ptr m)(bp := s_ptr m nx)\<rparr>
               else m\<lparr>s_ptr := (s_ptr m)(bp := nx)\<rparr>);
          m = (if p + s_size m p = bp
               then m\<lparr>s_size := (s_size m)(p := s_size m p + s_size m bp), s_ptr := (s_ptr m)(p := s_ptr m bp)\<rparr>
               else m\<lparr>s_ptr := (s_ptr m)(p := bp)\<rparr>)
      in m\<lparr>freep := Some p\<rparr>)"

definition free :: "umem \<Rightarrow> nat \<Rightarrow> umem option" where
  "free m bp = Option.bind (freep m) (\<lambda>f. Option.bind (free_find m bp f) (\<lambda>p. Some (free_link m bp p)))"

text \<open>The call of \<open>sbrk\<close> in \<open>morecore\<close>: the product is taken in 32 bits and passed as an \<open>int\<close>.\<close>

definition core_units :: "nat \<Rightarrow> nat" where
  "core_units nu = (if nu < 4096 then 4096 else nu)"

definition morecore :: "('s \<Rightarrow> int \<Rightarrow> nat option \<times> 's) \<Rightarrow> umem \<Rightarrow> 's \<Rightarrow> nat \<Rightarrow> (nat option \<times> umem \<times> 's) option" where
  "morecore sbrk m s nu =
     (let nu = core_units nu
      in case sbrk s (sint (of_nat (nu * 8) :: u32)) of
           (None, s) \<Rightarrow> Some (None, m, s)
         | (Some hp, s) \<Rightarrow>
             Option.bind (free (m\<lparr>s_size := (s_size m)(hp := nu)\<rparr>) hp) (\<lambda>m. Some (freep m, m, s)))"

text \<open>Taking \<open>nunits\<close> headers from block \<open>p\<close>, which follows \<open>prevp\<close>: the address of the block and the memory.\<close>

definition take_block :: "umem \<Rightarrow> nat \<Rightarrow> nat \<Rightarrow> nat \<Rightarrow> nat \<times> umem" where
  "take_block m prevp p nunits =
     (if s_size m p = nunits then (p, m\<lparr>s_ptr := (s_ptr m)(prevp := s_ptr m p), freep := Some prevp\<rparr>)
      else
        (let m = m\<lparr>s_size := (s_size m)(p := s_size m p - nunits)\<rparr>;
             p = p + s_size m p
         in (p, m\<lparr>s_size := (s_size m)(p := nunits), freep := Some prevp\<rparr>)))"

partial_function (option) malloc_loop ::
  "('s \<Rightarrow> int \<Rightarrow> nat option \<times> 's) \<Rightarrow> nat \<Rightarrow> umem \<Rightarrow> 's \<Rightarrow> nat \<Rightarrow> nat \<Rightarrow> (nat option \<times> umem \<times> 's) option" where
  "malloc_loop sbrk nunits m s prevp p =
     (if nunits \<le> s_size m p then (let (p, m) = take_block m prevp p nunits in Some (Some p, m, s))
      else if freep m = Some p then
        Option.bind (morecore sbrk m s nunits) (\<lambda>(r, m, s).
          case r of None \<Rightarrow> Some (None, m, s) | Some q \<Rightarrow> malloc_loop sbrk nunits m s q (s_ptr m q))
      else malloc_loop sbrk nunits m s p (s_ptr m p))"

definition units_of :: "u32 \<Rightarrow> nat" where
  "units_of nbytes = unat ((nbytes + 8 - 1) div 8 + 1)"

text \<open>\<open>malloc\<close> returns the address of the header of the block.\<close>

definition malloc :: "nat \<Rightarrow> ('s \<Rightarrow> int \<Rightarrow> nat option \<times> 's) \<Rightarrow> umem \<Rightarrow> 's \<Rightarrow> u32 \<Rightarrow> (nat option \<times> umem \<times> 's) option" where
  "malloc base sbrk m s nbytes =
     (case freep m of
        Some f \<Rightarrow> malloc_loop sbrk (units_of nbytes) m s f (s_ptr m f)
      | None \<Rightarrow>
          (let m = m\<lparr>s_ptr := (s_ptr m)(base := base), s_size := (s_size m)(base := 0), freep := Some base\<rparr>
           in malloc_loop sbrk (units_of nbytes) m s base (s_ptr m base)))"

subsection \<open>The free list\<close>

text \<open>
  The free blocks \<open>as\<close> in increasing order, linked in a circle through \<open>base\<close>; no two of them touch, so adjacent blocks have
  been joined.
\<close>

definition ulist :: "nat \<Rightarrow> umem \<Rightarrow> nat list \<Rightarrow> bool" where
  "ulist base m as \<longleftrightarrow> fchain (s_ptr m) base as base \<and> sorted_wrt (\<lambda>a b. a + s_size m a < b) (base # as) \<and> s_size m base = 0 \<and>
     (\<forall>a \<in> set as. 0 < s_size m a)"

definition free_ok :: "nat \<Rightarrow> umem \<Rightarrow> nat list \<Rightarrow> bool" where
  "free_ok base m as \<longleftrightarrow> ulist base m as \<and> (\<exists>f \<in> set (base # as). freep m = Some f)"

definition block :: "umem \<Rightarrow> nat \<Rightarrow> nat set" where
  "block m a = {a ..< a + s_size m a}"

definition free_units :: "umem \<Rightarrow> nat list \<Rightarrow> nat set" where
  "free_units m as = (\<Union>a \<in> set as. block m a)"

lemma fchain_append: "fchain f a (us @ v # vs) z \<longleftrightarrow> fchain f a us v \<and> fchain f v vs z"
  by (induction us arbitrary: a) auto

text \<open>The search for the place of a block goes past every other place.\<close>

definition stops :: "umem \<Rightarrow> nat \<Rightarrow> nat \<Rightarrow> bool" where
  "stops m bp p \<longleftrightarrow> p < bp \<and> bp < s_ptr m p \<or> s_ptr m p \<le> p \<and> (p < bp \<or> bp < s_ptr m p)"

lemma free_find_eq: "free_find m bp p = (if stops m bp p then Some p else free_find m bp (s_ptr m p))"
  unfolding stops_def by (rule free_find.simps)

lemma free_find_walk:
  "fchain (s_ptr m) a ys z \<Longrightarrow> (\<And>x. x \<in> set (a # ys) \<Longrightarrow> \<not> stops m bp x) \<Longrightarrow> free_find m bp a = free_find m bp z"
proof (induction ys arbitrary: a)
  case Nil
  then show ?case using free_find_eq [of m bp a] by simp
next
  case (Cons y ys)
  then have "free_find m bp a = free_find m bp y" using free_find_eq [of m bp a] by simp
  also have "\<dots> = free_find m bp z" using Cons by (intro Cons.IH) auto
  finally show ?case .
qed

lemma fchain_circle: "fchain f b xs b \<Longrightarrow> b # xs = us @ a # vs \<Longrightarrow> fchain f a (vs @ us) a"
  by (cases us) (auto simp: fchain_append)

lemma fchain_retarget: "fchain f a us z \<Longrightarrow> distinct (a # us) \<Longrightarrow> fchain (f(last (a # us) := w)) a us w"
proof (induction us arbitrary: a)
  case (Cons u us)
  have "last (u # us) \<in> set (u # us)" by (rule last_in_set) simp
  then have "last (u # us) \<noteq> a" using Cons.prems(2) by auto
  then show ?case using Cons by simp
qed simp

lemma fchain_start: "fchain f b vs z \<Longrightarrow> a \<notin> set vs \<Longrightarrow> fchain (f(a := f b)) a vs z"
  by (cases vs) auto

text \<open>The facts of a well-formed list that the proofs use.\<close>

lemma gap_order: "sorted_wrt (\<lambda>a b. a + g a < b) xs \<Longrightarrow> sorted_wrt (<) (xs :: nat list)"
  by (erule sorted_wrt_mono_rel [rotated]) simp

lemma gap_cong:
  "sorted_wrt (\<lambda>a b. a + g a < b) xs \<Longrightarrow> (\<And>a. a \<in> set xs \<Longrightarrow> h a \<le> g a) \<Longrightarrow> sorted_wrt (\<lambda>a b. a + h a < (b :: nat)) xs"
  by (erule sorted_wrt_mono_rel [rotated]) fastforce

lemma ulistI:
  "s_ptr m = P \<Longrightarrow> s_size m = S \<Longrightarrow> fchain P base as base \<Longrightarrow> sorted_wrt (\<lambda>a b. a + S a < b) (base # as) \<Longrightarrow>
   S base = 0 \<Longrightarrow> \<forall>a \<in> set as. 0 < S a \<Longrightarrow> ulist base m as"
  unfolding ulist_def by blast

lemma ulist_order: "ulist base m as \<Longrightarrow> sorted_wrt (<) (base # as)"
  unfolding ulist_def by (elim conjE, erule gap_order)

lemma sorted_less_distinct: "sorted_wrt (<) (xs :: nat list) \<Longrightarrow> distinct xs"
  by (induction xs) auto

lemma ulist_distinct: "ulist base m as \<Longrightarrow> distinct (base # as)"
  by (rule sorted_less_distinct [OF ulist_order])

lemma ulist_next:
  assumes "ulist base m as" and "base # as = us @ x # vs"
  shows "s_ptr m x = hd (vs @ [base])"
proof (cases us)
  case Nil
  then show ?thesis using assms fchain_first unfolding ulist_def by force
next
  case (Cons b us')
  then show ?thesis using assms fchain_at [of "s_ptr m" base us' x vs base] unfolding ulist_def by simp
qed

lemma gap_append:
  assumes "sorted_wrt (\<lambda>a b. a + g a < b) us" and "sorted_wrt (\<lambda>a b. a + g a < (b :: nat)) (v # vs)"
    and "\<And>u. u \<in> set us \<Longrightarrow> u + g u < v"
  shows "sorted_wrt (\<lambda>a b. a + g a < b) (us @ v # vs)"
proof -
  have "v \<le> w" if "w \<in> set (v # vs)" for w using assms(2) that by fastforce
  then show ?thesis using assms by (fastforce simp only: sorted_wrt_append intro: less_le_trans)
qed

lemma free_units_simps [simp]:
  "free_units m [] = {}"
  "free_units m (x # xs) = block m x \<union> free_units m xs"
  "free_units m (xs @ ys) = free_units m xs \<union> free_units m ys"
  by (auto simp: free_units_def)

lemma free_units_upd [simp]:
  "free_units (m\<lparr>s_ptr := P\<rparr>) xs = free_units m xs"
  "free_units (m\<lparr>freep := f\<rparr>) xs = free_units m xs"
  "p \<notin> set xs \<Longrightarrow> free_units (m\<lparr>s_size := (s_size m)(p := n)\<rparr>) xs = free_units m xs"
proof -
  show "p \<notin> set xs \<Longrightarrow> free_units (m\<lparr>s_size := (s_size m)(p := n)\<rparr>) xs = free_units m xs"
    unfolding free_units_def by (rule SUP_cong) (auto simp: block_def)
qed (simp_all add: free_units_def block_def)

lemma free_units_cong: "(\<And>a. a \<in> set xs \<Longrightarrow> s_size m' a = s_size m a) \<Longrightarrow> free_units m' xs = free_units m xs"
  unfolding free_units_def by (rule SUP_cong) (auto simp: block_def)

text \<open>Where a block goes: after the last free block (or \<open>base\<close>) below it.\<close>

lemma free_find_place:
  assumes ul: "ulist base m (us @ vs)" and f: "f \<in> set (base # us @ vs)" and us: "\<And>x. x \<in> set us \<Longrightarrow> x < bp"
    and vs: "\<And>x. x \<in> set vs \<Longrightarrow> bp < x" and bp: "base < bp"
  shows "free_find m bp f = Some (last (base # us))"
proof -
  have so: "sorted_wrt (<) (base # us @ vs)" by (rule ulist_order [OF ul])
  obtain ws p where ws: "base # us = ws @ [p]" by (metis append_butlast_last_id list.discI)
  have low: "x < bp" if "x \<in> set (base # us)" for x using that us bp by auto
  have pm: "p \<in> set (base # us)" unfolding ws by simp
  have "base \<le> x" if "x \<in> set (base # us)" for x using so that by (auto intro: less_imp_le)
  from this [OF pm] have "base \<le> p" .
  then have at_p: "stops m bp p"
    using ulist_next [OF ul, of ws p vs] ws low [OF pm] vs by (cases vs) (auto simp: stops_def)
  have others: "\<not> stops m bp x" if x: "x \<in> set (base # us @ vs)" and np: "x \<noteq> p" for x
  proof -
    obtain xs ys where xy: "base # us @ vs = xs @ x # ys" using split_list [OF x] by blast
    have nx: "s_ptr m x = hd (ys @ [base])" by (rule ulist_next [OF ul xy])
    show ?thesis
    proof (cases "x \<in> set (base # us)")
      case True
      then have "x \<in> set ws" using np unfolding ws by simp
      then obtain xs' ys' where "ws = xs' @ x # ys'" using split_list by fast
      then have e: "base # us = xs' @ x # ys' @ [p]" using ws by simp
      then have e2: "base # us @ vs = xs' @ x # ys' @ p # vs" using arg_cong [OF e, of "\<lambda>l. l @ vs"] by simp
      have "hd (ys' @ [p]) \<in> set (base # us)" unfolding e by (cases ys') auto
      moreover have "s_ptr m x = hd (ys' @ [p])" using ulist_next [OF ul e2] by (cases ys') auto
      moreover have "x < hd (ys' @ [p])" using so unfolding e2 by (cases ys') (auto simp: sorted_wrt_append)
      ultimately show ?thesis using low [of "s_ptr m x"] by (auto simp: stops_def)
    next
      case False
      then have "bp < x" using x vs by auto
      moreover have "x < hd ys" if "ys \<noteq> []" using so that unfolding xy by (cases ys) (auto simp: sorted_wrt_append)
      ultimately show ?thesis using nx bp by (cases ys) (auto simp: stops_def)
    qed
  qed
  obtain xs ys where xy: "base # us @ vs = xs @ f # ys" using split_list [OF f] by blast
  have circ: "fchain (s_ptr m) f (ys @ xs) f" using ul xy unfolding ulist_def by (intro fchain_circle) auto
  have "free_find m bp f = Some p"
  proof (cases "f = p")
    case True
    then show ?thesis using at_p free_find_eq [of m bp f] by simp
  next
    case False
    have "p \<in> set (base # us @ vs)" using pm by auto
    then have "p \<in> set (ys @ xs)" using False unfolding xy by auto
    then obtain as bs where ab: "ys @ xs = as @ p # bs" "p \<notin> set as" using split_list_first by metis
    have "set as \<subseteq> set (base # us @ vs)" unfolding xy using arg_cong [OF ab(1), of set] by auto
    then have "free_find m bp f = free_find m bp p"
      using circ ab False others f by (intro free_find_walk [of m f as p]) (auto simp: fchain_append)
    then show ?thesis using at_p free_find_eq [of m bp p] by simp
  qed
  then show ?thesis unfolding ws by simp
qed

text \<open>Linking the block, joined with its neighbours where they touch.\<close>

definition linked :: "nat \<Rightarrow> umem \<Rightarrow> nat list \<Rightarrow> nat \<Rightarrow> umem \<Rightarrow> nat list \<Rightarrow> bool" where
  "linked base m as bp m' as' \<longleftrightarrow> free_ok base m' as' \<and> free_units m' as' = free_units m as \<union> block m bp \<and>
     (\<exists>x \<in> set as'. block m bp \<subseteq> block m' x) \<and>
     (\<forall>a. a \<notin> free_units m as \<union> block m bp \<longrightarrow> s_size m' a = s_size m a)"

definition join_next :: "umem \<Rightarrow> nat \<Rightarrow> nat \<Rightarrow> umem" where
  "join_next m bp nx =
     (if bp + s_size m bp = nx
      then m\<lparr>s_size := (s_size m)(bp := s_size m bp + s_size m nx), s_ptr := (s_ptr m)(bp := s_ptr m nx)\<rparr>
      else m\<lparr>s_ptr := (s_ptr m)(bp := nx)\<rparr>)"

definition join_prev :: "umem \<Rightarrow> nat \<Rightarrow> nat \<Rightarrow> umem" where
  "join_prev m bp p =
     (if p + s_size m p = bp
      then m\<lparr>s_size := (s_size m)(p := s_size m p + s_size m bp), s_ptr := (s_ptr m)(p := s_ptr m bp)\<rparr>
      else m\<lparr>s_ptr := (s_ptr m)(p := bp)\<rparr>)\<lparr>freep := Some p\<rparr>"

lemma free_link_join: "free_link m bp p = join_prev (join_next m bp (s_ptr m p)) bp p"
  by (simp add: free_link_def join_next_def join_prev_def Let_def)

text \<open>A list cut in two, with the block \<open>bp\<close> linked to the second part only.\<close>

definition cut :: "nat \<Rightarrow> umem \<Rightarrow> nat list \<Rightarrow> nat \<Rightarrow> nat list \<Rightarrow> bool" where
  "cut base m us bp vs \<longleftrightarrow> (\<exists>z. fchain (s_ptr m) base us z) \<and> fchain (s_ptr m) bp vs base \<and>
     sorted_wrt (\<lambda>a b. a + s_size m a < b) (base # us) \<and> sorted_wrt (\<lambda>a b. a + s_size m a < b) (bp # vs) \<and>
     (\<forall>u \<in> set us. u + s_size m u \<le> bp) \<and> base < bp \<and> s_size m base = 0 \<and> (\<forall>a \<in> set (us @ bp # vs). 0 < s_size m a)"

lemma cutI:
  "s_ptr m = P \<Longrightarrow> s_size m = S \<Longrightarrow> fchain P base us z \<Longrightarrow> fchain P bp vs base \<Longrightarrow>
   sorted_wrt (\<lambda>a b. a + S a < b) (base # us) \<Longrightarrow> sorted_wrt (\<lambda>a b. a + S a < b) (bp # vs) \<Longrightarrow>
   \<forall>u \<in> set us. u + S u \<le> bp \<Longrightarrow> base < bp \<Longrightarrow> S base = 0 \<Longrightarrow> \<forall>a \<in> set (us @ bp # vs). 0 < S a \<Longrightarrow> cut base m us bp vs"
  unfolding cut_def by blast

lemma cut_order: "cut base m us bp vs \<Longrightarrow> sorted_wrt (<) (base # us @ bp # vs)"
proof -
  assume c: "cut base m us bp vs"
  then have "sorted_wrt (<) (base # us)" "sorted_wrt (<) (bp # vs)"
    unfolding cut_def using gap_order by blast+
  moreover have "u < bp" if u: "u \<in> set (base # us)" for u
  proof (cases "u = base")
    case False
    then have "u + s_size m u \<le> bp" "0 < s_size m u" using c u unfolding cut_def by auto
    then show ?thesis by simp
  qed (use c in \<open>simp add: cut_def\<close>)
  ultimately show ?thesis by (fastforce simp: sorted_wrt_append)
qed

lemma join_next_cut:
  assumes ul: "ulist base m (us @ vs)" and us: "\<forall>u \<in> set us. u + s_size m u \<le> bp" and vs: "\<forall>v \<in> set vs. bp + s_size m bp \<le> v"
    and bp: "base < bp" "0 < s_size m bp"
  shows "\<exists>ws. cut base (join_next m bp (s_ptr m (last (base # us)))) us bp ws \<and>
    free_units (join_next m bp (s_ptr m (last (base # us)))) (bp # ws) = free_units m vs \<union> block m bp \<and>
    block m bp \<subseteq> block (join_next m bp (s_ptr m (last (base # us)))) bp"
proof -
  have so: "sorted_wrt (<) (base # us @ vs)" by (rule ulist_order [OF ul])
  obtain qs q where qs: "base # us = qs @ [q]" by (metis append_butlast_last_id list.discI)
  have "base # us @ vs = qs @ q # vs" using arg_cong [OF qs, of "\<lambda>l. l @ vs"] by simp
  from ulist_next [OF ul this] have nx: "s_ptr m (last (base # us)) = hd (vs @ [base])" unfolding qs by simp
  have sz: "\<forall>a \<in> set (us @ vs). 0 < s_size m a" "s_size m base = 0" using ul by (simp_all add: ulist_def)
  have lt: "u < bp" if "u \<in> set us" for u
  proof -
    have "u + s_size m u \<le> bp" "0 < s_size m u" using us sz that by auto
    then show ?thesis by simp
  qed
  have gt: "bp < v" if "v \<in> set vs" for v
    using bspec [OF vs that] bp by simp
  have sw: "sorted_wrt (\<lambda>a b. a + s_size m a < b) (base # us)" "sorted_wrt (\<lambda>a b. a + s_size m a < b) vs"
    using ul by (auto simp: ulist_def sorted_wrt_append)
  have ch: "fchain (s_ptr m) base us (hd (vs @ [base]))" "vs \<noteq> [] \<longrightarrow> fchain (s_ptr m) (hd vs) (tl vs) base"
    using ul by (cases vs; simp add: ulist_def fchain_append)+
  show ?thesis
  proof (cases "vs \<noteq> [] \<and> bp + s_size m bp = hd vs")
    case False
    have ne: "bp + s_size m bp \<noteq> hd (vs @ [base])" using False bp by (cases vs) auto
    have nb: "bp \<notin> set vs" using gt by blast
    have "bp + s_size m bp < v" if v: "v \<in> set vs" for v
    proof (cases "v = hd vs")
      case True
      then show ?thesis using False v bspec [OF vs v] by (cases vs) auto
    next
      case nh: False
      then have "hd vs < v" "hd vs \<in> set vs" using so v by (cases vs; auto simp: sorted_wrt_append)+
      then show ?thesis using vs by fastforce
    qed
    then have c1: "sorted_wrt (\<lambda>a b. a + s_size m a < b) (bp # vs)" using sw by simp
    have c2: "fchain ((s_ptr m)(bp := hd (vs @ [base]))) bp vs base" using ch nb by (cases vs) auto
    have c3: "fchain ((s_ptr m)(bp := hd (vs @ [base]))) base us (hd (vs @ [base]))"
      using ch bp lt by (subst fchain_upd) auto
    have j: "join_next m bp (s_ptr m (last (base # us))) = m\<lparr>s_ptr := (s_ptr m)(bp := hd (vs @ [base]))\<rparr>"
      unfolding nx join_next_def using ne by (simp only: if_False)
    have c4: "\<forall>a \<in> set (us @ bp # vs). 0 < s_size m a" using sz bp by simp
    have "cut base (join_next m bp (s_ptr m (last (base # us)))) us bp vs"
      unfolding j by (rule cutI [OF _ _ c3 c2 sw(1) c1 us bp(1) sz(2) c4]) simp_all
    then show ?thesis unfolding j by (intro exI [of _ vs]) (simp add: block_def Un_commute)
  next
    case True
    then obtain v ws where v: "vs = v # ws" "bp + s_size m bp = v" by (cases vs) auto
    let ?P = "(s_ptr m)(bp := s_ptr m v)" and ?S = "(s_size m)(bp := s_size m bp + s_size m v)"
    have ws: "v + s_size m v < w" if "w \<in> set ws" for w using sw v that by auto
    have nb: "bp \<notin> set ws" "bp \<notin> set us" "bp \<noteq> base" "bp \<noteq> v" using gt lt v bp by auto
    have c1: "fchain ?P bp ws base" using ch v nb by (intro fchain_start) auto
    have c2: "fchain ?P base us v" using ch v nb by (subst fchain_upd) auto
    have "sorted_wrt (\<lambda>a b. a + s_size m a < b) ws" using sw(2) unfolding v(1) by simp
    then have "sorted_wrt (\<lambda>a b. a + ?S a < b) ws" by (rule gap_cong) (use nb in auto)
    moreover have "bp + ?S bp < w" if "w \<in> set ws" for w using ws [OF that] v(2) by simp
    ultimately have c3: "sorted_wrt (\<lambda>a b. a + ?S a < b) (bp # ws)" by simp
    have c4: "sorted_wrt (\<lambda>a b. a + ?S a < b) (base # us)" by (rule gap_cong [OF sw(1)]) (use nb in auto)
    have c5: "\<forall>u \<in> set us. u + ?S u \<le> bp" using us nb by auto
    have c6: "\<forall>a \<in> set (us @ bp # ws). 0 < ?S a" using sz v bp by auto
    have c7: "?S base = 0" using sz nb by simp
    have j: "join_next m bp (s_ptr m (last (base # us))) = m\<lparr>s_size := ?S, s_ptr := ?P\<rparr>"
      unfolding nx join_next_def using v by simp
    have "cut base (join_next m bp (s_ptr m (last (base # us)))) us bp ws"
      unfolding j by (rule cutI [OF _ _ c2 c1 c4 c3 c5 bp(1) c7 c6]) (simp_all add: fun_upd_def)
    then show ?thesis using v nb unfolding j by (intro exI [of _ ws]) (auto simp: block_def)
  qed
qed

lemma join_prev_list:
  assumes c: "cut base m us bp vs"
  shows "\<exists>as'. free_ok base (join_prev m bp (last (base # us))) as' \<and>
    free_units (join_prev m bp (last (base # us))) as' = free_units m (us @ bp # vs) \<and>
    (\<exists>x \<in> set as'. block m bp \<subseteq> block (join_prev m bp (last (base # us))) x)"
proof -
  have so: "sorted_wrt (<) (base # us @ bp # vs)" by (rule cut_order [OF c])
  then have d: "distinct (base # us @ bp # vs)" by (rule sorted_less_distinct)
  obtain z where z: "fchain (s_ptr m) base us z" using c by (auto simp: cut_def)
  have ch: "fchain (s_ptr m) bp vs base" and su: "sorted_wrt (\<lambda>a b. a + s_size m a < b) (base # us)"
    and sv: "sorted_wrt (\<lambda>a b. a + s_size m a < b) (bp # vs)" and us: "\<forall>u \<in> set us. u + s_size m u \<le> bp"
    and bp: "base < bp" and sz: "s_size m base = 0" "\<forall>a \<in> set (us @ bp # vs). 0 < s_size m a"
    using c unfolding cut_def by blast+
  show ?thesis
  proof (cases "us \<noteq> [] \<and> last us + s_size m (last us) = bp")
    case False
    obtain qs p where qs: "base # us = qs @ [p]" by (metis append_butlast_last_id list.discI)
    have pm: "p \<in> set (base # us)" unfolding qs by simp
    have ne: "p + s_size m p \<noteq> bp" using False qs sz bp by (cases us rule: rev_cases) auto
    have lt: "u + s_size m u < bp" if u: "u \<in> set (base # us)" for u
    proof (cases "u = p")
      case True
      have "u + s_size m u \<le> bp" using u us sz(1) bp by (cases "u = base") auto
      then show ?thesis using ne True by simp
    next
      case up: False
      then have "u \<in> set qs" using u unfolding qs by simp
      then have "u + s_size m u < p" using su unfolding qs by (simp add: sorted_wrt_append)
      moreover have "p < bp" using so pm by (auto simp: sorted_wrt_append)
      ultimately show ?thesis by simp
    qed
    have c1: "fchain ((s_ptr m)(p := bp)) base us bp" using fchain_retarget [OF z, of bp] d qs by (metis append.assoc distinct_append append_Cons last_snoc)
    have c2: "fchain ((s_ptr m)(p := bp)) bp vs base" using ch pm d by (subst fchain_upd) auto
    have c3: "sorted_wrt (\<lambda>a b. a + s_size m a < b) (base # us @ bp # vs)"
      using gap_append [OF su sv lt] by (simp only: append_Cons)
    have "ulist base (m\<lparr>s_ptr := (s_ptr m)(p := bp), freep := Some p\<rparr>) (us @ bp # vs)"
      by (rule ulistI [OF _ _ _ c3 sz]) (use c1 c2 in \<open>simp_all add: fchain_append\<close>)
    moreover have "join_prev m bp (last (base # us)) = m\<lparr>s_ptr := (s_ptr m)(p := bp), freep := Some p\<rparr>"
      using ne unfolding qs join_prev_def by simp
    ultimately show ?thesis using pm
      by (intro exI [of _ "us @ bp # vs"]) (auto simp: free_ok_def block_def)
  next
    case True
    then obtain ps p where p: "us = ps @ [p]" "p + s_size m p = bp" by (cases us rule: rev_cases) auto
    let ?P = "(s_ptr m)(p := s_ptr m bp)" and ?S = "(s_size m)(p := s_size m p + s_size m bp)"
    have np: "p \<noteq> base" "p \<notin> set ps" "p \<notin> set vs" "p \<noteq> bp" using d p by auto
    have c1: "fchain ?P base ps p" using z p np by (subst fchain_upd) (auto simp: fchain_append)
    have c2: "fchain ?P p vs base" using ch np by (intro fchain_start) auto
    have "sorted_wrt (\<lambda>a b. a + s_size m a < b) ((base # ps) @ [p])" using su unfolding p(1) append_Cons .
    then have ps: "sorted_wrt (\<lambda>a b. a + s_size m a < b) (base # ps)" "\<And>u. u \<in> set (base # ps) \<Longrightarrow> u + s_size m u < p"
      unfolding sorted_wrt_append by (blast, auto)
    have "sorted_wrt (\<lambda>a b. a + ?S a < b) (base # ps)"
      by (rule gap_cong [OF ps(1)]) (use np in auto)
    moreover have "sorted_wrt (\<lambda>a b. a + ?S a < b) vs"
      by (rule gap_cong [of "s_size m"]) (use sv np in auto)
    then have "sorted_wrt (\<lambda>a b. a + ?S a < b) (p # vs)" using sv p(2) by auto
    ultimately have c3: "sorted_wrt (\<lambda>a b. a + ?S a < b) ((base # ps) @ p # vs)"
      by (rule gap_append) (use ps(2) np in auto)
    have c4: "?S base = 0" "\<forall>a \<in> set (ps @ p # vs). 0 < ?S a" using sz p np by auto
    have "ulist base (m\<lparr>s_size := ?S, s_ptr := ?P, freep := Some p\<rparr>) (ps @ p # vs)"
      by (rule ulistI [where S = ?S and P = ?P, OF _ _ _ c3 [unfolded append_Cons] c4])
        (use c1 c2 in \<open>simp_all add: fchain_append\<close>)
    moreover have "join_prev m bp (last (base # us)) = m\<lparr>s_size := ?S, s_ptr := ?P, freep := Some p\<rparr>"
      using p unfolding join_prev_def by simp
    ultimately show ?thesis using p np
      by (intro exI [of _ "ps @ p # vs"]) (auto simp: free_ok_def block_def)
  qed
qed

lemma join_sizes:
  "a \<noteq> bp \<Longrightarrow> a \<noteq> p \<or> p + s_size m p \<noteq> bp \<Longrightarrow> p \<noteq> bp \<Longrightarrow> s_size (join_prev (join_next m bp nx) bp p) a = s_size m a"
  by (auto simp: join_prev_def join_next_def)

lemma free_link_linked:
  assumes ul: "ulist base m (us @ vs)" and us: "\<forall>u \<in> set us. u + s_size m u \<le> bp" and vs: "\<forall>v \<in> set vs. bp + s_size m bp \<le> v"
    and bp: "base < bp" "0 < s_size m bp"
  shows "\<exists>as'. linked base m (us @ vs) bp (free_link m bp (last (base # us))) as'"
proof -
  let ?p = "last (base # us)"
  let ?m = "join_next m bp (s_ptr m ?p)"
  obtain ws where w: "cut base ?m us bp ws" "free_units ?m (bp # ws) = free_units m vs \<union> block m bp" "block m bp \<subseteq> block ?m bp"
    using join_next_cut [OF assms] by blast
  obtain as' where as': "free_ok base (join_prev ?m bp ?p) as'"
    "free_units (join_prev ?m bp ?p) as' = free_units ?m (us @ bp # ws)"
    "\<exists>x \<in> set as'. block ?m bp \<subseteq> block (join_prev ?m bp ?p) x"
    using join_prev_list [OF w(1)] by blast
  have sz: "0 < s_size m u" if "u \<in> set us" for u using ul that by (simp add: ulist_def)
  have nb: "bp \<notin> set us" using us sz by fastforce
  have pm: "?p = base \<and> s_size m ?p = 0 \<or> ?p \<in> set us" using ul by (auto simp: ulist_def)
  have "free_units ?m us = free_units m us" using nb by (simp add: join_next_def)
  then have fu: "free_units (join_prev ?m bp ?p) as' = free_units m (us @ vs) \<union> block m bp" using as'(2) w(2) by auto
  have "s_size (join_prev ?m bp ?p) a = s_size m a" if a: "a \<notin> free_units m (us @ vs) \<union> block m bp" for a
  proof (rule join_sizes)
    show "a \<noteq> bp" using a bp by (auto simp: block_def)
    show "?p \<noteq> bp" using pm nb bp by auto
    have "?p \<in> set us \<longrightarrow> ?p \<in> free_units m us" using sz by (auto simp: free_units_def block_def)
    then show "a \<noteq> ?p \<or> ?p + s_size m ?p \<noteq> bp" using a pm bp by auto
  qed
  then show ?thesis unfolding free_link_join linked_def using as' fu w(3) by blast
qed

text \<open>Freeing a block that is not free: \<open>free\<close> returns, and its units are free.\<close>

lemma intervals_apart:
  "{a ..< a + n} \<inter> {b ..< b + k} = {} \<Longrightarrow> 0 < n \<Longrightarrow> 0 < k \<Longrightarrow> (a :: nat) + n \<le> b \<or> b + k \<le> a"
proof (rule ccontr)
  assume "{a ..< a + n} \<inter> {b ..< b + k} = {}" "0 < n" "0 < k" "\<not> (a + n \<le> b \<or> b + k \<le> a)"
  moreover from this have "max a b \<in> {a ..< a + n} \<inter> {b ..< b + k}" by auto
  ultimately show False by blast
qed

lemma free_linked:
  assumes ok: "free_ok base m as" and bp: "base < bp" "0 < s_size m bp" and dj: "block m bp \<inter> free_units m as = {}"
  shows "\<exists>m' as'. free m bp = Some m' \<and> linked base m as bp m' as'"
proof -
  obtain f where f: "freep m = Some f" "f \<in> set (base # as)" and ul: "ulist base m as" using ok by (auto simp: free_ok_def)
  have sz: "\<forall>a \<in> set as. 0 < s_size m a" and so: "sorted_wrt (<) as" using ul ulist_order [OF ul] by (auto simp: ulist_def)
  define us where "us = takeWhile (\<lambda>a. a < bp) as"
  define vs where "vs = dropWhile (\<lambda>a. a < bp) as"
  have as: "as = us @ vs" by (simp add: us_def vs_def)
  have lt: "u < bp" if "u \<in> set us" for u using that set_takeWhileD unfolding us_def by fast
  have ge: "bp \<le> v" if v: "v \<in> set vs" for v
  proof -
    have ne: "vs \<noteq> []" using v by auto
    then have "bp \<le> hd vs" using hd_dropWhile unfolding vs_def by (metis not_less)
    moreover have "hd vs \<le> v" using so v ne unfolding as by (cases vs) (auto simp: sorted_wrt_append)
    ultimately show ?thesis by simp
  qed
  have apart: "x + s_size m x \<le> bp \<or> bp + s_size m bp \<le> x" if x: "x \<in> set as" for x
  proof (rule intervals_apart)
    show "{x ..< x + s_size m x} \<inter> {bp ..< bp + s_size m bp} = {}" using dj x unfolding free_units_def block_def by blast
  qed (use sz x bp in auto)
  have us: "\<forall>u \<in> set us. u + s_size m u \<le> bp" using apart lt as by fastforce
  have vs: "\<forall>v \<in> set vs. bp + s_size m bp \<le> v"
  proof
    fix v assume v: "v \<in> set vs"
    then have "0 < s_size m v" using sz as by simp
    then show "bp + s_size m bp \<le> v" using apart [of v] ge [OF v] v as by auto
  qed
  have "free_find m bp f = Some (last (base # us))"
    by (rule free_find_place) (use ul f lt vs bp as in \<open>auto intro: less_le_trans\<close>)
  then have "free m bp = Some (free_link m bp (last (base # us)))" using f by (simp add: free_def)
  then show ?thesis using free_link_linked [of base m us vs bp] ul us vs bp as by blast
qed

subsection \<open>Taking a block\<close>

definition taken :: "nat \<Rightarrow> umem \<Rightarrow> nat list \<Rightarrow> nat \<Rightarrow> nat \<Rightarrow> umem \<Rightarrow> nat list \<Rightarrow> bool" where
  "taken base m as n r m' as' \<longleftrightarrow> free_ok base m' as' \<and> base < r \<and> s_size m' r = n \<and> block m' r \<inter> free_units m' as' = {} \<and>
     free_units m as = free_units m' as' \<union> block m' r \<and> (\<forall>a. a \<notin> free_units m as \<longrightarrow> s_size m' a = s_size m a)"

lemma free_units_apart:
  assumes ul: "ulist base m (us @ p # vs)"
  shows "block m p \<inter> free_units m (us @ vs) = {}"
proof -
  have sw: "sorted_wrt (\<lambda>a b. a + s_size m a < b) (us @ p # vs)" using ul by (simp add: ulist_def)
  have "block m p \<inter> block m x = {}" if "x \<in> set (us @ vs)" for x
  proof -
    have "x + s_size m x < p \<or> p + s_size m p < x" using sw that by (auto simp: sorted_wrt_append)
    then show ?thesis by (auto simp: block_def)
  qed
  then show ?thesis unfolding free_units_def by blast
qed

lemma take_block_taken:
  assumes ul: "ulist base m as" and as: "as = us @ p # vs" and n: "0 < n" "n \<le> s_size m p"
  shows "\<exists>r m' as'. take_block m (last (base # us)) p n = (r, m') \<and> taken base m as n r m' as'"
proof -
  let ?q = "last (base # us)"
  have d: "distinct (base # us @ p # vs)" using ulist_distinct [OF ul] as by simp
  have ch: "fchain (s_ptr m) base as base" and sw: "sorted_wrt (\<lambda>a b. a + s_size m a < b) (base # as)"
    and sz: "s_size m base = 0" "\<forall>a \<in> set as. 0 < s_size m a" using ul unfolding ulist_def by blast+
  have bp: "base < p" using ulist_order [OF ul] as by simp
  have qm: "?q \<in> set (base # us)" by (rule last_in_set) simp
  have apart: "block m p \<inter> free_units m (us @ vs) = {}" using ul as by (intro free_units_apart) simp
  show ?thesis
  proof (cases "s_size m p = n")
    case True
    let ?m = "m\<lparr>s_ptr := (s_ptr m)(?q := s_ptr m p), freep := Some ?q\<rparr>"
    have c1: "fchain ((s_ptr m)(?q := s_ptr m p)) base (us @ vs) base" using fchain_unlink [of "s_ptr m" base us p vs base] ch d as by simp
    have "sorted_wrt (\<lambda>a b. a + s_size m a < b) ((base # us) @ p # vs)" using sw as by (simp only: append_Cons)
    then have c2: "sorted_wrt (\<lambda>a b. a + s_size m a < b) (base # us @ vs)"
      unfolding sorted_wrt_append append_Cons [symmetric] sorted_wrt.simps by auto
    have "ulist base ?m (us @ vs)" by (rule ulistI [OF _ _ c1 c2]) (use sz as in auto)
    then have "free_ok base ?m (us @ vs)" using qm by (auto simp: free_ok_def)
    then have "taken base m as n p ?m (us @ vs)" using True bp apart as by (auto simp: taken_def block_def)
    moreover have "take_block m ?q p n = (p, ?m)" using True by (simp add: take_block_def)
    ultimately show ?thesis by blast
  next
    case False
    define k where "k = s_size m p - n"
    have k: "0 < k" "k + n = s_size m p" "k < s_size m p" using False n by (auto simp: k_def)
    let ?S = "(s_size m)(p := k, p + k := n)"
    let ?m = "m\<lparr>s_size := ?S, freep := Some ?q\<rparr>"
    have "p + k \<in> block m p" using k by (simp add: block_def)
    then have "p + k \<notin> free_units m (us @ vs)" using apart by blast
    then have "p + k \<notin> set (us @ vs)" using sz as by (auto simp: free_units_def block_def)
    then have pk: "p + k \<notin> set (base # as)" using bp k as by auto
    have S: "?S a = s_size m a" if "a \<in> set (base # us @ vs)" for a using that pk d as by auto
    have le: "?S a \<le> s_size m a" if "a \<in> set (base # as)" for a using that pk k(3) by auto
    have "ulist base ?m as"
      by (rule ulistI [where S = ?S, OF _ _ ch gap_cong [OF sw le]]) (use sz pk k bp in auto)
    then have ok: "free_ok base ?m as" using qm as by (auto simp: free_ok_def)
    have "free_units ?m (us @ vs) = free_units m (us @ vs)" by (rule free_units_cong) (use S in auto)
    then have fu: "free_units ?m as = free_units m (us @ vs) \<union> {p ..< p + k}" using k as by (auto simp: block_def)
    have bl: "block ?m (p + k) = {p + k ..< p + s_size m p}" using k by (auto simp: block_def)
    have un: "block m p = {p ..< p + k} \<union> {p + k ..< p + s_size m p}" using k by (auto simp: block_def)
    have "free_units m as = free_units m (us @ vs) \<union> block m p" using as by auto
    moreover have "?S a = s_size m a" if "a \<notin> free_units m as" for a
      using that as k by (auto simp: block_def)
    moreover have "{p + k ..< p + s_size m p} \<inter> free_units m (us @ vs) = {}" using apart un by blast
    ultimately have "taken base m as n (p + k) ?m as"
      using ok bp fu bl un unfolding taken_def by auto
    moreover have "take_block m ?q p n = (p + k, ?m)" using False by (simp add: take_block_def Let_def k_def)
    ultimately show ?thesis by blast
  qed
qed

subsection \<open>The search of \<open>malloc\<close>\<close>

lemma fchain_map: "fchain f a ys z \<Longrightarrow> map f (a # ys) = ys @ [z]"
  by (induction ys arbitrary: a) auto

lemma fchain_last: "fchain f a ys z \<Longrightarrow> f (last (a # ys)) = z"
  by (induction ys arbitrary: a) auto

lemma ulist_inj:
  assumes "ulist base m as" "x \<in> set (base # as)" "y \<in> set (base # as)" "s_ptr m x = s_ptr m y"
  shows "x = y"
proof -
  have "map (s_ptr m) (base # as) = as @ [base]" using assms(1) by (intro fchain_map) (simp add: ulist_def)
  moreover have "distinct (as @ [base])" using ulist_distinct [OF assms(1)] by auto
  ultimately have "inj_on (s_ptr m) (set (base # as))" by (metis distinct_map)
  then show ?thesis by (rule inj_onD) (rule assms(4,2,3))+
qed

lemma malloc_walk:
  "fchain (s_ptr m) q ys z \<Longrightarrow> (\<And>x. x \<in> set ys \<Longrightarrow> s_size m x < n \<and> freep m \<noteq> Some x) \<Longrightarrow>
   malloc_loop sbrk n m s q (s_ptr m q) = malloc_loop sbrk n m s (last (q # ys)) z"
proof (induction ys arbitrary: q)
  case (Cons y ys)
  then have y: "s_ptr m q = y" "\<not> n \<le> s_size m y" "freep m \<noteq> Some y" by (auto simp: not_le)
  have "malloc_loop sbrk n m s q y = malloc_loop sbrk n m s y (s_ptr m y)"
    by (subst malloc_loop.simps) (simp only: y if_False if_not_P)
  also have "\<dots> = malloc_loop sbrk n m s (last (y # ys)) z" using Cons by (intro Cons.IH) auto
  finally show ?case using y by simp
qed simp

lemma malloc_found:
  assumes ok: "free_ok base m as" and f: "freep m = Some f" and n: "0 < n" and x: "x \<in> set as" "n \<le> s_size m x"
  shows "\<exists>r m' as'. malloc_loop sbrk n m s f (s_ptr m f) = Some (Some r, m', s) \<and> taken base m as n r m' as'"
proof -
  have ul: "ulist base m as" and fm: "f \<in> set (base # as)" using ok f by (auto simp: free_ok_def)
  obtain xs ys where xy: "base # as = xs @ f # ys" using split_list [OF fm] by blast
  have circ: "fchain (s_ptr m) f (ys @ xs) f" using ul xy unfolding ulist_def by (intro fchain_circle) auto
  have st: "set ((ys @ xs) @ [f]) = set (base # as)" unfolding xy by auto
  have d: "f \<notin> set (ys @ xs)" using ulist_distinct [OF ul] unfolding xy by auto
  have "x \<in> set ((ys @ xs) @ [f])" unfolding st using x by simp
  then have "\<exists>x \<in> set ((ys @ xs) @ [f]). n \<le> s_size m x" using x by blast
  then obtain ws p zs where w: "(ys @ xs) @ [f] = ws @ p # zs" "n \<le> s_size m p" "\<forall>y \<in> set ws. \<not> n \<le> s_size m y"
    by (rule split_list_first_propE) (rule that)
  have ch: "fchain (s_ptr m) f ws p \<and> set ws \<subseteq> set (ys @ xs)"
  proof (cases zs rule: rev_cases)
    case Nil
    then show ?thesis using w(1) circ by auto
  next
    case (snoc zs' z)
    then have "ys @ xs = ws @ p # zs'" using w(1) by simp
    then show ?thesis using circ by (metis fchain_append set_append Un_upper1)
  qed
  have "p \<in> set ((ys @ xs) @ [f])" unfolding w(1) by simp
  then have "p \<in> set (base # as)" unfolding st .
  then have "p \<in> set as" using w(2) n ul by (auto simp: ulist_def)
  then obtain us vs where as: "as = us @ p # vs" using split_list by fast
  have "last (f # ws) \<in> set (f # ws)" by (rule last_in_set) simp
  moreover have "set (f # ws) \<subseteq> set (base # as)" using ch st fm by auto
  ultimately have lw: "last (f # ws) \<in> set (base # as)" by blast
  have "last (base # us) \<in> set (base # us)" by (rule last_in_set) simp
  then have lu: "last (base # us) \<in> set (base # as)" using as by auto
  have "s_ptr m (last (base # us)) = p" using ul as fchain_at [of "s_ptr m" base us p vs base] by (simp add: ulist_def)
  then have "last (f # ws) = last (base # us)" using fchain_last ch by (intro ulist_inj [OF ul lw lu]) metis
  moreover have "malloc_loop sbrk n m s (last (base # us)) p = (let (r, m) = take_block m (last (base # us)) p n in Some (Some r, m, s))"
    by (rule trans [OF malloc_loop.simps if_P [OF w(2)]])
  moreover have "malloc_loop sbrk n m s f (s_ptr m f) = malloc_loop sbrk n m s (last (f # ws)) p"
    by (rule malloc_walk) (use ch w d f in \<open>auto simp: not_le\<close>)
  ultimately have "malloc_loop sbrk n m s f (s_ptr m f) = (let (r, m) = take_block m (last (base # us)) p n in Some (Some r, m, s))"
    by (simp only:)
  moreover obtain r m' as' where "take_block m (last (base # us)) p n = (r, m')" "taken base m as n r m' as'"
    using take_block_taken [OF ul as n w(2)] by blast
  ultimately show ?thesis by (simp only: Let_def split) blast
qed

lemma malloc_more:
  assumes ok: "free_ok base m as" and f: "freep m = Some f" and n: "0 < n" and small: "\<forall>x \<in> set as. s_size m x < n"
  shows "malloc_loop sbrk n m s f (s_ptr m f) =
    Option.bind (morecore sbrk m s n) (\<lambda>(r, m, s). case r of None \<Rightarrow> Some (None, m, s) | Some q \<Rightarrow> malloc_loop sbrk n m s q (s_ptr m q))"
proof -
  have ul: "ulist base m as" and fm: "f \<in> set (base # as)" using ok f by (auto simp: free_ok_def)
  obtain xs ys where xy: "base # as = xs @ f # ys" using split_list [OF fm] by blast
  have circ: "fchain (s_ptr m) f (ys @ xs) f" using ul xy unfolding ulist_def by (intro fchain_circle) auto
  have st: "set (ys @ xs) \<subseteq> set (base # as)" unfolding xy by auto
  have d: "f \<notin> set (ys @ xs)" using ulist_distinct [OF ul] unfolding xy by auto
  have sm: "s_size m x < n" if "x \<in> set (base # as)" for x using that small ul n by (auto simp: ulist_def)
  have "malloc_loop sbrk n m s f (s_ptr m f) = malloc_loop sbrk n m s (last (f # ys @ xs)) f"
    by (rule malloc_walk [OF circ]) (use st d sm f in auto)
  also have "\<dots> = Option.bind (morecore sbrk m s n) (\<lambda>(r, m, s). case r of None \<Rightarrow> Some (None, m, s) | Some q \<Rightarrow> malloc_loop sbrk n m s q (s_ptr m q))"
    using sm [OF fm] f by (subst malloc_loop.simps) (simp add: not_le)
  finally show ?thesis .
qed

subsection \<open>The heap\<close>

text \<open>
  The blocks \<open>used\<close> that the program holds and the free blocks share the memory \<open>arena\<close> obtained from \<open>sbrk\<close> between them.
\<close>

definition heap_inv :: "nat \<Rightarrow> umem \<Rightarrow> nat list \<Rightarrow> nat set \<Rightarrow> nat set \<Rightarrow> bool" where
  "heap_inv base m as used arena \<longleftrightarrow> free_ok base m as \<and> (\<forall>a \<in> used. base < a \<and> 0 < s_size m a) \<and>
     (\<forall>a \<in> used. \<forall>b \<in> used. a \<noteq> b \<longrightarrow> block m a \<inter> block m b = {}) \<and> (\<forall>a \<in> used. block m a \<inter> free_units m as = {}) \<and>
     arena = free_units m as \<union> (\<Union>a \<in> used. block m a)"

definition heap_ok :: "nat \<Rightarrow> umem \<Rightarrow> nat set \<Rightarrow> nat set \<Rightarrow> bool" where
  "heap_ok base m used arena \<longleftrightarrow> freep m = None \<and> used = {} \<and> arena = {} \<or> (\<exists>as. heap_inv base m as used arena)"

lemma block_cong: "s_size m' a = s_size m a \<Longrightarrow> block m' a = block m a"
  by (simp add: block_def)

lemma head_in_block: "0 < s_size m a \<Longrightarrow> a \<in> block m a"
  by (simp add: block_def)

lemma heap_linked:
  assumes h: "heap_inv base m as used arena" and l: "linked base m as bp m' as'" and d: "block m bp \<inter> (\<Union>a \<in> used. block m a) = {}"
  shows "heap_inv base m' as' used (arena \<union> block m bp) \<and> (\<forall>a \<in> used. s_size m' a = s_size m a)"
proof -
  have s: "s_size m' a = s_size m a" if a: "a \<in> used" for a
  proof -
    have "a \<in> block m a" using h a by (intro head_in_block) (auto simp: heap_inv_def)
    then have "a \<notin> free_units m as" "a \<notin> block m bp" using h d a by (auto simp: heap_inv_def)
    then show ?thesis using l by (simp add: linked_def)
  qed
  then have b: "block m' a = block m a" if "a \<in> used" for a using that by (intro block_cong)
  have "(\<Union>a \<in> used. block m' a) = (\<Union>a \<in> used. block m a)" using b by simp
  moreover have "block m' a \<inter> free_units m' as' = {}" if "a \<in> used" for a
    using h l d that by (auto simp: b heap_inv_def linked_def)
  ultimately have "heap_inv base m' as' used (arena \<union> block m bp)"
    using h l s b unfolding heap_inv_def linked_def by auto
  then show ?thesis using s by blast
qed

lemma heap_taken:
  assumes h: "heap_inv base m as used arena" and t: "taken base m as n r m' as'" and n: "0 < n"
  shows "heap_inv base m' as' (insert r used) arena \<and> r \<notin> used \<and> (\<forall>a \<in> used. s_size m' a = s_size m a)"
proof -
  have r: "r \<in> block m' r" using t n by (intro head_in_block) (simp add: taken_def)
  have s: "s_size m' a = s_size m a" if a: "a \<in> used" for a
  proof -
    have "a \<in> block m a" using h a by (intro head_in_block) (auto simp: heap_inv_def)
    then have "a \<notin> free_units m as" using h a by (auto simp: heap_inv_def)
    then show ?thesis using t by (simp add: taken_def)
  qed
  then have b: "block m' a = block m a" if "a \<in> used" for a using that by (intro block_cong)
  have d: "block m' a \<inter> free_units m' as' = {}" "block m' a \<inter> block m' r = {}" if "a \<in> used" for a
    using h t that by (auto simp: b heap_inv_def taken_def)
  have nr: "r \<notin> used" using d(2) r by auto
  have u: "(\<Union>a \<in> used. block m' a) = (\<Union>a \<in> used. block m a)" using b by simp
  have "arena = free_units m' as' \<union> (\<Union>a \<in> insert r used. block m' a)" using h t u by (auto simp: heap_inv_def taken_def)
  then have "heap_inv base m' as' (insert r used) arena"
    using h t d n s b unfolding heap_inv_def taken_def by (auto simp: Int_commute)
  then show ?thesis using s nr by blast
qed

lemma heap_free:
  assumes h: "heap_inv base m as used arena" and u: "bp \<in> used"
  shows "\<exists>m' as'. free m bp = Some m' \<and> heap_inv base m' as' (used - {bp}) arena \<and> (\<forall>a \<in> used - {bp}. s_size m' a = s_size m a)"
proof -
  have "\<exists>m' as'. free m bp = Some m' \<and> linked base m as bp m' as'"
    by (rule free_linked) (use h u in \<open>auto simp: heap_inv_def\<close>)
  then obtain m' as' where m': "free m bp = Some m'" "linked base m as bp m' as'" by blast
  let ?rest = "free_units m as \<union> (\<Union>a \<in> used - {bp}. block m a)"
  have r: "heap_inv base m as (used - {bp}) ?rest" using h unfolding heap_inv_def by blast
  have "block m bp \<inter> (\<Union>a \<in> used - {bp}. block m a) = {}" using h u unfolding heap_inv_def by blast
  from heap_linked [OF r m'(2) this]
  have "heap_inv base m' as' (used - {bp}) (?rest \<union> block m bp)" "\<forall>a \<in> used - {bp}. s_size m' a = s_size m a"
    by blast+
  moreover have "?rest \<union> block m bp = arena" using h u unfolding heap_inv_def by blast
  ultimately show ?thesis using m'(1) by auto
qed

text \<open>What the allocator relies on: \<open>sbrk\<close> answers with memory above \<open>base\<close> that is not in the heap.\<close>

definition sbrk_fresh :: "nat \<Rightarrow> ('s \<Rightarrow> int \<Rightarrow> nat option \<times> 's) \<Rightarrow> 's \<Rightarrow> nat set \<Rightarrow> bool" where
  "sbrk_fresh base sbrk s arena \<longleftrightarrow>
     (\<forall>n hp s'. 0 < n \<longrightarrow> sbrk s n = (Some hp, s') \<longrightarrow> base < hp \<and> {hp ..< hp + nat n div 8} \<inter> arena = {})"

lemma core_units_bounds: "nu \<le> core_units nu" "0 < core_units nu"
  by (auto simp: core_units_def)

lemma sint_units: "n < 2 ^ 31 \<Longrightarrow> sint (of_nat n :: u32) = int n"
  by (simp add: signed_of_nat signed_take_bit_int_eq_self)

lemma heap_grow:
  assumes h: "heap_inv base m as used arena" and hp: "base < hp" "{hp ..< hp + nu} \<inter> arena = {}" and nu: "0 < nu"
  shows "\<exists>m' as'. free (m\<lparr>s_size := (s_size m)(hp := nu)\<rparr>) hp = Some m' \<and> heap_inv base m' as' used (arena \<union> {hp ..< hp + nu}) \<and>
    (\<forall>a \<in> used. s_size m' a = s_size m a) \<and> (\<exists>x \<in> set as'. nu \<le> s_size m' x)"
proof -
  let ?m = "m\<lparr>s_size := (s_size m)(hp := nu)\<rparr>"
  have ul: "ulist base m as" using h by (simp add: heap_inv_def free_ok_def)
  have "hp \<in> {hp ..< hp + nu}" using nu by simp
  then have na: "hp \<notin> arena" using hp by blast
  have "a \<in> arena" if "a \<in> set as" for a
    using h ul that head_in_block [of m a] by (auto simp: heap_inv_def ulist_def free_units_def)
  then have sub: "set as \<subseteq> arena" by blast
  have "a \<in> arena" if "a \<in> used" for a using h that head_in_block [of m a] by (auto simp: heap_inv_def)
  then have "used \<subseteq> arena" by blast
  then have nh: "hp \<notin> set as" "hp \<notin> used" "hp \<noteq> base" using na sub hp by auto
  have u1: "ulist base ?m as"
    by (rule ulistI [where S = "(s_size m)(hp := nu)", OF _ _ _ gap_cong [of "s_size m"]]) (use ul nh in \<open>auto simp: ulist_def\<close>)
  have f1: "free_units ?m as = free_units m as" using nh by simp
  have b1: "block ?m a = block m a" if "a \<in> used" for a using that nh by (auto simp: block_def)
  have bh: "block ?m hp = {hp ..< hp + nu}" by (simp add: block_def)
  have h1: "heap_inv base ?m as used arena" using h u1 f1 b1 nh unfolding heap_inv_def free_ok_def by auto
  have dj: "block ?m hp \<inter> (\<Union>a \<in> used. block ?m a) = {}" "block ?m hp \<inter> free_units ?m as = {}"
    using h1 hp unfolding bh heap_inv_def by blast+
  obtain m' as' where m': "free ?m hp = Some m'" "linked base ?m as hp m' as'"
    using free_linked [of base ?m as hp] h1 hp nu dj(2) unfolding heap_inv_def by auto
  obtain x where x: "x \<in> set as'" "block ?m hp \<subseteq> block m' x" using m'(2) by (auto simp: linked_def)
  then have "nu \<le> s_size m' x" using nu unfolding bh by (auto simp: block_def)
  moreover have "\<forall>a \<in> used. s_size ?m a = s_size m a" using nh by auto
  ultimately show ?thesis using heap_linked [OF h1 m'(2) dj(1)] m'(1) x(1) unfolding bh by auto
qed

text \<open>
  The result of asking for \<open>n\<close> headers: a block from a free one, without a call of \<open>sbrk\<close>; or a block after \<open>sbrk\<close> has added
  \<open>core_units n\<close> headers; or nothing, when no free block is large enough and \<open>sbrk\<close> refuses.
\<close>

definition malloc_result ::
  "nat \<Rightarrow> ('s \<Rightarrow> int \<Rightarrow> nat option \<times> 's) \<Rightarrow> umem \<Rightarrow> 's \<Rightarrow> nat set \<Rightarrow> nat set \<Rightarrow> nat \<Rightarrow> nat option \<times> umem \<times> 's \<Rightarrow> bool" where
  "malloc_result base sbrk m s used arena n = (\<lambda>(r, m', s').
     (\<forall>a \<in> used. s_size m' a = s_size m a) \<and>
     (case r of
        None \<Rightarrow> heap_ok base m' used arena \<and> sbrk s (8 * int (core_units n)) = (None, s') \<and>
          (\<forall>as. heap_inv base m as used arena \<longrightarrow> (\<forall>x \<in> set as. s_size m x < n))
      | Some p \<Rightarrow> p \<notin> used \<and> s_size m' p = n \<and>
          (s' = s \<and> heap_ok base m' (insert p used) arena \<or>
           (\<exists>hp. sbrk s (8 * int (core_units n)) = (Some hp, s') \<and>
              heap_ok base m' (insert p used) (arena \<union> {hp ..< hp + core_units n})))))"

lemma malloc_result_None:
  assumes "heap_ok base m used arena" and "sbrk s (8 * int (core_units n)) = (None, s')"
    and "\<And>as. heap_inv base m as used arena \<Longrightarrow> \<forall>x \<in> set as. s_size m x < n"
  shows "malloc_result base sbrk m s used arena n (None, m, s')"
  using assms by (simp add: malloc_result_def)

lemma malloc_enough:
  assumes h: "heap_inv base m as used arena" and f: "freep m = Some f" and n: "0 < n" and x: "x \<in> set as" "n \<le> s_size m x"
  shows "\<exists>r m'. malloc_loop sbrk n m s f (s_ptr m f) = Some (Some r, m', s) \<and>
    heap_ok base m' (insert r used) arena \<and> r \<notin> used \<and> s_size m' r = n \<and> (\<forall>a \<in> used. s_size m' a = s_size m a)"
proof -
  have ok: "free_ok base m as" using h by (simp add: heap_inv_def)
  obtain r m' as' where r: "malloc_loop sbrk n m s f (s_ptr m f) = Some (Some r, m', s)" "taken base m as n r m' as'"
    using malloc_found [OF ok f n x, of sbrk s] by blast
  then show ?thesis using heap_taken [OF h r(2) n] by (auto simp: heap_ok_def taken_def)
qed

lemma malloc_loop_heap:
  assumes h: "heap_inv base m as used arena" and f: "freep m = Some f" and n: "0 < n" "n < 2 ^ 28" and sb: "sbrk_fresh base sbrk s arena"
  shows "\<exists>y. malloc_loop sbrk n m s f (s_ptr m f) = Some y \<and> malloc_result base sbrk m s used arena n y"
proof (cases "\<exists>x \<in> set as. n \<le> s_size m x")
  case True
  then obtain x where x: "x \<in> set as" "n \<le> s_size m x" by blast
  show ?thesis using malloc_enough [OF h f n(1) x, of sbrk s] by (auto simp: malloc_result_def)
next
  case False
  have ok: "free_ok base m as" using h by (simp add: heap_inv_def)
  define nu where "nu = core_units n"
  have "nu * 8 < 2 ^ 31" using n unfolding nu_def core_units_def by simp
  then have "sint (of_nat (nu * 8) :: u32) = int (nu * 8)" by (rule sint_units)
  then have nu: "n \<le> nu" "0 < nu" "sint (of_nat (nu * 8) :: u32) = 8 * int nu"
    unfolding nu_def using core_units_bounds [of n] by simp_all
  have more: "malloc_loop sbrk n m s f (s_ptr m f) =
    Option.bind (morecore sbrk m s n) (\<lambda>(r, m, s). case r of None \<Rightarrow> Some (None, m, s) | Some q \<Rightarrow> malloc_loop sbrk n m s q (s_ptr m q))"
    by (rule malloc_more [OF ok f n(1)]) (use False in \<open>auto simp: not_le\<close>)
  obtain q s' where q: "sbrk s (8 * int nu) = (q, s')" by fastforce
  show ?thesis
  proof (cases q)
    case None
    then have "morecore sbrk m s n = Some (None, m, s')" using q nu(3) by (simp add: morecore_def Let_def flip: nu_def)
    then have run: "malloc_loop sbrk n m s f (s_ptr m f) = Some (None, m, s')" using more by simp
    have "\<forall>x \<in> set bs. s_size m x < n" if "heap_inv base m bs used arena" for bs
      using malloc_enough [OF that f n(1), of _ sbrk s] run by (fastforce simp: not_less)
    then have "malloc_result base sbrk m s used arena n (None, m, s')"
      by (intro malloc_result_None) (use h q None in \<open>auto simp: heap_ok_def nu_def\<close>)
    then show ?thesis using run by blast
  next
    case (Some hp)
    have "base < hp \<and> {hp ..< hp + nat (8 * int nu) div 8} \<inter> arena = {}"
      using sb q nu(2) unfolding sbrk_fresh_def Some by (metis mult_pos_pos of_nat_0_less_iff zero_less_numeral)
    then have hp: "base < hp" "{hp ..< hp + nu} \<inter> arena = {}" by (simp_all add: nat_mult_distrib)
    obtain m1 as1 x where m1: "free (m\<lparr>s_size := (s_size m)(hp := nu)\<rparr>) hp = Some m1" "heap_inv base m1 as1 used (arena \<union> {hp ..< hp + nu})"
      "\<forall>a \<in> used. s_size m1 a = s_size m a" "x \<in> set as1" "nu \<le> s_size m1 x" using heap_grow [OF h hp nu(2)] by blast
    obtain f1 where f1: "freep m1 = Some f1" using m1(2) by (auto simp: heap_inv_def free_ok_def)
    have mc: "morecore sbrk m s n = Some (Some f1, m1, s')"
      using q nu(3) m1(1) f1 Some by (simp add: morecore_def Let_def flip: nu_def)
    obtain r m' where r: "malloc_loop sbrk n m1 s' f1 (s_ptr m1 f1) = Some (Some r, m', s')"
      "heap_ok base m' (insert r used) (arena \<union> {hp ..< hp + nu})" "r \<notin> used" "s_size m' r = n" "\<forall>a \<in> used. s_size m' a = s_size m1 a"
      using malloc_enough [OF m1(2) f1 n(1) m1(4) le_trans [OF nu(1) m1(5)], of sbrk s'] by blast
    have "malloc_loop sbrk n m s f (s_ptr m f) = Some (Some r, m', s')" using more mc r(1) by simp
    moreover have "malloc_result base sbrk m s used arena n (Some r, m', s')"
      using r m1(3) q Some unfolding malloc_result_def nu_def by auto
    ultimately show ?thesis by blast
  qed
qed

lemma units_of_small:
  assumes "unat nbytes < 2 ^ 31 - 16"
  shows "units_of nbytes = (unat nbytes + 7) div 8 + 1"
proof -
  have "unat (nbytes + 7) = unat nbytes + 7" using assms by (subst unat_word_ariths) simp
  then have "unat ((nbytes + 7) div 8) = (unat nbytes + 7) div 8" by (simp add: unat_div)
  moreover have "nbytes + 8 - 1 = nbytes + 7" by simp
  ultimately show ?thesis using assms unfolding units_of_def by (simp only:) (subst unat_word_ariths, simp)
qed

text \<open>A size close to the largest one wraps around: the block has room for its header only.\<close>

lemma malloc_size_wraps: "units_of 0xFFFFFFFC = 1"
  by (simp add: units_of_def)

lemma fresh_heap:
  "heap_inv base (m\<lparr>s_ptr := (s_ptr m)(base := base), s_size := (s_size m)(base := 0), freep := Some base\<rparr>) [] {} {}"
  by (simp add: heap_inv_def free_ok_def ulist_def)

text \<open>
  C22. \<open>malloc\<close> returns. It fails only when no free block is large enough and \<open>sbrk\<close> refuses memory, and the heap is then as before.
  Otherwise the block returned is not one the program holds, has room for the header and the bytes asked for, and together
  with the blocks held and the free blocks makes up the whole heap, no two of them overlapping; the heap is the old
  one, or the old one with the memory that \<open>sbrk\<close> gave. The sizes of the blocks held do not change.
\<close>

theorem malloc_block:
  assumes "heap_ok base m used arena" and "unat nbytes < 2 ^ 31 - 16" and "sbrk_fresh base sbrk s arena"
  shows "\<exists>y. malloc base sbrk m s nbytes = Some y \<and> malloc_result base sbrk m s used arena (units_of nbytes) y \<and>
    unat nbytes + 8 \<le> 8 * units_of nbytes"
proof -
  have n: "0 < units_of nbytes" "units_of nbytes < 2 ^ 28" "unat nbytes + 8 \<le> 8 * units_of nbytes"
    using assms(2) unfolding units_of_small [OF assms(2)] by auto
  have "\<exists>y. malloc base sbrk m s nbytes = Some y \<and> malloc_result base sbrk m s used arena (units_of nbytes) y"
  proof (cases "freep m")
    case None
    let ?m = "m\<lparr>s_ptr := (s_ptr m)(base := base), s_size := (s_size m)(base := 0), freep := Some base\<rparr>"
    have e: "used = {}" "arena = {}" using assms(1) None by (auto simp: heap_ok_def heap_inv_def free_ok_def)
    have "malloc base sbrk m s nbytes = malloc_loop sbrk (units_of nbytes) ?m s base (s_ptr ?m base)"
      using None by (simp add: malloc_def Let_def)
    moreover obtain y where y: "malloc_loop sbrk (units_of nbytes) ?m s base (s_ptr ?m base) = Some y"
      "malloc_result base sbrk ?m s {} {} (units_of nbytes) y"
      using malloc_loop_heap [OF fresh_heap [of base m] _ n(1,2), of base sbrk s] assms(3) unfolding e by auto
    moreover have "\<not> heap_inv base m as {} {}" for as using None by (simp add: heap_inv_def free_ok_def)
    then have "malloc_result base sbrk m s {} {} (units_of nbytes) y"
      using y(2) unfolding malloc_result_def by (auto split: option.splits)
    ultimately show ?thesis unfolding e by simp
  next
    case (Some f)
    then obtain as where "heap_inv base m as used arena" using assms(1) by (auto simp: heap_ok_def)
    from malloc_loop_heap [OF this Some n(1,2) assms(3)] show ?thesis using Some by (simp add: malloc_def)
  qed
  then show ?thesis using n(3) by blast
qed

definition demo_sbrk :: "nat \<Rightarrow> int \<Rightarrow> nat option \<times> nat" where
  "demo_sbrk s n = (Some s, s + nat n div 8)"

definition demo_umem :: umem where
  "demo_umem = \<lparr>s_ptr = (\<lambda>_. 0), s_size = (\<lambda>_. 0), freep = None\<rparr>"

lemma malloc_block_witness:
  "heap_ok 10 demo_umem {} {} \<and> sbrk_fresh 10 demo_sbrk 100 {} \<and>
   (\<exists>p m' s'. malloc 10 demo_sbrk demo_umem 100 20 = Some (Some p, m', s') \<and> s_size m' p = 4 \<and>
      (heap_ok 10 m' {p} {} \<or> heap_ok 10 m' {p} {100 ..< 4196}))"
proof -
  have h: "heap_ok 10 demo_umem {} {}" by (simp add: heap_ok_def demo_umem_def)
  have s: "sbrk_fresh 10 demo_sbrk 100 {}" by (simp add: sbrk_fresh_def demo_sbrk_def)
  have u: "units_of 20 = 4" "core_units 4 = 4096" by (simp_all add: units_of_def core_units_def)
  obtain r m' s' where y: "malloc 10 demo_sbrk demo_umem 100 20 = Some (r, m', s')"
    "malloc_result 10 demo_sbrk demo_umem 100 {} {} 4 (r, m', s')"
    using malloc_block [OF h _ s, of 20] unfolding u(1) by auto
  then obtain p where "r = Some p" "s_size m' p = 4" "heap_ok 10 m' {p} {} \<or> heap_ok 10 m' {p} {100 ..< 4196}"
    by (cases r) (auto simp: malloc_result_def demo_sbrk_def u(2))
  then show ?thesis using h s y(1) by blast
qed

text \<open>
  C23. \<open>free\<close> of a block the program holds returns, and the block belongs to the free blocks afterwards: the heap is the same memory, divided
  between the free blocks, in order and joined where they touch, and the blocks still held, whose sizes do not change.
\<close>

theorem free_block:
  assumes "heap_ok base m used arena" and "bp \<in> used"
  shows "\<exists>m'. free m bp = Some m' \<and> heap_ok base m' (used - {bp}) arena \<and> (\<forall>a \<in> used - {bp}. s_size m' a = s_size m a)"
proof -
  obtain as where "heap_inv base m as used arena" using assms by (auto simp: heap_ok_def)
  from heap_free [OF this assms(2)] show ?thesis by (auto simp: heap_ok_def)
qed

text \<open>One block of four headers held, and one of two headers free behind it.\<close>

definition demo_heap :: umem where
  "demo_heap = \<lparr>s_ptr = (\<lambda>a. if a = 10 then 24 else 10), s_size = (\<lambda>a. if a = 20 then 4 else if a = 24 then 2 else 0), freep = Some 10\<rparr>"

lemma demo_heap_ok: "heap_inv 10 demo_heap [24] {20} {20 ..< 26}"
  by (auto simp: heap_inv_def free_ok_def ulist_def block_def demo_heap_def)

lemma free_block_witness:
  "heap_ok 10 demo_heap {20} {20 ..< 26} \<and> (\<exists>m'. free demo_heap 20 = Some m' \<and> heap_ok 10 m' {} {20 ..< 26})"
proof -
  have h: "heap_ok 10 demo_heap {20} {20 ..< 26}" using demo_heap_ok by (auto simp: heap_ok_def)
  show ?thesis using free_block [OF h, of 20] h by auto
qed

end
