(* ===== verification/User.thy ===== *)
theory User
  imports Console
begin

text \<open>
  User programs: the system calls they make, \<open>printf.c\<close>, and \<open>cat.c\<close>, \<open>echo.c\<close>, \<open>kill.c\<close>, \<open>ln.c\<close>, \<open>mkdir.c\<close>, \<open>rm.c\<close>,
  \<open>wc.c\<close> and \<open>init.c\<close>.

  A program runs against the answers of the kernel: its state has the answers still to come and the calls made so far,
  each with its answer. A call that has no answer yet leaves the program blocked in it, so a program is a total function
  of the finite list of answers, and what is proved for every list holds for every kernel. The answer to \<open>fork\<close> decides
  whether the run is the parent's or the child's. A loop makes at least one call per turn, so the number of answers bounds
  its turns.
\<close>

datatype ucall = URead int nat | UWrite int "u8 list" | UOpen "u8 list" int | UClose int | UFork | UWait
  | UExec "u8 list" "u8 list list" | UPipe | UDup int | UChdir "u8 list" | UMknod "u8 list" int int | UUnlink "u8 list"
  | ULink "u8 list" "u8 list" | UMkdir "u8 list" | UKill int | UFstat int | USbrk int

text \<open>Answers: an integer, bytes read, or two descriptors; \<open>RStat\<close> is the type, inode number and size of a file.\<close>

datatype uresp = RInt int | RBytes "u8 list" | RPipe int int | RStat u16 u32 u32

record ust =
  answers :: "uresp list"
  calls :: "(ucall \<times> uresp) list"

datatype 'a uout = Done 'a ust | Blocked "(ucall \<times> uresp) list" | Exited "(ucall \<times> uresp) list" | Crash string

type_synonym 'a uprog = "ust \<Rightarrow> 'a uout"

definition ret :: "'a \<Rightarrow> 'a uprog" where "ret x st = Done x st"
definition crash :: "string \<Rightarrow> 'a uprog" where "crash msg st = Crash msg"
definition uexit :: "'a uprog" where "uexit st = Exited (calls st)"

definition bindU :: "'a uprog \<Rightarrow> ('a \<Rightarrow> 'b uprog) \<Rightarrow> 'b uprog" where
  "bindU m f st =
     (case m st of Done x st \<Rightarrow> f x st | Blocked tr \<Rightarrow> Blocked tr | Exited tr \<Rightarrow> Exited tr | Crash msg \<Rightarrow> Crash msg)"

abbreviation thenU :: "'a uprog \<Rightarrow> 'b uprog \<Rightarrow> 'b uprog" where
  "thenU m n \<equiv> bindU m (\<lambda>_. n)"

definition syscall_u :: "ucall \<Rightarrow> uresp uprog" where
  "syscall_u c st =
     (case answers st of [] \<Rightarrow> Blocked (calls st)
      | r # rs \<Rightarrow> Done r (st\<lparr>answers := rs, calls := calls st @ [(c, r)]\<rparr>))"

primrec resp_int :: "uresp \<Rightarrow> int" where
  "resp_int (RInt n) = n"
| "resp_int (RBytes bs) = int (length bs)"
| "resp_int (RPipe a b) = 0"
| "resp_int (RStat t i s) = 0"

definition icall :: "ucall \<Rightarrow> int uprog" where
  "icall c = bindU (syscall_u c) (\<lambda>r. ret (resp_int r))"

text \<open>\<open>read\<close> of at most \<open>n\<close> bytes: the result and what was stored in the buffer.\<close>

definition do_read :: "int \<Rightarrow> nat \<Rightarrow> (int \<times> u8 list) uprog" where
  "do_read fd n =
     bindU (syscall_u (URead fd n)) (\<lambda>r.
       case r of
         RBytes bs \<Rightarrow> if length bs \<le> n then ret (int (length bs), bs) else crash ''read''
       | _ \<Rightarrow> if resp_int r \<le> 0 then ret (resp_int r, []) else crash ''read'')"

text \<open>A loop: the body says whether to go on with a new state or to stop with a result.\<close>

primrec uloop :: "nat \<Rightarrow> ('x \<Rightarrow> ('x + 'a) uprog) \<Rightarrow> 'x \<Rightarrow> 'a uprog" where
  "uloop 0 body x = crash ''loop''"
| "uloop (Suc n) body x = bindU (body x) (\<lambda>r. case r of Inl x \<Rightarrow> uloop n body x | Inr a \<Rightarrow> ret a)"

definition uwhile :: "('x \<Rightarrow> ('x + 'a) uprog) \<Rightarrow> 'x \<Rightarrow> 'a uprog" where
  "uwhile body x st = uloop (Suc (length (answers st))) body x st"

subsection \<open>printf\<close>

definition putc :: "int \<Rightarrow> u8 \<Rightarrow> unit uprog" where
  "putc fd c = thenU (icall (UWrite fd [c])) (ret ())"

primrec puts_u :: "int \<Rightarrow> u8 list \<Rightarrow> unit uprog" where
  "puts_u fd [] = ret ()"
| "puts_u fd (c # cs) = thenU (putc fd c) (puts_u fd cs)"

definition udigits :: "u8 list" where "udigits = bytes ''0123456789ABCDEF''"

function uprint_digits :: "u32 \<Rightarrow> u32 \<Rightarrow> u8 list \<Rightarrow> u8 list option" where
  "uprint_digits x base buf =
     (if length buf \<ge> 16 \<or> base < 2 \<or> 16 < base then None
      else
        (let buf = buf @ [udigits ! unat (x mod base)]
         in if x div base \<noteq> 0 then uprint_digits (x div base) base buf else Some buf))"
  by pat_completeness auto
termination
proof (relation "measure (\<lambda>(x, base, buf). unat x)", goal_cases)
  case (2 x base buf)
  then have b: "2 \<le> unat base" by (simp add: not_less word_le_nat_alt)
  have "x \<noteq> 0" using 2 by auto
  then have "0 < unat x" by (simp add: unat_gt_0)
  then show ?case using b by (simp add: unat_div)
qed simp

declare uprint_digits.simps [simp del]

text \<open>The characters that \<open>printint\<close> prints.\<close>

definition uprintint :: "u32 \<Rightarrow> u32 \<Rightarrow> bool \<Rightarrow> u8 list option" where
  "uprintint xx base sign =
     (let neg = sign \<and> xx <s 0;
          x = (if neg then - xx else xx)
      in case uprint_digits x base [] of None \<Rightarrow> None
         | Some buf \<Rightarrow>
             (let buf = (if neg then buf @ [45] else buf)
              in if length buf > 16 then None else Some (rev buf)))"

definition put_num :: "int \<Rightarrow> u8 list option \<Rightarrow> unit uprog" where
  "put_num fd r = (case r of None \<Rightarrow> crash ''printint'' | Some cs \<Rightarrow> puts_u fd cs)"

fun printf :: "int \<Rightarrow> u8 list \<Rightarrow> parg list \<Rightarrow> unit uprog" where
  "printf fd [] args = ret ()"
| "printf fd (c # fmt) args =
     (if c = 0 then ret ()
      else if c \<noteq> 37 then thenU (putc fd c) (printf fd fmt args)
      else
        (case fmt of
           [] \<Rightarrow> ret ()
         | d # fmt \<Rightarrow>
             if d = 0 then ret ()
             else if d = 100 then
               (case args of
                  PWord w # args \<Rightarrow> thenU (put_num fd (uprintint w 10 True)) (printf fd fmt args)
                | _ \<Rightarrow> crash ''printf'')
             else if d = 120 \<or> d = 112 then
               (case args of
                  PWord w # args \<Rightarrow> thenU (put_num fd (uprintint w 16 False)) (printf fd fmt args)
                | _ \<Rightarrow> crash ''printf'')
             else if d = 115 then
               (case args of
                  PStr s # args \<Rightarrow>
                    thenU (puts_u fd (case s of None \<Rightarrow> bytes ''(null)'' | Some s \<Rightarrow> takeWhile (\<lambda>c. c \<noteq> 0) s))
                      (printf fd fmt args)
                | _ \<Rightarrow> crash ''printf'')
             else if d = 99 then
               (case args of
                  PWord w # args \<Rightarrow> thenU (putc fd (ucast w)) (printf fd fmt args)
                | _ \<Rightarrow> crash ''printf'')
             else if d = 37 then thenU (putc fd d) (printf fd fmt args)
             else thenU (puts_u fd [37, d]) (printf fd fmt args)))"

abbreviation printf_s :: "int \<Rightarrow> string \<Rightarrow> parg list \<Rightarrow> unit uprog" where
  "printf_s fd fmt args \<equiv> printf fd (bytes fmt) args"

abbreviation pstr :: "u8 list \<Rightarrow> parg" where
  "pstr s \<equiv> PStr (Some s)"

subsection \<open>cat\<close>

definition cat_body :: "int \<Rightarrow> unit \<Rightarrow> (unit + unit) uprog" where
  "cat_body fd _ =
     bindU (do_read fd 512) (\<lambda>(n, buf).
       if n > 0 then
         bindU (icall (UWrite 1 buf)) (\<lambda>w.
           if w \<noteq> n then thenU (printf_s 1 ''cat: write error\<newline>'' []) uexit else ret (Inl ()))
       else if n < 0 then thenU (printf_s 1 ''cat: read error\<newline>'' []) uexit
       else ret (Inr ()))"

definition cat :: "int \<Rightarrow> unit uprog" where
  "cat fd = uwhile (cat_body fd) ()"

text \<open>The loop over the file arguments that \<open>cat\<close>, \<open>wc\<close> and \<open>grep\<close> share: \<open>err\<close> is printed when a file cannot be opened.\<close>

primrec for_files :: "string \<Rightarrow> (u8 list \<Rightarrow> int \<Rightarrow> unit uprog) \<Rightarrow> u8 list list \<Rightarrow> unit uprog" where
  "for_files err body [] = uexit"
| "for_files err body (a # as) =
     bindU (icall (UOpen a 0)) (\<lambda>fd.
       if fd < 0 then thenU (printf_s 1 err [pstr a]) uexit
       else thenU (body a fd) (thenU (icall (UClose fd)) (for_files err body as)))"

definition cat_main :: "u8 list list \<Rightarrow> unit uprog" where
  "cat_main argv =
     (if length argv \<le> 1 then thenU (cat 0) uexit
      else for_files ''cat: cannot open %s\<newline>'' (\<lambda>_. cat) (tl argv))"

subsection \<open>wc\<close>

definition wc_space :: "u8 \<Rightarrow> bool" where
  "wc_space c \<longleftrightarrow> c \<in> set [32, 13, 9, 10, 11]"

text \<open>Lines, words, characters, and whether the last character was in a word.\<close>

type_synonym wc_state = "int \<times> int \<times> int \<times> bool"

definition wc_char :: "u8 \<Rightarrow> wc_state \<Rightarrow> wc_state" where
  "wc_char b st =
     (let (l, w, c, inword) = st;
          c = c + 1;
          l = (if b = 10 then l + 1 else l)
      in if wc_space b then (l, w, c, False)
         else if \<not> inword then (l, w + 1, c, True)
         else (l, w, c, inword))"

definition wc_body :: "int \<Rightarrow> wc_state \<Rightarrow> (wc_state + wc_state) uprog" where
  "wc_body fd st =
     bindU (do_read fd 512) (\<lambda>(n, buf).
       if n > 0 then ret (Inl (fold wc_char buf st))
       else if n < 0 then thenU (printf_s 1 ''wc: read error\<newline>'' []) uexit
       else ret (Inr st))"

definition wc :: "int \<Rightarrow> u8 list \<Rightarrow> unit uprog" where
  "wc fd name =
     bindU (uwhile (wc_body fd) (0, 0, 0, False)) (\<lambda>(l, w, c, _).
       printf_s 1 ''%d %d %d %s\<newline>'' [PWord (word_of_int l), PWord (word_of_int w), PWord (word_of_int c), pstr name])"

definition wc_main :: "u8 list list \<Rightarrow> unit uprog" where
  "wc_main argv =
     (if length argv \<le> 1 then thenU (wc 0 []) uexit
      else for_files ''wc: cannot open %s\<newline>'' (\<lambda>a fd. wc fd a) (tl argv))"

subsection \<open>Small programs\<close>

primrec echo_loop :: "u8 list list \<Rightarrow> unit uprog" where
  "echo_loop [] = uexit"
| "echo_loop (a # as) =
     thenU (printf_s 1 ''%s%s'' [pstr a, pstr (if as \<noteq> [] then bytes '' '' else bytes ''\<newline>'')]) (echo_loop as)"

definition echo_main :: "u8 list list \<Rightarrow> unit uprog" where
  "echo_main argv = echo_loop (tl argv)"

definition ln_main :: "u8 list list \<Rightarrow> unit uprog" where
  "ln_main argv =
     (if length argv \<noteq> 3 then thenU (printf_s 2 ''Usage: ln old new\<newline>'' []) uexit
      else
        bindU (icall (ULink (argv ! 1) (argv ! 2))) (\<lambda>r.
          thenU (if r < 0 then printf_s 2 ''link %s %s: failed\<newline>'' [pstr (argv ! 1), pstr (argv ! 2)] else ret ()) uexit))"

text \<open>\<open>rm\<close> and \<open>mkdir\<close> stop at the first failure.\<close>

primrec until_fail :: "(u8 list \<Rightarrow> ucall) \<Rightarrow> string \<Rightarrow> u8 list list \<Rightarrow> unit uprog" where
  "until_fail call err [] = uexit"
| "until_fail call err (a # as) =
     bindU (icall (call a)) (\<lambda>r. if r < 0 then thenU (printf_s 2 err [pstr a]) uexit else until_fail call err as)"

definition rm_main :: "u8 list list \<Rightarrow> unit uprog" where
  "rm_main argv =
     (if length argv < 2 then thenU (printf_s 2 ''Usage: rm files...\<newline>'' []) uexit
      else until_fail UUnlink ''rm: %s failed to delete\<newline>'' (tl argv))"

definition mkdir_main :: "u8 list list \<Rightarrow> unit uprog" where
  "mkdir_main argv =
     (if length argv < 2 then thenU (printf_s 2 ''Usage: mkdir files...\<newline>'' []) uexit
      else until_fail UMkdir ''mkdir: %s failed to create\<newline>'' (tl argv))"

primrec kill_loop :: "u8 list list \<Rightarrow> unit uprog" where
  "kill_loop [] = uexit"
| "kill_loop (a # as) =
     (case atoi (a @ [0]) of Ok n \<Rightarrow> thenU (icall (UKill n)) (kill_loop as) | _ \<Rightarrow> crash ''atoi'')"

definition kill_main :: "u8 list list \<Rightarrow> unit uprog" where
  "kill_main argv =
     (if length argv < 2 then thenU (printf_s 2 ''usage: kill pid...\<newline>'' []) uexit else kill_loop (tl argv))"

subsection \<open>init\<close>

definition O_RDONLY_u :: int where "O_RDONLY_u = 0"
definition O_WRONLY_u :: int where "O_WRONLY_u = 1"
definition O_RDWR_u :: int where "O_RDWR_u = 2"
definition O_CREATE_u :: int where "O_CREATE_u = 0x200"

definition wait_body :: "int \<Rightarrow> unit \<Rightarrow> (unit + unit) uprog" where
  "wait_body pid _ =
     bindU (icall UWait) (\<lambda>wpid.
       if wpid \<ge> 0 \<and> wpid \<noteq> pid then thenU (printf_s 1 ''zombie!\<newline>'' []) (ret (Inl ())) else ret (Inr ()))"

definition init_body :: "unit \<Rightarrow> (unit + unit) uprog" where
  "init_body _ =
     thenU (printf_s 1 ''init: starting sh\<newline>'' []) (
     bindU (icall UFork) (\<lambda>pid.
       if pid < 0 then thenU (printf_s 1 ''init: fork failed\<newline>'' []) uexit
       else if pid = 0 then
         thenU (icall (UExec (bytes ''sh'') [bytes ''sh''])) (thenU (printf_s 1 ''init: exec sh failed\<newline>'' []) uexit)
       else thenU (uwhile (wait_body pid) ()) (ret (Inl ()))))"

definition init_main :: "unit uprog" where
  "init_main =
     bindU (icall (UOpen (bytes ''console'') O_RDWR_u)) (\<lambda>fd.
       thenU (if fd < 0 then
                thenU (icall (UMknod (bytes ''console'') 1 1)) (thenU (icall (UOpen (bytes ''console'') O_RDWR_u)) (ret ()))
              else ret ()) (
       thenU (icall (UDup 0)) (
       thenU (icall (UDup 0)) (
         uwhile init_body ()))))"

subsection \<open>Reasoning about runs\<close>

lemma bindU_Done: "bindU m f st = Done y st' \<longleftrightarrow> (\<exists>x st1. m st = Done x st1 \<and> f x st1 = Done y st')"
  by (simp add: bindU_def split: uout.split)

lemma ret_Done [simp]: "ret x st = Done y st' \<longleftrightarrow> y = x \<and> st' = st"
  by (auto simp: ret_def)

lemma crash_Done [simp]: "crash msg st \<noteq> Done y st'"
  by (simp add: crash_def)

lemma uexit_Done [simp]: "uexit st \<noteq> Done y st'"
  by (simp add: uexit_def)

lemma syscall_Done:
  "syscall_u c st = Done r st' \<longleftrightarrow>
   (\<exists>rs. answers st = r # rs \<and> st' = st\<lparr>answers := rs, calls := calls st @ [(c, r)]\<rparr>)"
  by (auto simp: syscall_u_def split: list.split)

lemma icall_Done:
  "icall c st = Done n st' \<longleftrightarrow>
   (\<exists>r rs. answers st = r # rs \<and> n = resp_int r \<and> st' = st\<lparr>answers := rs, calls := calls st @ [(c, r)]\<rparr>)"
  by (auto simp: icall_def bindU_Done syscall_Done)

lemma do_read_Done:
  assumes "do_read fd n st = Done (m, bs) st'"
  shows "\<exists>r rs. answers st = r # rs \<and> st' = st\<lparr>answers := rs, calls := calls st @ [(URead fd n, r)]\<rparr> \<and> m = resp_int r \<and>
    length bs \<le> n \<and> (m > 0 \<longrightarrow> r = RBytes bs)"
proof -
  obtain r rs where r: "answers st = r # rs"
    "(case r of RBytes bs \<Rightarrow> if length bs \<le> n then ret (int (length bs), bs) else crash ''read''
      | _ \<Rightarrow> if resp_int r \<le> 0 then ret (resp_int r, []) else crash ''read'')
       (st\<lparr>answers := rs, calls := calls st @ [(URead fd n, r)]\<rparr>) = Done (m, bs) st'"
    using assms unfolding do_read_def bindU_Done syscall_Done by blast
  show ?thesis
  proof (cases r)
    case (RBytes cs)
    then show ?thesis using r by (cases "length cs \<le> n") simp_all
  next
    case (RInt i)
    then show ?thesis using r by (cases "i \<le> 0") simp_all
  qed (use r in simp_all)
qed

text \<open>What a run read from a file and what it wrote.\<close>

definition in_of :: "int \<Rightarrow> ucall \<times> uresp \<Rightarrow> u8 list" where
  "in_of fd x = (case fst x of URead f n \<Rightarrow> (case snd x of RBytes bs \<Rightarrow> if f = fd then bs else [] | _ \<Rightarrow> []) | _ \<Rightarrow> [])"

definition out_of :: "int \<Rightarrow> ucall \<times> uresp \<Rightarrow> u8 list" where
  "out_of fd x = (case fst x of UWrite f bs \<Rightarrow> if f = fd then bs else [] | _ \<Rightarrow> [])"

definition inp :: "int \<Rightarrow> (ucall \<times> uresp) list \<Rightarrow> u8 list" where
  "inp fd tr = concat (map (in_of fd) tr)"

definition outp :: "int \<Rightarrow> (ucall \<times> uresp) list \<Rightarrow> u8 list" where
  "outp fd tr = concat (map (out_of fd) tr)"

lemma io_append [simp]: "inp fd (tr @ tr') = inp fd tr @ inp fd tr'" "outp fd (tr @ tr') = outp fd tr @ outp fd tr'"
  by (simp_all add: inp_def outp_def)

lemma io_Nil [simp]: "inp fd [] = []" "outp fd [] = []"
  by (simp_all add: inp_def outp_def)

lemma io_Cons: "inp fd (x # tr) = in_of fd x @ inp fd tr" "outp fd (x # tr) = out_of fd x @ outp fd tr"
  by (simp_all add: inp_def outp_def)

lemma io_of [simp]:
  "in_of fd (URead f n, RBytes bs) = (if f = fd then bs else [])" "in_of fd (UWrite f bs, r) = []"
  "out_of fd (UWrite f bs, r) = (if f = fd then bs else [])" "out_of fd (URead f n, r) = []"
  by (simp_all add: in_of_def out_of_def)

text \<open>
  A loop has enough turns when each turn that goes on has used an answer: it never ends for want of fuel unless its body
  does.
\<close>

definition consumes :: "('x \<Rightarrow> ('x + 'a) uprog) \<Rightarrow> bool" where
  "consumes body \<longleftrightarrow> (\<forall>x st x' st'. body x st = Done (Inl x') st' \<longrightarrow> length (answers st') < length (answers st))"

lemma uloop_fuel:
  assumes "consumes body" and "\<And>x st. body x st \<noteq> Crash ''loop''" and "length (answers st) < n"
  shows "uloop n body x st \<noteq> Crash ''loop''"
  using assms(3)
proof (induction n arbitrary: x st)
  case (Suc n)
  show ?case
  proof (cases "body x st")
    case (Done r st1)
    show ?thesis
    proof (cases r)
      case (Inl x1)
      then have "length (answers st1) < length (answers st)" using assms(1) Done by (auto simp: consumes_def)
      then show ?thesis using Suc Done Inl by (auto simp: bindU_def)
    qed (use Done in \<open>simp add: bindU_def ret_def\<close>)
  qed (use assms(2) in \<open>auto simp: bindU_def\<close>)
qed simp

lemma uwhile_fuel:
  "consumes body \<Longrightarrow> (\<And>x st. body x st \<noteq> Crash ''loop'') \<Longrightarrow> uwhile body x st \<noteq> Crash ''loop''"
  unfolding uwhile_def by (rule uloop_fuel) simp_all

text \<open>A turn of a loop that ended.\<close>

lemma uloop_Done:
  assumes "uloop n body x st = Done y st'"
  shows "\<exists>m r st1. n = Suc m \<and> body x st = Done r st1 \<and>
    (case r of Inl x' \<Rightarrow> uloop m body x' st1 = Done y st' | Inr a \<Rightarrow> a = y \<and> st1 = st')"
proof -
  obtain m where m: "n = Suc m" using assms by (cases n) auto
  then obtain r st1 where r: "body x st = Done r st1" "(case r of Inl x \<Rightarrow> uloop m body x | Inr a \<Rightarrow> ret a) st1 = Done y st'"
    using assms by (auto simp: bindU_Done)
  then show ?thesis using m by (cases r) auto
qed

subsection \<open>What wc counts\<close>

text \<open>The number of positions where a word starts.\<close>

definition word_starts :: "u8 list \<Rightarrow> nat" where
  "word_starts bs = length (filter (\<lambda>i. \<not> wc_space (bs ! i) \<and> (i = 0 \<or> wc_space (bs ! (i - 1)))) [0 ..< length bs])"

lemma word_starts_snoc:
  "word_starts (bs @ [b]) = word_starts bs + (if \<not> wc_space b \<and> (bs = [] \<or> wc_space (last bs)) then 1 else 0)"
proof -
  have "filter (\<lambda>i. \<not> wc_space ((bs @ [b]) ! i) \<and> (i = 0 \<or> wc_space ((bs @ [b]) ! (i - 1)))) [0 ..< length bs] =
      filter (\<lambda>i. \<not> wc_space (bs ! i) \<and> (i = 0 \<or> wc_space (bs ! (i - 1)))) [0 ..< length bs]"
    by (rule filter_cong) (auto simp: nth_append)
  moreover have "(bs @ [b]) ! (length bs - 1) = last bs" if "bs \<noteq> []" using that by (simp add: nth_append last_conv_nth)
  ultimately show ?thesis by (cases "bs = []") (simp_all add: word_starts_def)
qed

lemma wc_char_step:
  "wc_char b (l, w, c, i) = (if b = 10 then l + 1 else l, if \<not> wc_space b \<and> \<not> i then w + 1 else w, c + 1, \<not> wc_space b)"
  by (auto simp: wc_char_def Let_def)

lemma wc_fold:
  "fold wc_char bs (0, 0, 0, False) =
   (int (length (filter (\<lambda>b. b = 10) bs)), int (word_starts bs), int (length bs), bs \<noteq> [] \<and> \<not> wc_space (last bs))"
proof (induction bs rule: rev_induct)
  case Nil
  show ?case by (simp add: word_starts_def)
next
  case (snoc b bs)
  show ?case using snoc by (auto simp: wc_char_step word_starts_snoc)
qed

lemma wc_loop:
  assumes "\<forall>c \<in> set cs. c \<noteq> [] \<and> length c \<le> 512" and "length cs < n"
  shows "uloop n (wc_body fd) x \<lparr>answers = map RBytes cs @ RBytes [] # rs, calls = tr\<rparr> =
    Done (fold wc_char (concat cs) x)
      \<lparr>answers = rs, calls = tr @ map (\<lambda>c. (URead fd 512, RBytes c)) cs @ [(URead fd 512, RBytes [])]\<rparr>"
  using assms
proof (induction cs arbitrary: n x tr)
  case Nil
  then obtain m where "n = Suc m" by (cases n) auto
  then show ?case by (simp add: wc_body_def do_read_def bindU_def syscall_u_def ret_def)
next
  case (Cons c cs)
  then obtain m where m: "n = Suc m" "length cs < m" by (cases n) auto
  have "wc_body fd x \<lparr>answers = map RBytes (c # cs) @ RBytes [] # rs, calls = tr\<rparr> =
      Done (Inl (fold wc_char c x)) \<lparr>answers = map RBytes cs @ RBytes [] # rs, calls = tr @ [(URead fd 512, RBytes c)]\<rparr>"
    using Cons.prems(1) by (simp add: wc_body_def do_read_def bindU_def syscall_u_def ret_def)
  then show ?case using Cons.IH [OF _ m(2), of "fold wc_char c x" "tr @ [(URead fd 512, RBytes c)]"] Cons.prems(1) m(1)
    by (simp add: bindU_def)
qed

text \<open>
  C29. \<open>wc\<close> calls \<open>printf\<close> with the number of lines, words and bytes of the file, each modulo \<open>2^32\<close>, however the kernel divides
  the file into reads.
\<close>

theorem wc_counts:
  assumes "\<forall>c \<in> set cs. c \<noteq> [] \<and> length c \<le> 512"
  shows "wc fd name \<lparr>answers = map RBytes cs @ RBytes [] # rs, calls = tr\<rparr> =
    printf_s 1 ''%d %d %d %s\<newline>''
      [PWord (of_nat (length (filter (\<lambda>b. b = 10) (concat cs)))), PWord (of_nat (word_starts (concat cs))),
       PWord (of_nat (length (concat cs))), pstr name]
      \<lparr>answers = rs, calls = tr @ map (\<lambda>c. (URead fd 512, RBytes c)) cs @ [(URead fd 512, RBytes [])]\<rparr>"
  using wc_loop [OF assms, of "Suc (length cs + Suc (length rs))" fd "(0, 0, 0, False)" rs tr]
  by (simp add: wc_def uwhile_def bindU_def wc_fold del: uloop.simps)

theorem wc_counts_witness:
  "wc 3 [102] \<lparr>answers = map RBytes [[97, 32], [98, 99, 10]] @ RBytes [] # [], calls = []\<rparr> =
    printf_s 1 ''%d %d %d %s\<newline>'' [PWord 1, PWord 2, PWord 5, pstr [102]]
      \<lparr>answers = [], calls = [(URead 3 512, RBytes [97, 32]), (URead 3 512, RBytes [98, 99, 10]), (URead 3 512, RBytes [])]\<rparr>"
proof -
  have "word_starts [97, 32, 98, 99, 10] = 2" by (simp add: word_starts_def wc_space_def upt_rec)
  then show ?thesis
    using wc_counts [of "[[97, 32], [98, 99, 10]]" 3 "[102]" "[]" "[]"] by (simp del: printf.simps)
qed

text \<open>The loops of these programs never run out of turns.\<close>

lemma cat_consumes: "consumes (cat_body fd)"
  unfolding consumes_def cat_body_def
  by (auto simp: bindU_Done icall_Done split: if_splits dest!: do_read_Done)

lemma wc_consumes: "consumes (wc_body fd)"
  unfolding consumes_def wc_body_def
  by (auto simp: bindU_Done split: if_splits dest!: do_read_Done)

end
