(* ===== verification/Grep.thy ===== *)
theory Grep
  imports User
begin

text \<open>
  \<open>grep.c\<close>: the matcher of Kernighan and Pike and the loop over the input. Patterns and lines are C strings without their
  terminating NUL. The matcher is shown equivalent to the language of the pattern; the loop prints the matching lines it gets to see.
\<close>

subsection \<open>The matcher\<close>

function (sequential) matchhere :: "u8 list \<Rightarrow> u8 list \<Rightarrow> bool" and matchstar :: "u8 \<Rightarrow> u8 list \<Rightarrow> u8 list \<Rightarrow> bool" where
  "matchhere re line =
     (case re of
        [] \<Rightarrow> True
      | c # re' \<Rightarrow>
          if re' \<noteq> [] \<and> hd re' = 42 then matchstar c (tl re') line
          else if c = 36 \<and> re' = [] then line = []
          else if line \<noteq> [] \<and> (c = 46 \<or> c = hd line) then matchhere re' (tl line) else False)"
| "matchstar c re line =
     (if matchhere re line then True
      else if line \<noteq> [] \<and> (hd line = c \<or> c = 46) then matchstar c re (tl line) else False)"
  by pat_completeness auto
termination
  by (relation "measures [\<lambda>x. case x of Inl (re, t) \<Rightarrow> 2 * length re | Inr (c, re, t) \<Rightarrow> Suc (2 * length re),
       \<lambda>x. case x of Inl (re, t) \<Rightarrow> length t | Inr (c, re, t) \<Rightarrow> length t]")
    (auto simp: length_tl split: list.splits)

declare matchhere.simps [simp del] matchstar.simps [simp del]

primrec match_from :: "u8 list \<Rightarrow> u8 list \<Rightarrow> bool" where
  "match_from re [] = matchhere re []"
| "match_from re (c # line) = (matchhere re (c # line) \<or> match_from re line)"

definition match :: "u8 list \<Rightarrow> u8 list \<Rightarrow> bool" where
  "match re line = (if re \<noteq> [] \<and> hd re = 94 then matchhere (tl re) line else match_from re line)"

subsection \<open>The language of a pattern\<close>

text \<open>A pattern is a sequence of characters or dots, each perhaps repeated, and may end in \<open>$\<close>.\<close>

datatype atom = Lit u8 | Any
datatype item = One atom | Star atom

primrec atom_ok :: "atom \<Rightarrow> u8 \<Rightarrow> bool" where
  "atom_ok (Lit c) x = (x = c)"
| "atom_ok Any x = True"

definition atom_of :: "u8 \<Rightarrow> atom" where
  "atom_of c = (if c = 46 then Any else Lit c)"

fun items :: "u8 list \<Rightarrow> item list \<times> bool" where
  "items [] = ([], False)"
| "items [c] = (if c = 36 then ([], True) else ([One (atom_of c)], False))"
| "items (c # d # re) =
     (if d = 42 then (case items re of (is, e) \<Rightarrow> (Star (atom_of c) # is, e))
      else (case items (d # re) of (is, e) \<Rightarrow> (One (atom_of c) # is, e)))"

primrec lang :: "item list \<Rightarrow> u8 list set" where
  "lang [] = {[]}"
| "lang (i # is) =
     (case i of One a \<Rightarrow> {x # v |x v. atom_ok a x \<and> v \<in> lang is}
      | Star a \<Rightarrow> {u @ v |u v. (\<forall>x \<in> set u. atom_ok a x) \<and> v \<in> lang is})"

text \<open>What a pattern means: some part of the line, at its start or end where the pattern says so, is in the language.\<close>

definition denotes :: "u8 list \<Rightarrow> u8 list \<Rightarrow> bool" where
  "denotes re line \<longleftrightarrow>
     (let (anchored, re) = (if re \<noteq> [] \<and> hd re = 94 then (True, tl re) else (False, re));
          (is, to_end) = items re
      in \<exists>us vs ws. line = us @ vs @ ws \<and> vs \<in> lang is \<and> (anchored \<longrightarrow> us = []) \<and> (to_end \<longrightarrow> ws = []))"

definition here :: "item list \<Rightarrow> bool \<Rightarrow> u8 list \<Rightarrow> bool" where
  "here is e line \<longleftrightarrow> (\<exists>vs ws. line = vs @ ws \<and> vs \<in> lang is \<and> (e \<longrightarrow> ws = []))"

lemma here_Nil: "here [] e line \<longleftrightarrow> (e \<longrightarrow> line = [])"
  by (auto simp: here_def)

lemma here_One: "here (One a # is) e line \<longleftrightarrow> (\<exists>x t. line = x # t \<and> atom_ok a x \<and> here is e t)"
proof
  assume "here (One a # is) e line"
  then obtain vs ws where l: "line = vs @ ws" "vs \<in> lang (One a # is)" "e \<longrightarrow> ws = []" by (auto simp only: here_def)
  then obtain x v where "vs = x # v" "atom_ok a x" "v \<in> lang is" by auto
  then have "line = x # (v @ ws)" "atom_ok a x" "v \<in> lang is" "e \<longrightarrow> ws = []" using l by auto
  then show "\<exists>x t. line = x # t \<and> atom_ok a x \<and> here is e t" unfolding here_def by blast
next
  assume "\<exists>x t. line = x # t \<and> atom_ok a x \<and> here is e t"
  then obtain x v ws where "line = (x # v) @ ws" "x # v \<in> lang (One a # is)" "e \<longrightarrow> ws = []" by (auto simp: here_def)
  then show "here (One a # is) e line" unfolding here_def by blast
qed

lemma here_StarI:
  "\<forall>x \<in> set u. atom_ok a x \<Longrightarrow> v \<in> lang is \<Longrightarrow> e \<longrightarrow> ws = [] \<Longrightarrow> here (Star a # is) e ((u @ v) @ ws)"
  unfolding here_def by (intro exI [of _ "u @ v"] exI [of _ ws]) auto

lemma here_Star:
  "here (Star a # is) e line \<longleftrightarrow> here is e line \<or> (\<exists>x t. line = x # t \<and> atom_ok a x \<and> here (Star a # is) e t)"
proof
  assume "here (Star a # is) e line"
  then obtain u v ws where t: "line = (u @ v) @ ws" "\<forall>x \<in> set u. atom_ok a x" "v \<in> lang is" "e \<longrightarrow> ws = []"
    by (auto simp only: here_def lang.simps item.case mem_Collect_eq)
  show "here is e line \<or> (\<exists>x t. line = x # t \<and> atom_ok a x \<and> here (Star a # is) e t)"
  proof (cases u)
    case Nil
    then show ?thesis using t unfolding here_def by auto
  next
    case (Cons x u')
    then have "here (Star a # is) e ((u' @ v) @ ws)" using t by (intro here_StarI) auto
    then show ?thesis using t Cons by auto
  qed
next
  assume "here is e line \<or> (\<exists>x t. line = x # t \<and> atom_ok a x \<and> here (Star a # is) e t)"
  then show "here (Star a # is) e line"
  proof
    assume "here is e line"
    then obtain vs ws where "line = ([] @ vs) @ ws" "vs \<in> lang is" "e \<longrightarrow> ws = []" by (auto simp: here_def)
    then show ?thesis using here_StarI [of "[]"] by simp
  next
    assume ex: "\<exists>x t. line = x # t \<and> atom_ok a x \<and> here (Star a # is) e t"
    obtain x u v ws where "line = ((x # u) @ v) @ ws" "\<forall>y \<in> set (x # u). atom_ok a y" "v \<in> lang is" "e \<longrightarrow> ws = []"
    proof -
      obtain x t where x: "line = x # t" "atom_ok a x" "here (Star a # is) e t" using ex by blast
      then obtain u v ws where "t = (u @ v) @ ws" "\<forall>y \<in> set u. atom_ok a y" "v \<in> lang is" "e \<longrightarrow> ws = []"
        by (auto simp only: here_def lang.simps item.case mem_Collect_eq)
      then show ?thesis using that [of x u v ws] x by simp
    qed
    then show ?thesis using here_StarI [of "x # u"] by simp
  qed
qed

lemma atom_of_ok: "atom_ok (atom_of c) x \<longleftrightarrow> c = 46 \<or> x = c"
  by (simp add: atom_of_def)

lemma matchhere_Nil: "matchhere [] line"
  by (subst matchhere.simps) simp

lemma matchhere_star: "matchhere (c # 42 # re) line = matchstar c re line"
  by (subst matchhere.simps) simp

lemma matchhere_end: "matchhere [36] line = (line = [])"
  by (subst matchhere.simps) simp

lemma matchhere_last: "c \<noteq> 36 \<Longrightarrow> matchhere [c] line = (line \<noteq> [] \<and> (c = 46 \<or> c = hd line) \<and> matchhere [] (tl line))"
  by (subst matchhere.simps) simp

lemma matchhere_char:
  "d \<noteq> 42 \<Longrightarrow> matchhere (c # d # re) line = (line \<noteq> [] \<and> (c = 46 \<or> c = hd line) \<and> matchhere (d # re) (tl line))"
  by (subst matchhere.simps) simp

lemmas matchhere_rules = matchhere_Nil matchhere_star matchhere_end matchhere_last matchhere_char

lemma here_One': "here (One a # is) e line \<longleftrightarrow> line \<noteq> [] \<and> atom_ok a (hd line) \<and> here is e (tl line)"
  by (cases line) (simp_all add: here_One)

lemma matchstar_rule:
  "matchstar c re line = (matchhere re line \<or> (\<exists>x t. line = x # t \<and> (x = c \<or> c = 46) \<and> matchstar c re t))"
  by (subst matchstar.simps) (cases line; auto)

lemma matchstar_here:
  assumes "\<And>l. matchhere re l = here is e l"
  shows "matchstar c re line = here (Star (atom_of c) # is) e line"
proof (induction line)
  case Nil
  show ?case using assms by (subst matchstar_rule, subst here_Star) simp
next
  case (Cons x t)
  show ?case using assms Cons by (subst matchstar_rule, subst here_Star) (auto simp: atom_of_ok)
qed

lemma matchhere_here: "matchhere re line = here (fst (items re)) (snd (items re)) line"
proof (induction re arbitrary: line rule: items.induct)
  case 1
  show ?case by (simp add: matchhere_rules here_Nil)
next
  case (2 c)
  show ?case
  proof (cases "c = 36")
    case True
    then show ?thesis by (simp add: matchhere_rules here_Nil)
  next
    case False
    then show ?thesis by (auto simp: matchhere_rules here_One' here_Nil atom_of_ok)
  qed
next
  case (3 c d re)
  show ?case
  proof (cases "d = 42")
    case True
    then show ?thesis using matchstar_here [OF 3(1)] by (simp add: matchhere_rules split: prod.split)
  next
    case False
    then show ?thesis using 3(2) by (auto simp: matchhere_char here_One' atom_of_ok split: prod.split)
  qed
qed

lemma match_from_here: "match_from re line \<longleftrightarrow> (\<exists>us t. line = us @ t \<and> matchhere re t)"
proof (induction line)
  case (Cons c line)
  have "(\<exists>us t. c # line = us @ t \<and> matchhere re t) \<longleftrightarrow> matchhere re (c # line) \<or> (\<exists>us t. line = us @ t \<and> matchhere re t)"
    by (auto simp: Cons_eq_append_conv)
  then show ?case using Cons by simp
qed simp

lemma match_denotes_fun: "match re = denotes re"
proof (rule ext)
  fix line
  show "match re line = denotes re line"
  proof (cases "re \<noteq> [] \<and> hd re = 94")
    case True
    then show ?thesis
      by (auto simp: match_def denotes_def matchhere_here here_def split: prod.splits)
  next
    case False
    then show ?thesis
      by (auto simp: match_def denotes_def match_from_here matchhere_here here_def split: prod.splits)
  qed
qed

text \<open>
  C26. The matcher is right: for every pattern and every line, \<open>match\<close> says yes exactly when the line has a part in the
  language of the pattern, anchored where the pattern begins with \<open>^\<close> or ends with \<open>$\<close>.
\<close>

theorem match_denotes: "match re line = denotes re line"
  by (simp add: match_denotes_fun)

subsection \<open>The loop over the input\<close>

text \<open>
  The inner loop: from \<open>p\<close> on, the lines that match, each with its newline, and what is left when \<open>strchr\<close> finds no
  further newline before a NUL.
\<close>

function grep_lines :: "u8 list \<Rightarrow> u8 list \<Rightarrow> u8 list list \<times> u8 list" where
  "grep_lines pattern p =
     (let l = takeWhile (\<lambda>c. c \<noteq> 10 \<and> c \<noteq> 0) p; q = dropWhile (\<lambda>c. c \<noteq> 10 \<and> c \<noteq> 0) p
      in if q \<noteq> [] \<and> hd q = 10 then
           (let (ws, r) = grep_lines pattern (tl q) in (if match pattern l then (l @ [10]) # ws else ws, r))
         else ([], p))"
  by pat_completeness auto
termination
proof (relation "measure (\<lambda>(pattern, p). length p)", goal_cases)
  case (2 pattern p l q)
  then have "length (tl q) < length q" by (cases q) simp_all
  also have "length q \<le> length p" using 2 by (simp add: length_dropWhile_le)
  finally show ?case by simp
qed simp

declare grep_lines.simps [simp del]

primrec write_lines :: "u8 list list \<Rightarrow> unit uprog" where
  "write_lines [] = ret ()"
| "write_lines (l # ls) = thenU (icall (UWrite 1 l)) (write_lines ls)"

text \<open>One turn of the outer loop; \<open>pre\<close> is the part of a line that the buffer still holds.\<close>

definition grep_body :: "u8 list \<Rightarrow> int \<Rightarrow> u8 list \<Rightarrow> (u8 list + unit) uprog" where
  "grep_body pattern fd pre =
     bindU (do_read fd (1024 - length pre - 1)) (\<lambda>(n, chunk).
       if n > 0 then
         (let p = pre @ chunk; (ws, r) = grep_lines pattern p
          in thenU (write_lines ws) (ret (Inl (if length r = length p then [] else r))))
       else ret (Inr ()))"

definition grep :: "u8 list \<Rightarrow> int \<Rightarrow> unit uprog" where
  "grep pattern fd = uwhile (grep_body pattern fd) []"

definition grep_main :: "u8 list list \<Rightarrow> unit uprog" where
  "grep_main argv =
     (if length argv \<le> 1 then thenU (printf_s 2 ''usage: grep pattern [file ...]\<newline>'' []) uexit
      else if length argv \<le> 2 then thenU (grep (argv ! 1) 0) uexit
      else for_files ''grep: cannot open %s\<newline>'' (\<lambda>_. grep (argv ! 1)) (tl (tl argv)))"

text \<open>The complete lines of a text, and the rest.\<close>

fun lines :: "u8 list \<Rightarrow> u8 list list \<times> u8 list" where
  "lines [] = ([], [])"
| "lines (c # t) =
     (case lines t of (ls, r) \<Rightarrow>
        if c = 10 then ([] # ls, r) else (case ls of [] \<Rightarrow> ([], c # r) | l # ls \<Rightarrow> ((c # l) # ls, r)))"

lemma lines_no: "10 \<notin> set t \<Longrightarrow> lines t = ([], t)"
  by (induction t) auto

lemma lines_one: "10 \<notin> set l \<Longrightarrow> lines (l @ 10 # t) = (l # fst (lines t), snd (lines t))"
  by (induction l) (auto split: prod.split)

lemma lines_some: "10 \<in> set t \<Longrightarrow> length (snd (lines t)) < length t"
proof -
  assume "10 \<in> set t"
  then obtain l u where t: "t = l @ 10 # u" "10 \<notin> set l" by (meson split_list_first)
  have "length (snd (lines u)) \<le> length u" by (induction u) (auto split: prod.splits list.splits)
  then show ?thesis using t lines_one [of l u] by simp
qed

lemma lines_rest: "10 \<notin> set (snd (lines t))"
  by (induction t) (auto split: prod.splits list.splits)

lemma lines_subset: "set (snd (lines t)) \<subseteq> set t"
  by (induction t) (auto split: prod.splits list.splits)

lemma lines_append:
  "lines (t @ u) = (fst (lines t) @ fst (lines (snd (lines t) @ u)), snd (lines (snd (lines t) @ u)))"
proof (induction t rule: length_induct)
  case (1 t)
  show ?case
  proof (cases "10 \<in> set t")
    case False
    then show ?thesis by (simp add: lines_no)
  next
    case True
    then obtain l t' where t: "t = l @ 10 # t'" "10 \<notin> set l" by (meson split_list_first)
    then show ?thesis using 1 lines_one [OF t(2), of t'] lines_one [OF t(2), of "t' @ u"] by simp
  qed
qed

lemma grep_lines_spec:
  "0 \<notin> set p \<Longrightarrow> grep_lines pattern p = (map (\<lambda>l. l @ [10]) (filter (match pattern) (fst (lines p))), snd (lines p))"
proof (induction p rule: length_induct)
  case (1 p)
  show ?case
  proof (cases "10 \<in> set p")
    case False
    then have "\<forall>c \<in> set p. c \<noteq> 10 \<and> c \<noteq> 0" using 1(2) by auto
    then have "dropWhile (\<lambda>c. c \<noteq> 10 \<and> c \<noteq> 0) p = []" by (simp add: dropWhile_eq_Nil_conv)
    then show ?thesis using False by (subst grep_lines.simps) (simp add: lines_no)
  next
    case True
    then obtain l t where p: "p = l @ 10 # t" "10 \<notin> set l" by (meson split_list_first)
    have l: "\<forall>c \<in> set l. c \<noteq> 10 \<and> c \<noteq> 0" using p 1(2) by auto
    then have "takeWhile (\<lambda>c. c \<noteq> 10 \<and> c \<noteq> 0) p = l" "dropWhile (\<lambda>c. c \<noteq> 10 \<and> c \<noteq> 0) p = 10 # t"
      unfolding p(1) by (simp_all add: takeWhile_append2 dropWhile_append2)
    moreover have "grep_lines pattern t = (map (\<lambda>l. l @ [10]) (filter (match pattern) (fst (lines t))), snd (lines t))"
      using 1 p by simp
    ultimately show ?thesis using lines_one [OF p(2), of t] p(1) by (subst grep_lines.simps) (simp add: Let_def)
  qed
qed

text \<open>
  The lines that \<open>grep\<close> gets to see: a read that brings a newline ends the line that was begun before it, and its last part begins
  the next one; a read that brings no newline is dropped, and with it the line begun before it.
\<close>

definition reads :: "int \<Rightarrow> (ucall \<times> uresp) list \<Rightarrow> u8 list list" where
  "reads fd tr = filter (\<lambda>bs. bs \<noteq> []) (map (in_of fd) tr)"

fun seen :: "u8 list \<Rightarrow> u8 list list \<Rightarrow> u8 list list" where
  "seen pre [] = []"
| "seen pre (c # cs) = (if 10 \<in> set c then fst (lines (pre @ c)) @ seen (snd (lines (pre @ c))) cs else seen [] cs)"

abbreviation printed :: "u8 list list \<Rightarrow> u8 list" where
  "printed ls \<equiv> concat (map (\<lambda>l. l @ [10]) ls)"

lemma reads_append [simp]: "reads fd (tr @ tr') = reads fd tr @ reads fd tr'"
  by (simp add: reads_def)

lemma reads_Cons: "reads fd (x # tr) = (if in_of fd x = [] then [] else [in_of fd x]) @ reads fd tr"
  by (simp add: reads_def)

lemma inp_reads: "inp fd tr = concat (reads fd tr)"
  by (induction tr) (simp_all add: io_Cons reads_Cons, simp add: reads_def)

lemma write_lines_Done:
  "write_lines ws st = Done () st' \<Longrightarrow> \<exists>tr. calls st' = calls st @ tr \<and> (\<forall>fd. reads fd tr = []) \<and> outp 1 tr = concat ws"
proof (induction ws arbitrary: st)
  case (Cons w ws)
  then obtain r rs where "write_lines ws (st\<lparr>answers := rs, calls := calls st @ [(UWrite 1 w, r)]\<rparr>) = Done () st'"
    by (auto simp: bindU_Done icall_Done)
  from Cons.IH [OF this] obtain tr where "calls st' = calls st @ (UWrite 1 w, r) # tr" "\<forall>fd. reads fd tr = []" "outp 1 tr = concat ws"
    by auto
  then show ?case by (intro exI [of _ "(UWrite 1 w, r) # tr"]) (simp add: io_Cons reads_Cons)
qed (simp add: reads_def)

lemma seen_lines: "\<forall>c \<in> set cs. 10 \<in> set c \<Longrightarrow> 10 \<notin> set pre \<Longrightarrow> seen pre cs = fst (lines (pre @ concat cs))"
proof (induction cs arbitrary: pre)
  case (Cons c cs)
  then show ?case using lines_append [of "pre @ c" "concat cs"] lines_rest [of "pre @ c"] by simp
qed (simp add: lines_no)

lemma grep_lines_rest:
  assumes "10 \<notin> set p"
  shows "grep_lines pattern p = ([], p)"
proof -
  let ?q = "dropWhile (\<lambda>c. c \<noteq> 10 \<and> c \<noteq> 0) p"
  have "\<not> (?q \<noteq> [] \<and> hd ?q = 10)" using hd_in_set [of ?q] set_dropWhileD [of "hd ?q"] assms by fastforce
  then show ?thesis unfolding grep_lines.simps [of pattern p] Let_def by (rule if_not_P)
qed

text \<open>What is held for the next turn.\<close>

lemma grep_held:
  assumes "0 \<notin> set (pre @ c)" and "10 \<notin> set pre" and "grep_lines pattern (pre @ c) = (ws, q)"
  shows "ws = map (\<lambda>l. l @ [10]) (filter (match pattern) (fst (lines (pre @ c)))) \<and>
    (if length q = length (pre @ c) then [] else q) = (if 10 \<in> set c then snd (lines (pre @ c)) else [])"
proof -
  have g: "ws = map (\<lambda>l. l @ [10]) (filter (match pattern) (fst (lines (pre @ c))))" "q = snd (lines (pre @ c))"
    using grep_lines_spec [OF assms(1), of pattern] assms(3) by simp_all
  then show ?thesis using lines_some [of "pre @ c"] lines_no [of "pre @ c"] assms(2) by (cases "10 \<in> set c") auto
qed

lemma grep_body_Done:
  assumes "grep_body pattern fd pre st = Done r st'"
  shows "\<exists>tr. calls st' = calls st @ tr \<and> (0 \<notin> set pre \<and> 10 \<notin> set pre \<and> 0 \<notin> set (inp fd tr) \<longrightarrow>
    (case r of Inr _ \<Rightarrow> reads fd tr = [] \<and> outp 1 tr = []
     | Inl pre' \<Rightarrow> \<exists>c. reads fd tr = [c] \<and> pre' = (if 10 \<in> set c then snd (lines (pre @ c)) else []) \<and>
         outp 1 tr = printed (filter (match pattern) (fst (lines (pre @ c))))))"
proof -
  obtain n chunk st1 where rd: "do_read fd (1024 - length pre - 1) st = Done (n, chunk) st1"
    and body: "(if n > 0 then
         (let p = pre @ chunk; (ws, r) = grep_lines pattern p
          in thenU (write_lines ws) (ret (Inl (if length r = length p then [] else r)))) else ret (Inr ())) st1 = Done r st'"
    using assms by (auto simp: grep_body_def bindU_Done)
  let ?rd = "URead fd (1024 - length pre - 1)"
  obtain a rs where a: "st1 = st\<lparr>answers := rs, calls := calls st @ [(?rd, a)]\<rparr>" "n = resp_int a" "n > 0 \<longrightarrow> a = RBytes chunk"
    using do_read_Done [OF rd] by blast
  show ?thesis
  proof (cases "n > 0")
    case False
    then have "in_of fd (?rd, a) = []" using a(2) by (cases a) (auto simp: in_of_def)
    then have "reads fd [(?rd, a)] = []" by (simp add: reads_def)
    then show ?thesis using body False a(1) by (intro exI [of _ "[(?rd, a)]"]) (auto simp: io_Cons)
  next
    case True
    obtain ws q where g: "grep_lines pattern (pre @ chunk) = (ws, q)" by fastforce
    have w: "write_lines ws st1 = Done () st'" and r: "r = Inl (if length q = length (pre @ chunk) then [] else q)"
      using body True g by (auto simp: bindU_Done Let_def)
    obtain tr where tr: "calls st' = calls st1 @ tr" "\<And>fd. reads fd tr = []" "outp 1 tr = concat ws"
      using write_lines_Done [OF w] by blast
    let ?tr = "(?rd, RBytes chunk) # tr"
    have calls: "calls st' = calls st @ ?tr" using tr(1) a True by simp
    have rds: "reads fd ?tr = [chunk]" using a True tr(2) by (auto simp: reads_Cons)
    moreover have "outp 1 ?tr = concat ws" using tr(3) by (simp add: io_Cons)
    ultimately show ?thesis using calls r grep_held [OF _ _ g] by (intro exI [of _ ?tr]) (auto simp: inp_reads)
  qed
qed

lemma grep_loop:
  assumes "uloop n (grep_body pattern fd) pre st = Done () st'"
  shows "\<exists>tr. calls st' = calls st @ tr \<and> (0 \<notin> set pre \<and> 10 \<notin> set pre \<and> 0 \<notin> set (inp fd tr) \<longrightarrow>
    outp 1 tr = printed (filter (match pattern) (seen pre (reads fd tr))))"
  using assms
proof (induction n arbitrary: pre st)
  case (Suc n)
  obtain r st1 where b: "grep_body pattern fd pre st = Done r st1"
    and c: "case r of Inl x' \<Rightarrow> uloop n (grep_body pattern fd) x' st1 = Done () st' | Inr a \<Rightarrow> a = () \<and> st1 = st'"
    using uloop_Done [OF Suc.prems] by auto
  obtain tr where tr: "calls st1 = calls st @ tr" "0 \<notin> set pre \<and> 10 \<notin> set pre \<and> 0 \<notin> set (inp fd tr) \<longrightarrow>
    (case r of Inr _ \<Rightarrow> reads fd tr = [] \<and> outp 1 tr = []
     | Inl pre' \<Rightarrow> \<exists>c. reads fd tr = [c] \<and> pre' = (if 10 \<in> set c then snd (lines (pre @ c)) else []) \<and>
         outp 1 tr = printed (filter (match pattern) (fst (lines (pre @ c)))))"
    using grep_body_Done [OF b] by blast
  show ?case
  proof (cases r)
    case (Inr a)
    then show ?thesis using c tr by (intro exI [of _ tr]) simp
  next
    case (Inl pre')
    then obtain tr' where tr': "calls st' = calls st1 @ tr'" "0 \<notin> set pre' \<and> 10 \<notin> set pre' \<and> 0 \<notin> set (inp fd tr') \<longrightarrow>
        outp 1 tr' = printed (filter (match pattern) (seen pre' (reads fd tr')))"
      using Suc.IH [of pre' st1] c by auto
    have "outp 1 (tr @ tr') = printed (filter (match pattern) (seen pre (reads fd (tr @ tr'))))"
      if z: "0 \<notin> set pre \<and> 10 \<notin> set pre \<and> 0 \<notin> set (inp fd (tr @ tr'))"
    proof -
      obtain c where c: "reads fd tr = [c]" "pre' = (if 10 \<in> set c then snd (lines (pre @ c)) else [])"
        "outp 1 tr = printed (filter (match pattern) (fst (lines (pre @ c))))"
        using tr(2) Inl z by auto
      have "0 \<notin> set (pre @ c)" using z c(1) by (auto simp: inp_reads)
      then have "0 \<notin> set pre'" "10 \<notin> set pre'" using c(2) lines_subset [of "pre @ c"] lines_rest [of "pre @ c"] by auto
      moreover have "fst (lines (pre @ c)) = []" if "10 \<notin> set c" using that z lines_no [of "pre @ c"] by simp
      ultimately show ?thesis using tr'(2) c z by auto
    qed
    then show ?thesis using tr(1) tr'(1) by (intro exI [of _ "tr @ tr'"]) simp
  qed
qed simp

text \<open>The loop of \<open>grep\<close> uses an answer in every turn, so that it never stops for want of turns.\<close>

lemma bindU_Crash: "bindU m f st = Crash e \<longleftrightarrow> m st = Crash e \<or> (\<exists>x st'. m st = Done x st' \<and> f x st' = Crash e)"
  by (auto simp: bindU_def split: uout.split)

lemma icall_no_crash [simp]: "icall c st \<noteq> Crash e"
  by (simp add: icall_def bindU_def syscall_u_def ret_def split: uout.split list.split)

lemma write_lines_no_crash [simp]: "write_lines ls st \<noteq> Crash e"
  by (induction ls arbitrary: st) (auto simp: ret_def bindU_Crash)

lemma do_read_Crash:
  assumes "do_read fd n st = Crash e"
  shows "e = ''read''"
proof -
  obtain r st' where "(case r of RBytes bs \<Rightarrow> if length bs \<le> n then ret (int (length bs), bs) else crash ''read''
      | _ \<Rightarrow> if resp_int r \<le> 0 then ret (resp_int r, []) else crash ''read'') st' = Crash e"
    using assms by (auto simp: do_read_def bindU_Crash syscall_u_def split: list.splits)
  then show ?thesis by (cases r) (simp_all add: ret_def crash_def split: if_splits)
qed

lemma grep_body_Crash: "grep_body pattern fd pre st = Crash e \<Longrightarrow> e = ''read''"
  by (auto simp: grep_body_def bindU_Crash ret_def Let_def split: prod.splits if_splits dest: do_read_Crash)

lemma write_lines_answers: "write_lines ls st = Done u st' \<Longrightarrow> length (answers st') \<le> length (answers st)"
proof (induction ls arbitrary: st)
  case (Cons l ls)
  then obtain r rs st1 where "answers st = r # rs" "st1 = st\<lparr>answers := rs, calls := calls st @ [(UWrite 1 l, r)]\<rparr>"
    "write_lines ls st1 = Done u st'" by (auto simp: bindU_Done icall_Done)
  then show ?case using Cons.IH [of st1] by simp
qed simp

lemma grep_consumes: "consumes (grep_body pattern fd)"
  unfolding consumes_def grep_body_def
  by (fastforce simp: bindU_Done Let_def split: if_splits prod.splits dest: do_read_Done write_lines_answers)

text \<open>A program that makes its calls one after the other waits only when no answer is left.\<close>

definition waits_last :: "'a uprog \<Rightarrow> bool" where
  "waits_last m \<longleftrightarrow> (\<forall>st. case m st of
     Done _ st' \<Rightarrow> length (calls st') + length (answers st') = length (calls st) + length (answers st)
   | Blocked tr \<Rightarrow> length tr = length (calls st) + length (answers st) | Exited _ \<Rightarrow> False | Crash _ \<Rightarrow> True)"

lemma waits_bindU: "waits_last m \<Longrightarrow> (\<And>x. waits_last (f x)) \<Longrightarrow> waits_last (bindU m f)"
  unfolding waits_last_def bindU_def by (fastforce split: uout.splits)

lemma waits_basic [intro]: "waits_last (ret x)" "waits_last (crash e)" "waits_last (syscall_u c)"
  by (simp_all add: waits_last_def ret_def crash_def syscall_u_def split: list.split)

lemma waits_icall [intro]: "waits_last (icall c)"
  unfolding icall_def by (intro waits_bindU waits_basic)

lemma waits_do_read [intro]: "waits_last (do_read fd n)"
  unfolding do_read_def by (intro waits_bindU) (auto split: uresp.split)

lemma waits_write_lines [intro]: "waits_last (write_lines ws)"
  by (induction ws) (auto intro!: waits_bindU)

lemma waits_grep_body: "waits_last (grep_body pattern fd pre)"
  unfolding grep_body_def by (intro waits_bindU) (auto intro!: waits_bindU simp: Let_def split: prod.split)

lemma waits_uloop: "(\<And>x. waits_last (body x)) \<Longrightarrow> waits_last (uloop n body x)"
proof (induction n arbitrary: x)
  case (Suc n)
  then show ?case by (auto intro!: waits_bindU split: sum.split)
qed auto

lemma uloop_Crash:
  assumes "\<And>x st e. body x st = Crash e \<Longrightarrow> P e" and "uloop n body x st = Crash e"
  shows "P e \<or> e = ''loop''"
  using assms(2)
proof (induction n arbitrary: x st)
  case (Suc n)
  from Suc.prems consider "body x st = Crash e"
    | r st1 where "(case r of Inl x \<Rightarrow> uloop n body x | Inr a \<Rightarrow> ret a) st1 = Crash e"
    by (auto simp: bindU_Crash)
  then show ?case
  proof cases
    case 1
    then show ?thesis using assms(1) by blast
  next
    case 2
    then show ?thesis using Suc.IH by (cases r) (auto simp: ret_def)
  qed
qed (simp add: crash_def)

lemma grep_Crash:
  assumes "grep pattern fd st = Crash e"
  shows "e = ''read''"
proof -
  have "grep_body pattern fd pre s \<noteq> Crash ''loop''" for pre s using grep_body_Crash [of pattern fd pre s "''loop''"] by auto
  then have "grep pattern fd st \<noteq> Crash ''loop''" unfolding grep_def by (rule uwhile_fuel [OF grep_consumes])
  moreover have "e = ''read'' \<or> e = ''loop''"
    by (rule uloop_Crash [OF grep_body_Crash]) (use assms in \<open>simp_all add: grep_def uwhile_def del: uloop.simps\<close>)
  ultimately show ?thesis using assms by auto
qed

text \<open>
  C27. What \<open>grep\<close> does, whatever the kernel answers. It returns, or waits for an answer when all have been used, or is given
  an answer that no read can have. When it returns and the input has no NUL byte, it has written exactly the lines it got
  to see that the pattern denotes, in order. If each read brought a newline, the lines it got to see are all the complete
  lines of the input; a read without a newline is dropped.
\<close>

theorem grep_prints_matching_lines:
  "case grep pattern fd st of
     Done _ st' \<Rightarrow> \<exists>tr. calls st' = calls st @ tr \<and>
       (0 \<notin> set (inp fd tr) \<longrightarrow> outp 1 tr = printed (filter (denotes pattern) (seen [] (reads fd tr)))) \<and>
       ((\<forall>c \<in> set (reads fd tr). 10 \<in> set c) \<longrightarrow> seen [] (reads fd tr) = fst (lines (inp fd tr)))
   | Blocked tr \<Rightarrow> length tr = length (calls st) + length (answers st)
   | Exited _ \<Rightarrow> False
   | Crash msg \<Rightarrow> msg = ''read''"
proof (cases "grep pattern fd st")
  case (Done u st')
  then obtain tr where "calls st' = calls st @ tr"
    "0 \<notin> set (inp fd tr) \<longrightarrow> outp 1 tr = printed (filter (denotes pattern) (seen [] (reads fd tr)))"
    using grep_loop [of "Suc (length (answers st))" pattern fd "[]" st st']
    by (auto simp: grep_def uwhile_def match_denotes_fun simp del: uloop.simps)
  then show ?thesis using Done seen_lines [of "reads fd tr" "[]"] by (auto simp: inp_reads)
next
  case (Crash e)
  then show ?thesis using grep_Crash by auto
qed (use waits_uloop [of "grep_body pattern fd", OF waits_grep_body, of "Suc (length (answers st))" "[]"] in
  \<open>auto simp: waits_last_def grep_def uwhile_def simp del: uloop.simps dest: spec [of _ st]\<close>)

text \<open>Two reads: a line and the begin of a second one, then its end.\<close>

theorem grep_prints_matching_lines_witness:
  "\<exists>st'. grep [97] 0 \<lparr>answers = [RBytes [98, 10, 98], RBytes [97, 10], RInt 3, RInt 0], calls = []\<rparr> = Done () st' \<and>
     reads 0 (calls st') = [[98, 10, 98], [97, 10]] \<and> outp 1 (calls st') = [98, 97, 10] \<and>
     outp 1 (calls st') = printed (filter (denotes [97]) (fst (lines (inp 0 (calls st')))))"
proof -
  let ?st = "\<lparr>answers = [RBytes [98, 10, 98], RBytes [97, 10], RInt 3, RInt 0], calls = []\<rparr>"
  let ?tr = "[(URead 0 1023, RBytes [98, 10, 98]), (URead 0 1022, RBytes [97, 10]), (UWrite 1 [98, 97, 10], RInt 3), (URead 0 1023, RInt 0)]"
  have m: "match [97] [98, 97]" "\<not> match [97] [98]" by (simp_all add: match_def matchhere_rules)
  have l: "grep_lines [97] [98, 10, 98] = ([], [98])" "grep_lines [97] [98, 97, 10] = ([[98, 97, 10]], [])"
    using m by (simp_all add: grep_lines_spec)
  have g: "grep [97] 0 ?st = Done () \<lparr>answers = [], calls = ?tr\<rparr>"
    by (simp add: grep_def uwhile_def grep_body_def do_read_def bindU_def syscall_u_def ret_def icall_def l)
  have r: "reads 0 ?tr = [[98, 10, 98], [97, 10]]" "outp 1 ?tr = [98, 97, 10]" "0 \<notin> set (inp 0 ?tr)"
    by (simp_all add: reads_def io_Cons in_of_def)
  have "\<exists>tr. ?tr = [] @ tr \<and> (0 \<notin> set (inp 0 tr) \<longrightarrow> outp 1 tr = printed (filter (denotes [97]) (seen [] (reads 0 tr)))) \<and>
      ((\<forall>c \<in> set (reads 0 tr). 10 \<in> set c) \<longrightarrow> seen [] (reads 0 tr) = fst (lines (inp 0 tr)))"
    using grep_prints_matching_lines [where pattern = "[97]" and fd = 0 and st = ?st] unfolding g uout.case ust.select_convs .
  then have "outp 1 ?tr = printed (filter (denotes [97]) (seen [] (reads 0 ?tr)))"
    "\<forall>c \<in> set (reads 0 ?tr). 10 \<in> set c \<Longrightarrow> seen [] (reads 0 ?tr) = fst (lines (inp 0 ?tr))"
    unfolding append_Nil using r(3) by blast+
  moreover have "\<forall>c \<in> set (reads 0 ?tr). 10 \<in> set c" unfolding r(1) by simp
  ultimately have "outp 1 ?tr = printed (filter (denotes [97]) (fst (lines (inp 0 ?tr))))" by (simp only:)
  then show ?thesis using g r(1,2) by (intro exI [of _ "\<lparr>answers = [], calls = ?tr\<rparr>"]) (simp only: ust.select_convs simp_thms)
qed

text \<open>
  C28. A read that brings no newline is thrown away, with the begin of the line that was held from the reads before it:
  from there on \<open>grep\<close> goes on as if it had just been started. So the rest of the line is tested and printed as if it were
  the whole line.
\<close>

theorem grep_loses_split_line:
  assumes "answers st = RBytes a # rs" and "a \<noteq> []" and "length pre + length a < 1024" and "10 \<notin> set (pre @ a)"
  shows "uwhile (grep_body pattern fd) pre st =
    grep pattern fd (st\<lparr>answers := rs, calls := calls st @ [(URead fd (1023 - length pre), RBytes a)]\<rparr>)"
proof -
  let ?st = "st\<lparr>answers := rs, calls := calls st @ [(URead fd (1023 - length pre), RBytes a)]\<rparr>"
  have "length a \<le> 1024 - length pre - 1" using assms(3) by simp
  then have "do_read fd (1024 - length pre - 1) st = Done (int (length a), a) ?st"
    using assms(1) by (simp add: do_read_def bindU_def syscall_u_def ret_def)
  then have "grep_body pattern fd pre st = Done (Inl []) ?st"
    using assms(2) grep_lines_rest [OF assms(4), of pattern] by (simp add: grep_body_def bindU_def ret_def Let_def)
  then show ?thesis using assms(1) by (simp add: grep_def uwhile_def bindU_def)
qed

text \<open>The line \<open>ab\<close> arrives in two reads, and the pattern \<open>ab\<close> is not found.\<close>

theorem grep_loses_split_line_witness:
  "\<exists>st'. grep [97, 98] 0 \<lparr>answers = [RBytes [97], RBytes [98, 10], RInt 0], calls = []\<rparr> = Done () st' \<and>
     inp 0 (calls st') = [97, 98, 10] \<and> denotes [97, 98] [97, 98] \<and> outp 1 (calls st') = []"
proof -
  have m: "\<not> match [97, 98] [98]" "match [97, 98] [97, 98]" by (simp_all add: match_def matchhere_rules)
  have l: "grep_lines [97, 98] [98, 10] = ([], [])" using m by (simp add: grep_lines_spec)
  have "denotes [97, 98] [97, 98]" using m by (simp add: match_denotes_fun)
  moreover have "grep [97, 98] 0 \<lparr>answers = [RBytes [97], RBytes [98, 10], RInt 0], calls = []\<rparr> =
      grep [97, 98] 0 \<lparr>answers = [RBytes [98, 10], RInt 0], calls = [(URead 0 1023, RBytes [97])]\<rparr>"
    using grep_loses_split_line [of "\<lparr>answers = [RBytes [97], RBytes [98, 10], RInt 0], calls = []\<rparr>" "[97]" _ "[]" "[97, 98]" 0]
    unfolding grep_def [symmetric] by simp
  moreover have "grep [97, 98] 0 \<lparr>answers = [RBytes [98, 10], RInt 0], calls = [(URead 0 1023, RBytes [97])]\<rparr> =
      Done () \<lparr>answers = [], calls = [(URead 0 1023, RBytes [97]), (URead 0 1023, RBytes [98, 10]), (URead 0 1023, RInt 0)]\<rparr>"
    by (simp add: grep_def uwhile_def grep_body_def do_read_def bindU_def syscall_u_def ret_def icall_def l)
  ultimately show ?thesis by (simp add: inp_def in_of_def outp_def out_of_def)
qed

end
