(* ===== verification/Shell.thy ===== *)
theory Shell
  imports Grep
begin

text \<open>
  \<open>sh.c\<close>: the tokens, the parser, \<open>nulterminate\<close>, the execution of a command and the main loop.

  A pointer into the line is a position in it; \<open>es\<close> is the length of the line, where the NUL is. The structures of a
  command become a tree. \<open>parseexec\<close> fills in the arguments of a structure that the redirections already point to, so its
  model collects the arguments and the redirections and builds the tree at the end. The parsers that call each other
  take fuel or the parser of a nested line. \<open>malloc\<close> is taken to succeed.
\<close>

subsection \<open>Tokens\<close>

definition whitespace :: "u8 list" where "whitespace = bytes '' '' @ [9, 13, 10, 11]"
definition symbols :: "u8 list" where "symbols = bytes ''<|>&;()''"

definition ch_at :: "u8 list \<Rightarrow> nat \<Rightarrow> u8" where
  "ch_at s i = (if i < length s then s ! i else 0)"

definition skip :: "(u8 \<Rightarrow> bool) \<Rightarrow> u8 list \<Rightarrow> nat \<Rightarrow> nat" where
  "skip P s i = i + length (takeWhile P (drop i s))"

abbreviation ws :: "u8 \<Rightarrow> bool" where "ws c \<equiv> c \<in> set whitespace"
abbreviation sym :: "u8 \<Rightarrow> bool" where "sym c \<equiv> c \<in> set symbols"

abbreviation chr :: "char \<Rightarrow> u8" where "chr c \<equiv> of_char c"

text \<open>The value of \<open>gettoken\<close>, the start and the end of the token, and the position after it.\<close>

definition token_end :: "u8 list \<Rightarrow> nat \<Rightarrow> u8 \<times> nat" where
  "token_end s q =
     (let c = ch_at s q
      in if c = 0 then (0, q)
         else if c \<in> set (bytes ''|();&<'') then (c, q + 1)
         else if c = chr CHR ''>'' then (if ch_at s (q + 1) = chr CHR ''>'' then (chr CHR ''+'', q + 2) else (c, q + 1))
         else (chr CHR ''a'', skip (\<lambda>c. \<not> ws c \<and> \<not> sym c) s q))"

definition gettoken :: "u8 list \<Rightarrow> nat \<Rightarrow> u8 \<times> nat \<times> nat \<times> nat" where
  "gettoken s i =
     (let q = skip ws s i; (r, e) = token_end s q in (r, q, e, skip ws s e))"

definition peek :: "u8 list \<Rightarrow> nat \<Rightarrow> u8 list \<Rightarrow> nat \<times> bool" where
  "peek s i toks = (let i = skip ws s i in (i, ch_at s i \<noteq> 0 \<and> ch_at s i \<in> set toks))"

subsection \<open>Commands\<close>

datatype cmd = EXEC "(nat \<times> nat) list" | REDIR cmd nat nat int int | PIPE cmd cmd | LIST cmd cmd | BACK cmd

definition MAXARGS :: nat where "MAXARGS = 10"

text \<open>What a parser ends with: a value and the position after it, a call of \<open>panic\<close>, or no fuel.\<close>

datatype 'a pres = POk 'a nat | PPanic string | PFuel

primrec bindP :: "'a pres \<Rightarrow> ('a \<Rightarrow> nat \<Rightarrow> 'b pres) \<Rightarrow> 'b pres" where
  "bindP (POk x i) f = f x i"
| "bindP (PPanic msg) f = PPanic msg"
| "bindP PFuel f = PFuel"

type_synonym redir = "nat \<times> nat \<times> int \<times> int"

definition redir_of :: "u8 \<Rightarrow> nat \<Rightarrow> nat \<Rightarrow> redir list" where
  "redir_of tok q eq =
     (if tok = chr CHR ''<'' then [(q, eq, O_RDONLY_u, 0)]
      else if tok = chr CHR ''>'' then [(q, eq, O_WRONLY_u + O_CREATE_u, 1)]
      else if tok = chr CHR ''+'' then [(q, eq, O_WRONLY_u + O_CREATE_u, 1)]
      else [])"

definition add_redirs :: "cmd \<Rightarrow> redir list \<Rightarrow> cmd" where
  "add_redirs c rs = foldl (\<lambda>c (q, eq, mode, fd). REDIR c q eq mode fd) c rs"

lemma skip_ge: "i \<le> skip P s i" by (simp add: skip_def)

lemma skip_le: "i \<le> length s \<Longrightarrow> skip P s i \<le> length s"
  using length_takeWhile_le [of P "drop i s"] by (simp add: skip_def)

lemma skip_lt: "ch_at s (skip P s i) \<noteq> 0 \<Longrightarrow> skip P s i < length s"
  by (simp add: ch_at_def split: if_splits)

lemma skip_stop: "skip P s i < length s \<Longrightarrow> \<not> P (s ! skip P s i)"
  unfolding skip_def using nth_length_takeWhile [of P "drop i s"] by (cases "i \<le> length s") auto

lemma skip_in: "i \<le> k \<Longrightarrow> k < skip P s i \<Longrightarrow> k < length s \<and> P (s ! k)"
proof -
  assume k: "i \<le> k" "k < skip P s i"
  then have j: "k - i < length (takeWhile P (drop i s))" by (simp add: skip_def)
  then have "takeWhile P (drop i s) ! (k - i) = s ! k" using k length_takeWhile_le [of P "drop i s"] by (simp add: takeWhile_nth)
  moreover have "P (takeWhile P (drop i s) ! (k - i))" using j nth_mem set_takeWhileD by metis
  ultimately show ?thesis using j k length_takeWhile_le [of P "drop i s"] by simp
qed

lemma skip_skip [simp]: "skip P s (skip P s i) = skip P s i"
proof -
  have "\<not> skip P s i < skip P s (skip P s i)" using skip_in [of "skip P s i" "skip P s i" P s] skip_stop [of P s i] by blast
  then show ?thesis using skip_ge [of "skip P s i" P s] by simp
qed

lemma skip_first: "i < length s \<Longrightarrow> P (s ! i) \<Longrightarrow> i < skip P s i"
  by (simp add: skip_def) (metis Cons_nth_drop_Suc length_greater_0_conv list.discI takeWhile.simps(2))

lemma peek_pos: "peek s i toks = (j, b) \<Longrightarrow> i \<le> j \<and> j = skip ws s i \<and> (b \<longrightarrow> j < length s \<and> s ! j \<in> set toks \<and> ch_at s j \<noteq> 0)"
  using skip_ge [of i ws s] by (auto simp: peek_def Let_def ch_at_def split: if_splits)

text \<open>A token has at least one byte, unless the end of the line is reached.\<close>

lemma word_a: "chr CHR ''a'' \<noteq> (0 :: u8)"
  by simp

lemma symbol_bytes: "set symbols = insert (chr CHR ''>'') (set (bytes ''|();&<''))"
  by (auto simp: symbols_def bytes_def)

lemma token_end_pos:
  assumes "token_end s q = (r, e)" and "q \<le> length s" and "q < length s \<longrightarrow> \<not> ws (s ! q)"
  shows "e \<le> length s \<and> q \<le> e \<and> (ch_at s q \<noteq> 0 \<longrightarrow> q < e) \<and> (r = 0 \<longleftrightarrow> ch_at s q = 0)"
proof (cases "ch_at s q = 0")
  case True
  then show ?thesis using assms by (simp add: token_end_def)
next
  case False
  then have q: "q < length s" by (simp add: ch_at_def split: if_splits)
  show ?thesis
  proof (cases "sym (ch_at s q)")
    case True
    then show ?thesis using assms(1) q False
      by (auto simp: token_end_def Let_def symbol_bytes split: if_splits) (auto simp: ch_at_def split: if_splits)
  next
    case plain: False
    let ?P = "\<lambda>c. \<not> ws c \<and> \<not> sym c"
    have "ch_at s q = s ! q" using q by (simp add: ch_at_def)
    then have "q < skip ?P s q" using q plain assms(3) by (intro skip_first) auto
    moreover have "r = chr CHR ''a''" "e = skip ?P s q"
      using assms(1) False plain by (auto simp: token_end_def Let_def symbol_bytes)
    ultimately show ?thesis using skip_le [of q s ?P] q False by simp
  qed
qed

lemma gettoken_pos:
  assumes "gettoken s i = (r, q, e, k)" and "i \<le> length s"
  shows "i \<le> q \<and> q \<le> e \<and> e \<le> k \<and> k \<le> length s \<and> (r \<noteq> 0 \<longrightarrow> q < e) \<and> q = skip ws s i \<and> k = skip ws s e \<and>
    token_end s q = (r, e) \<and> (r = 0 \<longleftrightarrow> ch_at s q = 0)"
proof -
  have g: "q = skip ws s i" "token_end s q = (r, e)" "k = skip ws s e" using assms(1) by (auto simp: gettoken_def Let_def split: prod.splits)
  have q: "i \<le> q" "q \<le> length s" using g skip_ge skip_le assms(2) by auto
  have "q < length s \<longrightarrow> \<not> ws (s ! q)" using skip_stop [of ws s i] g(1) by simp
  from token_end_pos [OF g(2) q(2) this] show ?thesis using q g skip_ge [of e ws s] skip_le [of e s ws] by auto
qed

lemma peeked_token:
  assumes "peek s i toks = (j, True)" and "gettoken s j = (r, q, e, k)"
  shows "i \<le> j \<and> j < k \<and> k \<le> length s \<and> j < length s"
proof -
  have j: "i \<le> j" "j < length s" "j = skip ws s i" "ch_at s j \<noteq> 0" using peek_pos [OF assms(1)] by auto
  have "q = j" using gettoken_pos [OF assms(2)] j by simp
  then show ?thesis using gettoken_pos [OF assms(2)] j by auto
qed

function redirs_loop :: "u8 list \<Rightarrow> redir list \<Rightarrow> nat \<Rightarrow> redir list pres" where
  "redirs_loop s rs i =
     (let (i, b) = peek s i (bytes ''<>'')
      in if b then
           (let (tok, _, _, i) = gettoken s i; (t, q, eq, i) = gettoken s i
            in if t \<noteq> chr CHR ''a'' then PPanic ''missing file for redirection''
               else redirs_loop s (rs @ redir_of tok q eq) i)
         else POk rs i)"
  by pat_completeness auto
termination
proof (relation "measure (\<lambda>(s, rs, i). length s - i)", goal_cases)
  case (2 s rs i pk j b t1 tok r1 q1 r2 e1 k t2 t r3 q r4 eq l)
  then have p: "peek s i (bytes ''<>'') = (j, True)" and g: "gettoken s j = (tok, q1, e1, k)" "gettoken s k = (t, q, eq, l)"
    and t: "t \<noteq> 0" by (auto simp: word_a)
  have j: "i \<le> j" "j < length s" using peek_pos [OF p] by auto
  have k: "j \<le> k" "k \<le> length s" using gettoken_pos [OF g(1)] j by auto
  have "k < l" "l \<le> length s" using gettoken_pos [OF g(2)] k t by auto
  then show ?case using j k by simp
qed simp

function amps_loop :: "u8 list \<Rightarrow> cmd \<Rightarrow> nat \<Rightarrow> cmd \<times> nat" where
  "amps_loop s c i =
     (let (i, b) = peek s i (bytes ''&'')
      in if b then (let (_, _, _, i) = gettoken s i in amps_loop s (BACK c) i) else (c, i))"
  by pat_completeness auto
termination
proof (relation "measure (\<lambda>(s, c, i). length s - i)", goal_cases)
  case (2 s c i pk j b t1 tok r1 q1 r2 e1 k)
  then have p: "peek s i (bytes ''&'') = (j, True)" and g: "gettoken s j = (tok, q1, e1, k)" by auto
  show ?case using peeked_token [OF p g] by auto
qed simp

function args_loop :: "u8 list \<Rightarrow> (nat \<times> nat) list \<Rightarrow> redir list \<Rightarrow> nat \<Rightarrow> ((nat \<times> nat) list \<times> redir list) pres" where
  "args_loop s as rs i =
     (let (i, b) = peek s i (bytes ''|)&;'')
      in if b then POk (as, rs) i
         else
           (let (tok, q, eq, i) = gettoken s i
            in if tok = 0 then POk (as, rs) i
               else if tok \<noteq> chr CHR ''a'' then PPanic ''syntax''
               else if length as + 1 \<ge> MAXARGS then PPanic ''too many args''
               else bindP (redirs_loop s rs i) (args_loop s (as @ [(q, eq)]))))"
  by pat_completeness auto
termination
  by (relation "measure (\<lambda>(s, as, rs, i). MAXARGS - length as)") auto

declare redirs_loop.simps [simp del] amps_loop.simps [simp del] args_loop.simps [simp del]

text \<open>\<open>parseredirs\<close> and the parsers.\<close>

definition parseredirs :: "cmd \<Rightarrow> u8 list \<Rightarrow> nat \<Rightarrow> cmd pres" where
  "parseredirs c s i = bindP (redirs_loop s [] i) (\<lambda>rs. POk (add_redirs c rs))"

text \<open>\<open>pl\<close> is the parser for a line, which a block contains.\<close>

definition parseblock :: "(u8 list \<Rightarrow> nat \<Rightarrow> cmd pres) \<Rightarrow> u8 list \<Rightarrow> nat \<Rightarrow> cmd pres" where
  "parseblock pl s i =
     (let (i, b) = peek s i (bytes ''('')
      in if \<not> b then PPanic ''parseblock''
         else
           (let (_, _, _, i) = gettoken s i
            in bindP (pl s i) (\<lambda>c i.
                 let (i, b) = peek s i (bytes '')'')
                 in if \<not> b then PPanic ''syntax - missing )''
                    else (let (_, _, _, i) = gettoken s i in parseredirs c s i))))"

definition parseexec :: "(u8 list \<Rightarrow> nat \<Rightarrow> cmd pres) \<Rightarrow> u8 list \<Rightarrow> nat \<Rightarrow> cmd pres" where
  "parseexec pl s i =
     (let (i, b) = peek s i (bytes ''('')
      in if b then parseblock pl s i
         else
           bindP (redirs_loop s [] i) (\<lambda>rs i.
           bindP (args_loop s [] rs i) (\<lambda>(as, rs). POk (add_redirs (EXEC as) rs))))"

primrec parsepipe :: "nat \<Rightarrow> (u8 list \<Rightarrow> nat \<Rightarrow> cmd pres) \<Rightarrow> u8 list \<Rightarrow> nat \<Rightarrow> cmd pres" where
  "parsepipe 0 pl s i = PFuel"
| "parsepipe (Suc n) pl s i =
     bindP (parseexec pl s i) (\<lambda>c i.
       let (i, b) = peek s i (bytes ''|'')
       in if b then (let (_, _, _, i) = gettoken s i in bindP (parsepipe n pl s i) (\<lambda>d. POk (PIPE c d))) else POk c i)"

primrec parseline :: "nat \<Rightarrow> u8 list \<Rightarrow> nat \<Rightarrow> cmd pres" where
  "parseline 0 s i = PFuel"
| "parseline (Suc n) s i =
     bindP (parsepipe n (parseline n) s i) (\<lambda>c i.
       let (c, i) = amps_loop s c i; (i, b) = peek s i (bytes '';'')
       in if b then (let (_, _, _, i) = gettoken s i in bindP (parseline n s i) (\<lambda>d. POk (LIST c d))) else POk c i)"

text \<open>Fuel enough for a line of the given length.\<close>

definition parse_fuel :: "u8 list \<Rightarrow> nat" where
  "parse_fuel s = length s + 2"

subsection \<open>Running commands\<close>

primrec nulterminate :: "cmd \<Rightarrow> u8 list \<Rightarrow> u8 list" where
  "nulterminate (EXEC as) buf = fold (\<lambda>(q, eq) buf. buf[eq := 0]) as buf"
| "nulterminate (REDIR c q eq mode fd) buf = (nulterminate c buf)[eq := 0]"
| "nulterminate (PIPE l r) buf = nulterminate r (nulterminate l buf)"
| "nulterminate (LIST l r) buf = nulterminate r (nulterminate l buf)"
| "nulterminate (BACK c) buf = nulterminate c buf"

definition cstr_at :: "u8 list \<Rightarrow> nat \<Rightarrow> u8 list" where
  "cstr_at buf q = takeWhile (\<lambda>c. c \<noteq> 0) (drop q buf)"

definition sh_panic :: "string \<Rightarrow> 'a uprog" where
  "sh_panic msg = thenU (printf_s 2 ''%s\<newline>'' [pstr (bytes msg)]) uexit"

definition fork1 :: "int uprog" where
  "fork1 = bindU (icall UFork) (\<lambda>pid. if pid = -1 then sh_panic ''fork'' else ret pid)"

text \<open>\<open>parsecmd\<close>: the command and the buffer with the NULs that \<open>nulterminate\<close> wrote.\<close>

definition parsecmd :: "u8 list \<Rightarrow> (cmd \<times> u8 list) uprog" where
  "parsecmd buf =
     (let s = takeWhile (\<lambda>c. c \<noteq> 0) buf
      in case parseline (parse_fuel s) s 0 of
           PFuel \<Rightarrow> crash ''loop''
         | PPanic msg \<Rightarrow> sh_panic msg
         | POk c i \<Rightarrow>
             (let i = fst (peek s i [])
              in if i \<noteq> length s then thenU (printf_s 2 ''leftovers: %s\<newline>'' [pstr (drop i s)]) (sh_panic ''syntax'')
                 else ret (c, nulterminate c buf)))"

definition pipe_u :: "(int \<times> int) option uprog" where
  "pipe_u =
     bindU (syscall_u UPipe) (\<lambda>r.
       case r of RPipe a b \<Rightarrow> ret (Some (a, b)) | _ \<Rightarrow> if resp_int r < 0 then ret None else crash ''pipe'')"

text \<open>\<open>runcmd\<close> never returns. A successful \<open>exec\<close> has no answer.\<close>

primrec runcmd :: "u8 list \<Rightarrow> cmd \<Rightarrow> unit uprog" where
  "runcmd buf (EXEC as) =
     (case as of
        [] \<Rightarrow> uexit
      | (q, eq) # _ \<Rightarrow>
          thenU (icall (UExec (cstr_at buf q) (map (\<lambda>(q, eq). cstr_at buf q) as))) (
          thenU (printf_s 2 ''exec %s failed\<newline>'' [pstr (cstr_at buf q)]) uexit))"
| "runcmd buf (REDIR c q eq mode fd) =
     thenU (icall (UClose fd)) (
     bindU (icall (UOpen (cstr_at buf q) mode)) (\<lambda>r.
       if r < 0 then thenU (printf_s 2 ''open %s failed\<newline>'' [pstr (cstr_at buf q)]) uexit
       else runcmd buf c))"
| "runcmd buf (LIST l r) =
     bindU fork1 (\<lambda>pid. if pid = 0 then runcmd buf l else thenU (icall UWait) (runcmd buf r))"
| "runcmd buf (PIPE l r) =
     bindU pipe_u (\<lambda>p.
       case p of
         None \<Rightarrow> sh_panic ''pipe''
       | Some (p0, p1) \<Rightarrow>
           bindU fork1 (\<lambda>pid.
             if pid = 0 then
               thenU (icall (UClose 1)) (thenU (icall (UDup p1)) (thenU (icall (UClose p0)) (thenU (icall (UClose p1)) (runcmd buf l))))
             else
               bindU fork1 (\<lambda>pid.
                 if pid = 0 then
                   thenU (icall (UClose 0)) (thenU (icall (UDup p0)) (thenU (icall (UClose p0)) (thenU (icall (UClose p1)) (runcmd buf r))))
                 else
                   thenU (icall (UClose p0)) (thenU (icall (UClose p1)) (thenU (icall UWait) (thenU (icall UWait) uexit))))))"
| "runcmd buf (BACK c) = bindU fork1 (\<lambda>pid. if pid = 0 then runcmd buf c else uexit)"

subsection \<open>The main loop\<close>

text \<open>\<open>gets\<close> as the shell calls it: the bytes of the line, one call of \<open>read\<close> for each, \<open>n\<close> of them at most.\<close>

primrec gets_u :: "nat \<Rightarrow> u8 list \<Rightarrow> u8 list uprog" where
  "gets_u 0 line = ret line"
| "gets_u (Suc n) line =
     bindU (do_read 0 1) (\<lambda>(cc, bs).
       if cc < 1 then ret line
       else if hd bs = 10 \<or> hd bs = 13 then ret (line @ bs) else gets_u n (line @ bs))"

text \<open>\<open>getcmd\<close>: the buffer, filled up with NULs, or nothing at the end of the input.\<close>

definition getcmd :: "nat \<Rightarrow> u8 list option uprog" where
  "getcmd nbuf =
     thenU (printf_s 2 ''$ '' []) (
     bindU (gets_u (nbuf - 1) []) (\<lambda>line.
       let buf = line @ replicate (nbuf - length line) 0
       in ret (if hd buf = 0 then None else Some buf)))"

definition open_body :: "unit \<Rightarrow> (unit + unit) uprog" where
  "open_body _ =
     bindU (icall (UOpen (bytes ''console'') O_RDWR_u)) (\<lambda>fd.
       if fd \<ge> 3 then thenU (icall (UClose fd)) (ret (Inr ())) else if fd \<ge> 0 then ret (Inl ()) else ret (Inr ()))"

definition sh_body :: "unit \<Rightarrow> (unit + unit) uprog" where
  "sh_body _ =
     bindU (getcmd 100) (\<lambda>line.
       case line of
         None \<Rightarrow> ret (Inr ())
       | Some buf \<Rightarrow>
           if take 3 buf = bytes ''cd '' then
             (let buf = buf[length (takeWhile (\<lambda>c. c \<noteq> 0) buf) - 1 := 0]
              in bindU (icall (UChdir (cstr_at buf 3))) (\<lambda>r.
                   thenU (if r < 0 then printf_s 2 ''cannot cd %s\<newline>'' [pstr (cstr_at buf 3)] else ret ()) (ret (Inl ()))))
           else
             bindU fork1 (\<lambda>pid.
               if pid = 0 then bindU (parsecmd buf) (\<lambda>(c, buf). thenU (runcmd buf c) (ret (Inr ())))
               else thenU (icall UWait) (ret (Inl ()))))"

definition sh_main :: "unit uprog" where
  "sh_main = thenU (uwhile open_body ()) (thenU (uwhile sh_body ()) uexit)"

subsection \<open>Every line is parsed\<close>

abbreviation plain :: "u8 \<Rightarrow> bool" where "plain c \<equiv> \<not> ws c \<and> \<not> sym c"

text \<open>A token is a non-empty maximal run of bytes that are neither white space nor symbols.\<close>

definition tok_ok :: "u8 list \<Rightarrow> nat \<times> nat \<Rightarrow> bool" where
  "tok_ok s t \<longleftrightarrow> fst t < snd t \<and> snd t \<le> length s \<and> (\<forall>k. fst t \<le> k \<and> k < snd t \<longrightarrow> plain (s ! k)) \<and>
     (snd t < length s \<longrightarrow> \<not> plain (s ! snd t))"

definition redir_ok :: "u8 list \<Rightarrow> redir \<Rightarrow> bool" where
  "redir_ok s r = (case r of (q, eq, mode, fd) \<Rightarrow> tok_ok s (q, eq) \<and> (mode, fd) \<in> {(O_RDONLY_u, 0), (O_WRONLY_u + O_CREATE_u, 1)})"

primrec cmd_ok :: "u8 list \<Rightarrow> cmd \<Rightarrow> bool" where
  "cmd_ok s (EXEC as) \<longleftrightarrow> length as < MAXARGS \<and> (\<forall>t \<in> set as. tok_ok s t)"
| "cmd_ok s (REDIR c q eq mode fd) \<longleftrightarrow> cmd_ok s c \<and> redir_ok s (q, eq, mode, fd)"
| "cmd_ok s (PIPE l r) \<longleftrightarrow> cmd_ok s l \<and> cmd_ok s r"
| "cmd_ok s (LIST l r) \<longleftrightarrow> cmd_ok s l \<and> cmd_ok s r"
| "cmd_ok s (BACK c) \<longleftrightarrow> cmd_ok s c"

text \<open>A result that is not for want of fuel, at a position of the line from \<open>i\<close> on, with a value that is right.\<close>

definition good :: "u8 list \<Rightarrow> nat \<Rightarrow> ('a \<Rightarrow> bool) \<Rightarrow> 'a pres \<Rightarrow> bool" where
  "good s i R r \<longleftrightarrow> (case r of POk x k \<Rightarrow> i \<le> k \<and> k \<le> length s \<and> R x | PPanic msg \<Rightarrow> True | PFuel \<Rightarrow> False)"

lemma good_simps [simp]:
  "good s i R (POk x k) \<longleftrightarrow> i \<le> k \<and> k \<le> length s \<and> R x" "good s i R (PPanic msg)" "\<not> good s i R PFuel"
  by (simp_all add: good_def)

lemma good_bind:
  assumes "good s i R r" and "\<And>x k. i \<le> k \<Longrightarrow> k \<le> length s \<Longrightarrow> R x \<Longrightarrow> good s k Q (f x k)"
  shows "good s i Q (bindP r f)"
proof (cases r)
  case (POk x k)
  then have "good s k Q (f x k)" "i \<le> k" using assms by auto
  then show ?thesis using POk by (cases "f x k") auto
qed (use assms(1) in simp_all)

lemma good_mono: "good s j R r \<Longrightarrow> i \<le> j \<Longrightarrow> good s i R r"
  by (cases r) auto

lemma token_a:
  assumes "gettoken s i = (chr CHR ''a'', q, e, k)" and "i \<le> length s"
  shows "tok_ok s (q, e)"
proof -
  have g: "q < e" "e \<le> length s" "token_end s q = (chr CHR ''a'', e)" using gettoken_pos [OF assms] by auto
  have e: "e = skip plain s q" using g(3) by (auto simp: token_end_def Let_def bytes_def split: if_splits)
  show ?thesis unfolding tok_ok_def fst_conv snd_conv
    using g(1,2) skip_in [of q _ plain s] skip_stop [of plain s q] by (auto simp flip: e)
qed

lemma redir_of_ok: "tok_ok s (q, eq) \<Longrightarrow> r \<in> set (redir_of tok q eq) \<Longrightarrow> redir_ok s r"
  by (auto simp: redir_of_def redir_ok_def split: if_splits)

lemma redirs_good:
  "i \<le> length s \<Longrightarrow> \<forall>r \<in> set rs. redir_ok s r \<Longrightarrow> good s i (\<lambda>rs. \<forall>r \<in> set rs. redir_ok s r) (redirs_loop s rs i)"
proof (induction s rs i rule: redirs_loop.induct)
  case (1 s rs i)
  obtain j b where p: "peek s i (bytes ''<>'') = (j, b)" by fastforce
  show ?case
  proof (cases b)
    case False
    then show ?thesis using p 1 skip_le [of i s ws] peek_pos [OF p] by (subst redirs_loop.simps) simp
  next
    case True
    obtain tok q1 e1 k where g1: "gettoken s j = (tok, q1, e1, k)" by (metis prod.exhaust)
    obtain t q eq l where g2: "gettoken s k = (t, q, eq, l)" by (metis prod.exhaust)
    have j: "i \<le> j" "j < k" "k \<le> length s" using peeked_token [OF _ g1, of i] p True by auto
    have l: "k \<le> l" "l \<le> length s" using gettoken_pos [OF g2 j(3)] by auto
    show ?thesis
    proof (cases "t = chr CHR ''a''")
      case False
      then show ?thesis using p True g1 g2 by (subst redirs_loop.simps) simp
    next
      case ta: True
      have "tok_ok s (q, eq)" using token_a g2 ta j(3) by blast
      then have "\<forall>r \<in> set (rs @ redir_of tok q eq). redir_ok s r" using 1(3) redir_of_ok by auto
      then have "good s l (\<lambda>rs. \<forall>r \<in> set rs. redir_ok s r) (redirs_loop s (rs @ redir_of tok q eq) l)"
        using 1(1) [OF p [symmetric] refl True g1 [symmetric] refl refl refl g2 [symmetric] refl refl refl] l ta by blast
      then have "good s i (\<lambda>rs. \<forall>r \<in> set rs. redir_ok s r) (redirs_loop s (rs @ redir_of tok q eq) l)"
        by (rule good_mono) (use j l in simp)
      moreover have "redirs_loop s rs i = redirs_loop s (rs @ redir_of tok q eq) l"
        using p True g1 g2 ta by (subst redirs_loop.simps) simp
      ultimately show ?thesis by simp
    qed
  qed
qed

lemma amps_good: "i \<le> length s \<Longrightarrow> cmd_ok s c \<Longrightarrow> amps_loop s c i = (d, k) \<Longrightarrow> i \<le> k \<and> k \<le> length s \<and> cmd_ok s d"
proof (induction s c i rule: amps_loop.induct)
  case (1 s c i)
  obtain j b where p: "peek s i (bytes ''&'') = (j, b)" by fastforce
  show ?case
  proof (cases b)
    case False
    then show ?thesis using p 1 skip_le [of i s ws] peek_pos [OF p] by (subst (asm) (2) amps_loop.simps) simp
  next
    case True
    obtain tok q e l where g: "gettoken s j = (tok, q, e, l)" by (metis prod.exhaust)
    have j: "i \<le> j" "j < l" "l \<le> length s" using peeked_token [OF _ g, of i] p True by auto
    have "amps_loop s (BACK c) l = (d, k)" using 1(4) p True g by (subst (asm) amps_loop.simps) simp
    then show ?thesis using 1(1) [OF p [symmetric] refl True g [symmetric] refl refl refl] 1(3) j by fastforce
  qed
qed

lemma args_good:
  "i \<le> length s \<Longrightarrow> \<forall>r \<in> set rs. redir_ok s r \<Longrightarrow> \<forall>t \<in> set as. tok_ok s t \<Longrightarrow> length as < MAXARGS \<Longrightarrow>
   good s i (\<lambda>(as, rs). (\<forall>r \<in> set rs. redir_ok s r) \<and> (\<forall>t \<in> set as. tok_ok s t) \<and> length as < MAXARGS) (args_loop s as rs i)"
proof (induction s as rs i rule: args_loop.induct)
  case (1 s as rs i)
  let ?R = "\<lambda>(as, rs). (\<forall>r \<in> set rs. redir_ok s r) \<and> (\<forall>t \<in> set as. tok_ok s t) \<and> length as < MAXARGS"
  obtain j b where p: "peek s i (bytes ''|)&;'') = (j, b)" by fastforce
  have j: "i \<le> j" "j \<le> length s" using peek_pos [OF p] skip_le [of i s ws] 1(2) by auto
  obtain tok q eq k where g: "gettoken s j = (tok, q, eq, k)" by (metis prod.exhaust)
  have k: "j \<le> k" "k \<le> length s" using gettoken_pos [OF g j(2)] by auto
  consider "b" | "\<not> b" "tok = 0" | "\<not> b" "tok \<noteq> 0" "tok \<noteq> chr CHR ''a''" | "\<not> b" "tok = chr CHR ''a''" "length as + 1 \<ge> MAXARGS"
    | "\<not> b" "tok = chr CHR ''a''" "\<not> length as + 1 \<ge> MAXARGS" by blast
  then show ?case
  proof cases
    case 5
    have t: "tok_ok s (q, eq)" using token_a g 5 j by blast
    have "good s k ?R (bindP (redirs_loop s rs k) (args_loop s (as @ [(q, eq)])))"
    proof (rule good_bind [OF redirs_good [OF k(2) 1(3)]])
      fix rs' l
      assume "k \<le> l" "l \<le> length s" "\<forall>r \<in> set rs'. redir_ok s r"
      then show "good s l ?R (args_loop s (as @ [(q, eq)]) rs' l)"
        using 1(1) [OF p [symmetric] refl 5(1) g [symmetric] refl refl refl _ _ 5(3)] 5 t 1(4) by auto
    qed
    then have "good s i ?R (bindP (redirs_loop s rs k) (args_loop s (as @ [(q, eq)])))"
      by (rule good_mono) (use j k in simp)
    moreover have "args_loop s as rs i = bindP (redirs_loop s rs k) (args_loop s (as @ [(q, eq)]))"
      using p g 5 by (subst args_loop.simps) simp
    ultimately show ?thesis by simp
  qed (use p g 1 j k in \<open>subst args_loop.simps, simp\<close>)+
qed

lemma add_redirs_ok: "cmd_ok s c \<Longrightarrow> \<forall>r \<in> set rs. redir_ok s r \<Longrightarrow> cmd_ok s (add_redirs c rs)"
  by (induction rs arbitrary: c) (auto simp: add_redirs_def)

lemma parseblock_good:
  assumes "i \<le> length s" and "\<And>k. i < k \<Longrightarrow> k \<le> length s \<Longrightarrow> good s k (cmd_ok s) (pl s k)"
  shows "good s i (cmd_ok s) (parseblock pl s i)"
proof -
  obtain j b where p: "peek s i (bytes ''('') = (j, b)" by fastforce
  obtain tok q eq k where g: "gettoken s j = (tok, q, eq, k)" by (metis prod.exhaust)
  show ?thesis
  proof (cases b)
    case True
    then have k: "i \<le> j" "j < k" "k \<le> length s" using peeked_token [OF _ g, of i] p by auto
    have "good s k (cmd_ok s) (bindP (pl s k) (\<lambda>c i.
       let (i, b) = peek s i (bytes '')'') in if \<not> b then PPanic ''syntax - missing )''
         else (let (_, _, _, i) = gettoken s i in parseredirs c s i)))"
    proof (rule good_bind)
      show "good s k (cmd_ok s) (pl s k)" using assms(2) k by simp
      fix c l assume l: "l \<le> length s" "cmd_ok s c"
      obtain j' b' where p': "peek s l (bytes '')'') = (j', b')" by fastforce
      obtain tok' q' eq' k' where g': "gettoken s j' = (tok', q', eq', k')" by (metis prod.exhaust)
      have "l \<le> k' \<and> k' \<le> length s" if b' using peeked_token [OF _ g', of l "bytes '')''"] p' that by simp
      moreover from this have "good s k' (cmd_ok s) (parseredirs c s k')" if b'
        unfolding parseredirs_def using that l by (auto intro!: good_bind redirs_good add_redirs_ok)
      ultimately show "good s l (cmd_ok s) (let (i, b) = peek s l (bytes '')'') in if \<not> b then PPanic ''syntax - missing )''
         else (let (_, _, _, i) = gettoken s i in parseredirs c s i))"
        using p' g' good_mono by (cases b') auto
    qed
    then have "good s i (cmd_ok s) (bindP (pl s k) (\<lambda>c i.
       let (i, b) = peek s i (bytes '')'') in if \<not> b then PPanic ''syntax - missing )''
         else (let (_, _, _, i) = gettoken s i in parseredirs c s i)))"
      by (rule good_mono) (use k in simp)
    then show ?thesis using p g True by (simp add: parseblock_def)
  qed (use p in \<open>simp add: parseblock_def\<close>)
qed

lemma parseexec_good:
  assumes "i \<le> length s" and "\<And>k. i < k \<Longrightarrow> k \<le> length s \<Longrightarrow> good s k (cmd_ok s) (pl s k)"
  shows "good s i (cmd_ok s) (parseexec pl s i)"
proof -
  obtain j b where p: "peek s i (bytes ''('') = (j, b)" by fastforce
  have j: "i \<le> j" "j \<le> length s" using peek_pos [OF p] skip_le [of i s ws] assms(1) by auto
  have "good s j (cmd_ok s) (parseexec pl s i)"
  proof (cases b)
    case True
    then show ?thesis using p j assms(2) parseblock_good [of j s pl] by (simp add: parseexec_def)
  next
    case False
    have "good s j (cmd_ok s) (bindP (redirs_loop s [] j) (\<lambda>rs i. bindP (args_loop s [] rs i) (\<lambda>(as, rs). POk (add_redirs (EXEC as) rs))))"
      using j by (auto intro!: good_bind [OF redirs_good] good_bind [OF args_good] add_redirs_ok simp: MAXARGS_def)
    then show ?thesis using p False by (simp add: parseexec_def)
  qed
  then show ?thesis by (rule good_mono [OF _ j(1)])
qed

lemma parsepipe_good:
  "i \<le> length s \<Longrightarrow> (\<And>k. i < k \<Longrightarrow> k \<le> length s \<Longrightarrow> good s k (cmd_ok s) (pl s k)) \<Longrightarrow> length s - i < n \<Longrightarrow>
   good s i (cmd_ok s) (parsepipe n pl s i)"
proof (induction n arbitrary: i)
  case (Suc n)
  have "good s i (cmd_ok s) (bindP (parseexec pl s i) (\<lambda>c i. let (i, b) = peek s i (bytes ''|'')
       in if b then (let (_, _, _, i) = gettoken s i in bindP (parsepipe n pl s i) (\<lambda>d. POk (PIPE c d))) else POk c i))"
  proof (rule good_bind [OF parseexec_good])
    fix c l assume l: "i \<le> l" "l \<le> length s" "cmd_ok s c"
    obtain j b where p: "peek s l (bytes ''|'') = (j, b)" by fastforce
    obtain tok q eq k where g: "gettoken s j = (tok, q, eq, k)" by (metis prod.exhaust)
    have j: "l \<le> j" "j \<le> length s" using peek_pos [OF p] skip_le [of l s ws] l(2) by auto
    have "good s l (cmd_ok s) (bindP (parsepipe n pl s k) (\<lambda>d. POk (PIPE c d)))" if b
    proof -
      have k: "j < k" "k \<le> length s" using peeked_token [OF _ g, of l "bytes ''|''"] p that by auto
      have "good s k (cmd_ok s) (parsepipe n pl s k)" by (rule Suc.IH) (use Suc.prems k j l in auto)
      then have "good s k (cmd_ok s) (bindP (parsepipe n pl s k) (\<lambda>d. POk (PIPE c d)))" by (rule good_bind) (use l in auto)
      then show ?thesis by (rule good_mono) (use j k in simp)
    qed
    then show "good s l (cmd_ok s) (let (i, b) = peek s l (bytes ''|'')
       in if b then (let (_, _, _, i) = gettoken s i in bindP (parsepipe n pl s i) (\<lambda>d. POk (PIPE c d))) else POk c i)"
      using p g j l by simp
  qed (use Suc.prems in auto)
  then show ?case by simp
qed simp

lemma parseline_good: "i \<le> length s \<Longrightarrow> length s - i + 1 < n \<Longrightarrow> good s i (cmd_ok s) (parseline n s i)"
proof (induction n arbitrary: i)
  case (Suc n)
  have "good s i (cmd_ok s) (bindP (parsepipe n (parseline n) s i) (\<lambda>c i. let (c, i) = amps_loop s c i; (i, b) = peek s i (bytes '';'')
       in if b then (let (_, _, _, i) = gettoken s i in bindP (parseline n s i) (\<lambda>d. POk (LIST c d))) else POk c i))"
  proof (rule good_bind [OF parsepipe_good])
    show "good s k (cmd_ok s) (parseline n s k)" if "i < k" "k \<le> length s" for k by (rule Suc.IH) (use Suc.prems that in auto)
    fix c0 l0 assume l0: "i \<le> l0" "l0 \<le> length s" "cmd_ok s c0"
    obtain c l where a: "amps_loop s c0 l0 = (c, l)" by fastforce
    then have l: "l0 \<le> l" "l \<le> length s" "cmd_ok s c" using amps_good [OF l0(2,3)] by auto
    obtain j b where p: "peek s l (bytes '';'') = (j, b)" by fastforce
    obtain tok q eq k where g: "gettoken s j = (tok, q, eq, k)" by (metis prod.exhaust)
    have j: "l \<le> j" "j \<le> length s" using peek_pos [OF p] skip_le [of l s ws] l(2) by auto
    have "good s l0 (cmd_ok s) (bindP (parseline n s k) (\<lambda>d. POk (LIST c d)))" if b
    proof -
      have k: "j < k" "k \<le> length s" using peeked_token [OF _ g, of l "bytes '';''"] p that by auto
      have "good s k (cmd_ok s) (parseline n s k)" by (rule Suc.IH) (use Suc.prems k j l l0 in auto)
      then have "good s k (cmd_ok s) (bindP (parseline n s k) (\<lambda>d. POk (LIST c d)))" by (rule good_bind) (use l in auto)
      then show ?thesis by (rule good_mono) (use j k l in simp)
    qed
    then show "good s l0 (cmd_ok s) (let (c, i) = amps_loop s c0 l0; (i, b) = peek s i (bytes '';'')
       in if b then (let (_, _, _, i) = gettoken s i in bindP (parseline n s i) (\<lambda>d. POk (LIST c d))) else POk c i)"
      using a p g j l by simp
  qed (use Suc.prems in auto)
  then show ?case by simp
qed simp

subsection \<open>The strings of a command\<close>

text \<open>A command with its strings in place of positions.\<close>

datatype scmd = SExec "u8 list list" | SRedir scmd "u8 list" int int | SPipe scmd scmd | SList scmd scmd | SBack scmd

primrec resolve :: "(nat \<times> nat \<Rightarrow> u8 list) \<Rightarrow> cmd \<Rightarrow> scmd" where
  "resolve f (EXEC as) = SExec (map f as)"
| "resolve f (REDIR c q eq mode fd) = SRedir (resolve f c) (f (q, eq)) mode fd"
| "resolve f (PIPE l r) = SPipe (resolve f l) (resolve f r)"
| "resolve f (LIST l r) = SList (resolve f l) (resolve f r)"
| "resolve f (BACK c) = SBack (resolve f c)"

definition tok_str :: "u8 list \<Rightarrow> nat \<times> nat \<Rightarrow> u8 list" where
  "tok_str s t = take (snd t - fst t) (drop (fst t) s)"

primrec toks :: "cmd \<Rightarrow> (nat \<times> nat) set" where
  "toks (EXEC as) = set as"
| "toks (REDIR c q eq mode fd) = insert (q, eq) (toks c)"
| "toks (PIPE l r) = toks l \<union> toks r"
| "toks (LIST l r) = toks l \<union> toks r"
| "toks (BACK c) = toks c"

lemma cmd_ok_toks: "cmd_ok s c \<Longrightarrow> t \<in> toks c \<Longrightarrow> tok_ok s t"
  by (induction c) (auto simp: redir_ok_def)

lemma resolve_cong: "(\<And>t. t \<in> toks c \<Longrightarrow> f t = g t) \<Longrightarrow> resolve f c = resolve g c"
  by (induction c) auto

lemma nul_args:
  "length (fold (\<lambda>(q, eq) buf. buf[eq := 0]) as buf) = length buf \<and>
   (k < length buf \<longrightarrow> fold (\<lambda>(q, eq) buf. buf[eq := 0]) as buf ! k = (if \<exists>q. (q, k) \<in> set as then 0 else buf ! k))"
proof (induction as arbitrary: buf)
  case (Cons t as)
  obtain q e where t: "t = (q, e)" by fastforce
  show ?case using Cons [of "buf[e := 0]"] t by (cases "e = k") auto
qed simp

lemma nulterminate_nth:
  "length (nulterminate c buf) = length buf \<and>
   (k < length buf \<longrightarrow> nulterminate c buf ! k = (if \<exists>q. (q, k) \<in> toks c then 0 else buf ! k))"
proof (induction c arbitrary: buf)
  case (EXEC as)
  show ?case using nul_args [of as buf k] by simp
next
  case (REDIR c q eq mode fd)
  show ?case using REDIR [of buf] by (cases "eq = k") auto
next
  case (PIPE l r)
  show ?case using PIPE(1) [of buf] PIPE(2) [of "nulterminate l buf"] by auto
next
  case (LIST l r)
  show ?case using LIST(1) [of buf] LIST(2) [of "nulterminate l buf"] by auto
qed simp

lemma cstr_at_tok:
  assumes "tok_ok s t" and "0 \<notin> set s" and buf: "length s < length buf" "\<And>k. k < length s \<Longrightarrow> buf ! k = (if k \<in> E then 0 else s ! k)"
    and z: "buf ! snd t = 0" and E: "\<And>k. k \<in> E \<Longrightarrow> k < length s \<Longrightarrow> \<not> plain (s ! k)"
  shows "cstr_at buf (fst t) = tok_str s t"
proof -
  obtain q e where t: "t = (q, e)" by fastforce
  have qe: "q < e" "e \<le> length s" "\<And>k. q \<le> k \<Longrightarrow> k < e \<Longrightarrow> plain (s ! k)" using assms(1) t by (auto simp: tok_ok_def)
  have same: "buf ! k = s ! k" if "q \<le> k" "k < e" for k using buf(2) [of k] E [of k] qe that by auto
  have nz: "s ! k \<noteq> 0" if "k < e" for k using assms(2) qe that by (metis less_le_trans nth_mem)
  let ?w = "take (e - q) (drop q buf)"
  have "drop (e - q) (drop q buf) = drop e buf" using qe by simp
  also have "drop e buf = buf ! e # drop (Suc e) buf" using qe buf(1) by (intro Cons_nth_drop_Suc [symmetric]) simp
  finally have "drop (e - q) (drop q buf) = 0 # drop (Suc e) buf" using z t by simp
  then have d: "drop q buf = ?w @ 0 # drop (Suc e) buf" using append_take_drop_id [of "e - q" "drop q buf"] by simp
  have w: "?w = take (e - q) (drop q s)" by (rule nth_equalityI) (use qe buf(1) same in auto)
  have "x \<noteq> 0" if "x \<in> set (take (e - q) (drop q s))" for x using assms(2) that in_set_takeD in_set_dropD by metis
  then have "takeWhile (\<lambda>c. c \<noteq> 0) (?w @ 0 # drop (Suc e) buf) = ?w" unfolding w by (subst takeWhile_append2) auto
  then have "cstr_at buf q = ?w" unfolding cstr_at_def using d by simp
  then show ?thesis using w t by (simp add: tok_str_def)
qed

lemma nulterminate_strings:
  assumes c: "cmd_ok s c" and s: "s = takeWhile (\<lambda>c. c \<noteq> 0) buf" and z: "0 \<in> set buf"
  shows "resolve (\<lambda>t. cstr_at (nulterminate c buf) (fst t)) c = resolve (tok_str s) c"
proof (rule resolve_cong)
  fix t assume t: "t \<in> toks c"
  let ?E = "{k. \<exists>q. (q, k) \<in> toks c}"
  have len: "length s < length buf" unfolding s using z by (induction buf) auto
  have "0 \<notin> set s" using s set_takeWhileD by fastforce
  moreover have "nulterminate c buf ! k = (if k \<in> ?E then 0 else s ! k)" if "k < length s" for k
    using nulterminate_nth [of c buf k] that len s takeWhile_nth [of k "\<lambda>c. c \<noteq> 0" buf] by simp
  moreover have "snd t \<le> length s" using cmd_ok_toks [OF c t] by (simp add: tok_ok_def)
  then have "nulterminate c buf ! snd t = 0" using nulterminate_nth [of c buf "snd t"] len t by (cases t) auto
  moreover have "\<not> plain (s ! k)" if "k \<in> ?E" "k < length s" for k
    using that cmd_ok_toks [OF c] by (fastforce simp: tok_ok_def)
  moreover have "length s < length (nulterminate c buf)" using nulterminate_nth [of c buf] len by simp
  ultimately show "cstr_at (nulterminate c buf) (fst t) = tok_str s t"
    using cmd_ok_toks [OF c t] by (intro cstr_at_tok [where E = ?E]) auto
qed

lemma puts_no_crash [simp]: "putc fd c st \<noteq> Crash e" "puts_u fd cs st \<noteq> Crash e"
proof -
  show p: "putc fd c st \<noteq> Crash e" for fd c st by (simp add: putc_def bindU_Crash ret_def)
  show "puts_u fd cs st \<noteq> Crash e" by (induction cs arbitrary: st) (auto simp: bindU_Crash ret_def p)
qed

lemma put_num_no_loop [simp]: "put_num fd r st \<noteq> Crash ''loop''"
  by (cases r) (simp_all add: put_num_def crash_def)

definition no_loop :: "'a uprog \<Rightarrow> bool" where
  "no_loop p \<longleftrightarrow> (\<forall>st. p st \<noteq> Crash ''loop'')"

lemma no_loop_intros:
  "no_loop (ret x)" "msg \<noteq> ''loop'' \<Longrightarrow> no_loop (crash msg)" "no_loop p \<Longrightarrow> (\<And>x. no_loop (f x)) \<Longrightarrow> no_loop (bindU p f)"
  "no_loop (putc fd c)" "no_loop (puts_u fd cs)" "no_loop (put_num fd r)"
  by (auto simp: no_loop_def ret_def crash_def bindU_Crash)

lemma printf_no_loop: "no_loop (printf fd fmt args)"
proof (induction fmt arbitrary: args rule: length_induct)
  case (1 fmt)
  show ?case
  proof (cases fmt)
    case (Cons c fmt1)
    have ih: "no_loop (printf fd fmt2 args)" if "fmt1 = d # fmt2" for d fmt2 args
      using 1 Cons that by (simp del: printf.simps)
    have ih1: "no_loop (printf fd fmt1 args)" for args using 1 Cons by (simp del: printf.simps)
    show ?thesis
    proof (cases fmt1)
      case Nil
      then show ?thesis using Cons ih1 by (auto intro: no_loop_intros)
    next
      case c2: (Cons d fmt2)
      have e: "no_loop (case args of PWord w # args \<Rightarrow> thenU (P w) (printf fd fmt2 args) | _ \<Rightarrow> crash ''printf'')"
        if "\<And>w. no_loop (P w)" for P :: "u32 \<Rightarrow> unit uprog"
        using that ih [OF c2] by (auto split: list.split parg.split intro: no_loop_intros)
      have f: "no_loop (case args of PStr w # args \<Rightarrow> thenU (P w) (printf fd fmt2 args) | _ \<Rightarrow> crash ''printf'')"
        if "\<And>w. no_loop (P w)" for P :: "u8 list option \<Rightarrow> unit uprog"
        using that ih [OF c2] by (auto split: list.split parg.split intro: no_loop_intros)
      show ?thesis unfolding Cons
        by (subst printf.simps(2)) (simp add: c2 no_loop_intros ih1 [unfolded c2] ih [OF c2] e f del: printf.simps puts_u.simps)
    qed
  qed (simp add: no_loop_intros)
qed

lemma sh_panic_end [simp]: "sh_panic msg st \<noteq> Crash ''loop''" "sh_panic msg st \<noteq> Done x st'"
  using printf_no_loop unfolding sh_panic_def no_loop_def by (simp_all add: bindU_Crash bindU_Done uexit_def del: printf.simps)

text \<open>
  C25. Parsing a line always ends, with a command, or with an error message and the end of the process. A command has at most nine
  arguments everywhere, each of its strings is a maximal run of plain bytes of the line inside the buffer, and after
  \<open>nulterminate\<close> has written its NULs over the bytes behind them, the C strings that \<open>runcmd\<close> reads in the
  buffer are exactly these runs: no NUL falls inside another string.
\<close>

theorem parsecmd_strings:
  assumes "0 \<in> set buf" and "s = takeWhile (\<lambda>c. c \<noteq> 0) buf"
  shows "parsecmd buf st \<noteq> Crash ''loop'' \<and>
    (\<forall>c buf' st'. parsecmd buf st = Done (c, buf') st' \<longrightarrow>
       st' = st \<and> cmd_ok s c \<and> length buf' = length buf \<and> resolve (\<lambda>t. cstr_at buf' (fst t)) c = resolve (tok_str s) c)"
proof -
  have g: "good s 0 (cmd_ok s) (parseline (parse_fuel s) s 0)" by (rule parseline_good) (simp_all add: parse_fuel_def)
  show ?thesis
  proof (cases "parseline (parse_fuel s) s 0")
    case (POk c i)
    then have c: "cmd_ok s c" using g by simp
    show ?thesis
    proof (cases "fst (peek s i []) = length s")
      case True
      then have "parsecmd buf st = Done (c, nulterminate c buf) st"
        using POk by (simp add: parsecmd_def Let_def ret_def flip: assms(2))
      then show ?thesis using c nulterminate_strings [OF c assms(2,1)] nulterminate_nth [of c buf] by auto
    next
      case False
      then have "parsecmd buf st = thenU (printf_s 2 ''leftovers: %s\<newline>'' [pstr (drop (fst (peek s i [])) s)]) (sh_panic ''syntax'') st"
        using POk by (simp add: parsecmd_def Let_def flip: assms(2))
      then show ?thesis using printf_no_loop unfolding no_loop_def by (simp add: bindU_Crash bindU_Done del: printf.simps)
    qed
  next
    case (PPanic msg)
    then have "parsecmd buf st = sh_panic msg st" by (simp add: parsecmd_def Let_def flip: assms(2))
    then show ?thesis by simp
  qed (use g in simp)
qed

lemma parsecmd_demo:
  "parsecmd (bytes ''ls >f'' @ [0]) \<lparr>answers = [], calls = []\<rparr> =
   Done (REDIR (EXEC [(0, 2)]) 4 5 513 1, [108, 115, 0, 62, 102, 0]) \<lparr>answers = [], calls = []\<rparr>"
  by code_simp

theorem parsecmd_strings_witness:
  "(0 :: u8) \<in> set (bytes ''ls >f'' @ [0]) \<and> takeWhile (\<lambda>c. c \<noteq> 0) (bytes ''ls >f'' @ [0]) = bytes ''ls >f'' \<and>
   parsecmd (bytes ''ls >f'' @ [0]) \<lparr>answers = [], calls = []\<rparr> \<noteq> Crash ''loop'' \<and>
   cmd_ok (bytes ''ls >f'') (REDIR (EXEC [(0, 2)]) 4 5 513 1) \<and>
   resolve (\<lambda>t. cstr_at [108, 115, 0, 62, 102, 0] (fst t)) (REDIR (EXEC [(0, 2)]) 4 5 513 1) =
     SRedir (SExec [bytes ''ls'']) (bytes ''f'') 513 1"
proof -
  let ?b = "bytes ''ls >f'' @ [0]" and ?c = "REDIR (EXEC [(0, 2)]) 4 5 513 1"
  have z: "(0 :: u8) \<in> set ?b" by simp
  have s: "takeWhile (\<lambda>c. c \<noteq> 0) ?b = bytes ''ls >f''" by code_simp
  have "cmd_ok (bytes ''ls >f'') ?c \<and> length [108, 115, 0, 62, 102, 0 :: u8] = length ?b \<and>
      resolve (\<lambda>t. cstr_at [108, 115, 0, 62, 102, 0] (fst t)) ?c = resolve (tok_str (bytes ''ls >f'')) ?c"
    using parsecmd_strings [OF z s [symmetric], of "\<lparr>answers = [], calls = []\<rparr>"] parsecmd_demo by blast
  moreover have "resolve (tok_str (bytes ''ls >f'')) ?c = SRedir (SExec [bytes ''ls'']) (bytes ''f'') 513 1" by code_simp
  ultimately show ?thesis using z s parsecmd_demo by simp
qed

end
