(* ===== verification/ShellSyntax.thy ===== *)
theory ShellSyntax
  imports Shell
begin

text \<open>
  The grammar of the shell: every command, printed with brackets where they are needed, is read back by the parser of
  \<open>sh.c\<close>.
\<close>

subsection \<open>Printing commands\<close>

datatype level = LineL | AmpL | PipeL | ExecL

definition print_words :: "u8 list list \<Rightarrow> u8 list" where
  "print_words as = concat (map (\<lambda>w. 32 # w) as)"

definition print_redir :: "u8 list \<times> int \<times> int \<Rightarrow> u8 list" where
  "print_redir r = (case r of (f, mode, fd) \<Rightarrow> 32 # (if mode = O_RDONLY_u then chr CHR ''<'' else chr CHR ''>'') # f)"

definition paren :: "u8 list \<Rightarrow> u8 list" where
  "paren t = chr CHR ''('' # t @ [chr CHR '')'']"

primrec print_cmd :: "scmd \<Rightarrow> level \<Rightarrow> u8 list" where
  "print_cmd (SExec as) lv = print_words as"
| "print_cmd (SRedir c f mode fd) lv = print_cmd c ExecL @ print_redir (f, mode, fd)"
| "print_cmd (SPipe l r) lv =
     (let t = print_cmd l ExecL @ chr CHR ''|'' # print_cmd r PipeL in if lv = ExecL then paren t else t)"
| "print_cmd (SBack c) lv =
     (let t = print_cmd c AmpL @ [chr CHR ''&''] in if lv = ExecL \<or> lv = PipeL then paren t else t)"
| "print_cmd (SList l r) lv =
     (let t = print_cmd l AmpL @ chr CHR '';'' # print_cmd r LineL in if lv = LineL then t else paren t)"

text \<open>What can be printed: words of plain bytes, nine at most, and the redirections that the shell knows.\<close>

definition word_ok :: "u8 list \<Rightarrow> bool" where
  "word_ok w \<longleftrightarrow> w \<noteq> [] \<and> (\<forall>c \<in> set w. plain c \<and> c \<noteq> 0)"

definition mode_ok :: "int \<times> int \<Rightarrow> bool" where
  "mode_ok m \<longleftrightarrow> m = (O_RDONLY_u, 0) \<or> m = (O_WRONLY_u + O_CREATE_u, 1)"

primrec scmd_ok :: "scmd \<Rightarrow> bool" where
  "scmd_ok (SExec as) \<longleftrightarrow> length as < MAXARGS \<and> (\<forall>w \<in> set as. word_ok w)"
| "scmd_ok (SRedir c f mode fd) \<longleftrightarrow> scmd_ok c \<and> word_ok f \<and> mode_ok (mode, fd)"
| "scmd_ok (SPipe l r) \<longleftrightarrow> scmd_ok l \<and> scmd_ok r"
| "scmd_ok (SBack c) \<longleftrightarrow> scmd_ok c"
| "scmd_ok (SList l r) \<longleftrightarrow> scmd_ok l \<and> scmd_ok r"

subsection \<open>Positions and what follows them\<close>

text \<open>From position \<open>i\<close> on, up to leading white space, the line reads \<open>xs\<close>.\<close>

definition near :: "u8 list \<Rightarrow> nat \<Rightarrow> u8 list \<Rightarrow> bool" where
  "near s i xs \<longleftrightarrow> i \<le> length s \<and> dropWhile ws (drop i s) = dropWhile ws xs"

lemma drop_skip: "drop (skip P s i) s = dropWhile P (drop i s)"
  by (simp add: skip_def dropWhile_eq_drop add.commute)

lemma dropWhile_idem2: "dropWhile P (dropWhile P xs) = dropWhile P xs"
  by (induction xs) auto

lemma near_skip: "near s i xs \<Longrightarrow> near s (skip ws s i) xs"
  using skip_le [of i s ws] by (simp add: near_def drop_skip dropWhile_idem2)

lemma near_skip_drop: "near s i xs \<Longrightarrow> drop (skip ws s i) s = dropWhile ws xs"
  by (simp add: near_def drop_skip)

lemma ch_at_drop: "ch_at s i = (case drop i s of [] \<Rightarrow> 0 | c # _ \<Rightarrow> c)"
  by (simp add: ch_at_def split: list.split) (metis Cons_nth_drop_Suc drop_eq_Nil list.inject list.discI not_le)

lemma peek_near:
  assumes "near s i xs"
  shows "\<exists>j. peek s i tk = (j, case dropWhile ws xs of [] \<Rightarrow> False | c # _ \<Rightarrow> c \<noteq> 0 \<and> c \<in> set tk) \<and> near s j xs \<and> i \<le> j"
  using near_skip [OF assms] near_skip_drop [OF assms] skip_ge [of i ws s]
  by (cases "dropWhile ws xs") (simp_all add: peek_def Let_def ch_at_drop del: dropWhile_eq_Nil_conv drop_eq_Nil drop_eq_Nil2)

lemma near_after: "drop j s = u @ v \<Longrightarrow> j \<le> length s \<Longrightarrow> near s (skip ws s (j + length u)) v"
proof -
  assume d: "drop j s = u @ v" and j: "j \<le> length s"
  have "drop (j + length u) s = v" using d by (metis add.commute append_eq_conv_conj drop_drop)
  moreover have "j + length u \<le> length s" using arg_cong [OF d, of length] j by simp
  ultimately have "near s (j + length u) v" by (simp add: near_def)
  then show ?thesis by (rule near_skip)
qed

lemma symbol_not_ws: "sym c \<Longrightarrow> \<not> ws c \<and> c \<noteq> 0"
  by (auto simp: symbols_def whitespace_def bytes_def)

text \<open>Reading a symbol, and reading a word.\<close>

lemma gettoken_near:
  assumes n: "near s i xs" and x: "dropWhile ws xs = u @ v" and u: "u \<noteq> []"
    and t: "\<And>j. drop j s = u @ v \<Longrightarrow> j < length s \<Longrightarrow> token_end s j = (r, j + length u)"
  shows "\<exists>q e k. gettoken s i = (r, q, e, k) \<and> near s k v \<and> i < k \<and> tok_str s (q, e) = u"
proof -
  let ?j = "skip ws s i"
  have d: "drop ?j s = u @ v" using near_skip_drop [OF n] x by simp
  have j: "i \<le> ?j" "?j \<le> length s" using skip_ge skip_le n by (auto simp: near_def)
  have "?j < length s" using d u j by (cases "?j = length s") auto
  then have "token_end s ?j = (r, ?j + length u)" using t d by blast
  then have "gettoken s i = (r, ?j, ?j + length u, skip ws s (?j + length u))" by (simp add: gettoken_def Let_def)
  moreover have "near s (skip ws s (?j + length u)) v" by (rule near_after [OF d j(2)])
  moreover have "i < skip ws s (?j + length u)" using j u skip_ge [of "?j + length u" ws s] by (cases u) auto
  moreover have "tok_str s (?j, ?j + length u) = u" using d by (simp add: tok_str_def)
  ultimately show ?thesis by blast
qed

lemma gettoken_symbol:
  assumes "near s i xs" and "dropWhile ws xs = c # v" and "c \<in> set (bytes ''|();&<'')"
  shows "\<exists>q e k. gettoken s i = (c, q, e, k) \<and> near s k v \<and> i < k"
proof -
  have "c \<noteq> 0" using assms(3) by (auto simp: bytes_def)
  then have "token_end s j = (c, j + length [c])" if "drop j s = [c] @ v" for j
    using that assms(3) by (simp add: token_end_def ch_at_drop)
  then show ?thesis using gettoken_near [of s i xs "[c]" v c] assms(1,2) by auto
qed

lemma gettoken_gt:
  assumes "near s i xs" and "dropWhile ws xs = chr CHR ''>'' # v" and "v \<noteq> []" "hd v \<noteq> chr CHR ''>''"
  shows "\<exists>q e k. gettoken s i = (chr CHR ''>'', q, e, k) \<and> near s k v \<and> i < k"
proof -
  have "token_end s j = (chr CHR ''>'', j + length [chr CHR ''>'' :: u8])" if d: "drop j s = [chr CHR ''>''] @ v" for j
  proof -
    have "drop (j + 1) s = v" using d by (metis add.commute append_Cons append_Nil drop_Suc_Cons drop_0 drop_drop One_nat_def)
    then have "ch_at s (j + 1) = hd v" using assms(3) by (cases v) (simp_all add: ch_at_drop)
    then show ?thesis using d assms(4) by (simp add: token_end_def ch_at_drop bytes_def)
  qed
  then show ?thesis using gettoken_near [of s i xs "[chr CHR ''>'']" v "chr CHR ''>''"] assms(1,2) by auto
qed

lemma gettoken_word:
  assumes "near s i (w @ v)" and w: "word_ok w" and v: "v = [] \<or> \<not> plain (hd v)"
  shows "\<exists>q e k. gettoken s i = (chr CHR ''a'', q, e, k) \<and> near s k v \<and> i < k \<and> tok_str s (q, e) = w"
proof (rule gettoken_near [OF assms(1)])
  obtain c w' where c: "w = c # w'" "plain c" "c \<noteq> 0" using w by (cases w) (auto simp: word_ok_def)
  show "dropWhile ws (w @ v) = w @ v" "w \<noteq> []" using c by simp_all
  fix j assume d: "drop j s = w @ v"
  have "takeWhile plain (w @ v) = w" using w v by (cases v) (auto simp: word_ok_def takeWhile_append2)
  then have "skip plain s j = j + length w" by (simp add: skip_def d)
  moreover have "ch_at s j = c" using d c by (simp add: ch_at_drop)
  moreover have "c \<notin> set (bytes ''|();&<'')" "c \<noteq> chr CHR ''>''" using c symbol_bytes by auto
  ultimately show "token_end s j = (chr CHR ''a'', j + length w)" using c by (simp add: token_end_def)
qed

lemma gettoken_end:
  assumes "near s i []"
  shows "\<exists>q e k. gettoken s i = (0, q, e, k) \<and> near s k [] \<and> i \<le> k"
proof -
  let ?j = "skip ws s i"
  have "drop ?j s = []" using near_skip_drop [OF assms] by simp
  then have "token_end s ?j = (0, ?j)" by (simp add: token_end_def ch_at_def)
  then have "gettoken s i = (0, ?j, ?j, skip ws s ?j)" by (simp add: gettoken_def Let_def)
  then show ?thesis using near_skip [OF assms] skip_ge [of i ws s] by auto
qed

subsection \<open>Redirections and arguments\<close>

definition print_redirs :: "(u8 list \<times> int \<times> int) list \<Rightarrow> u8 list" where
  "print_redirs rds = concat (map print_redir rds)"

definition rstr :: "u8 list \<Rightarrow> redir \<Rightarrow> u8 list \<times> int \<times> int" where
  "rstr s r = (case r of (q, e, mode, fd) \<Rightarrow> (tok_str s (q, e), mode, fd))"

abbreviation rd_ok :: "u8 list \<times> int \<times> int \<Rightarrow> bool" where
  "rd_ok r \<equiv> word_ok (fst r) \<and> mode_ok (snd r)"

text \<open>What may follow: the end or no plain byte, and not another redirection.\<close>

definition after_redirs :: "u8 list \<Rightarrow> bool" where
  "after_redirs xs \<longleftrightarrow> (xs = [] \<or> \<not> plain (hd xs)) \<and> (case dropWhile ws xs of [] \<Rightarrow> True | c # _ \<Rightarrow> c \<notin> set (bytes ''<>''))"

definition stop :: "u8 list \<Rightarrow> bool" where
  "stop xs \<longleftrightarrow> xs = [] \<or> hd xs \<in> set (bytes ''|)&;'')"

lemma stop_cases:
  assumes "stop xs"
  obtains "xs = []" | c v where "xs = c # v" "c \<in> set (bytes ''|)&;'')" "sym c" "c \<noteq> 0" "dropWhile ws xs = xs" "c \<notin> set (bytes ''<>('')"
proof (cases xs)
  case (Cons c v)
  then have c: "c \<in> set (bytes ''|)&;'')" using assms by (simp add: stop_def)
  then have "sym c" "c \<notin> set (bytes ''<>('')" by (auto simp: symbols_def bytes_def)
  then show ?thesis using that(2) Cons c symbol_not_ws [of c] by simp
qed (use that in simp)

lemma stop_after_redirs: "stop xs \<Longrightarrow> after_redirs xs"
  by (erule stop_cases) (auto simp: after_redirs_def bytes_def)

lemma plain_word: "word_ok w \<Longrightarrow> \<exists>c v. w = c # v \<and> plain c \<and> c \<noteq> 0 \<and> c \<notin> set (bytes ''<>('') \<and> c \<notin> set (bytes ''|)&;'')"
  by (cases w) (auto simp: word_ok_def symbols_def bytes_def)

lemma space_ws [simp]: "ws 32"
  by (simp add: whitespace_def bytes_def)

lemma redirs_boundary: "xs = [] \<or> \<not> plain (hd xs) \<Longrightarrow> print_redirs rds @ xs = [] \<or> \<not> plain (hd (print_redirs rds @ xs))"
  by (cases rds) (auto simp: print_redirs_def print_redir_def split: prod.split)

lemma redirs_near:
  assumes "near s i (print_redirs rds @ rest)" and "after_redirs rest" and "\<forall>r \<in> set rds. rd_ok r"
  shows "\<exists>rs' k. redirs_loop s rs i = POk (rs @ rs') k \<and> near s k rest \<and> i \<le> k \<and> map (rstr s) rs' = rds"
  using assms(1,3)
proof (induction rds arbitrary: i rs)
  case Nil
  obtain j where j: "peek s i (bytes ''<>'') = (j, False)" "near s j rest" "i \<le> j"
    using peek_near [of s i rest "bytes ''<>''"] Nil assms(2)
    by (cases "dropWhile ws rest") (auto simp: print_redirs_def after_redirs_def)
  then have "redirs_loop s rs i = POk rs j" by (subst redirs_loop.simps) simp
  then show ?case using j by (intro exI [of _ "[]"]) auto
next
  case (Cons r rds)
  obtain f mode fd where r: "r = (f, mode, fd)" by (metis prod.exhaust)
  define c :: u8 where "c = (if mode = O_RDONLY_u then chr CHR ''<'' else chr CHR ''>'')"
  let ?xs = "print_redirs (r # rds) @ rest" and ?v = "print_redirs rds @ rest"
  have f: "word_ok f" "mode_ok (mode, fd)" using Cons.prems r by auto
  have xs: "dropWhile ws ?xs = c # f @ ?v" "c \<noteq> 0" "c \<in> set (bytes ''<>'')"
    using symbol_not_ws [of c] by (auto simp: r print_redirs_def print_redir_def c_def symbols_def bytes_def)
  obtain j where j: "peek s i (bytes ''<>'') = (j, True)" "near s j ?xs" "i \<le> j"
    using peek_near [OF Cons.prems(1), of "bytes ''<>''"] xs by auto
  have "\<exists>q e k. gettoken s j = (c, q, e, k) \<and> near s k (f @ ?v) \<and> j < k"
  proof (cases "mode = O_RDONLY_u")
    case True
    then show ?thesis by (intro gettoken_symbol [OF j(2) xs(1)]) (simp add: c_def bytes_def)
  next
    case False
    then have "c = chr CHR ''>''" by (simp add: c_def)
    moreover have "f @ ?v \<noteq> []" "hd (f @ ?v) \<noteq> chr CHR ''>''" using plain_word [OF f(1)] by (auto simp: bytes_def)
    ultimately show ?thesis using gettoken_gt [OF j(2), of "f @ ?v"] xs(1) by simp
  qed
  then obtain q1 e1 k where k: "gettoken s j = (c, q1, e1, k)" "near s k (f @ ?v)" "j < k" by blast
  obtain q e l where l: "gettoken s k = (chr CHR ''a'', q, e, l)" "near s l ?v" "k < l" "tok_str s (q, e) = f"
    using gettoken_word [OF k(2) f(1) redirs_boundary] assms(2) by (auto simp: after_redirs_def)
  have ro: "redir_of c q e = [(q, e, mode, fd)]"
    using f(2) by (auto simp: redir_of_def c_def mode_ok_def O_RDONLY_u_def O_WRONLY_u_def O_CREATE_u_def)
  obtain rs' m where m: "redirs_loop s (rs @ [(q, e, mode, fd)]) l = POk ((rs @ [(q, e, mode, fd)]) @ rs') m"
    "near s m rest" "l \<le> m" "map (rstr s) rs' = rds"
    using Cons.IH [OF l(2), of "rs @ [(q, e, mode, fd)]"] Cons.prems(2) by auto
  have "redirs_loop s rs i = redirs_loop s (rs @ [(q, e, mode, fd)]) l"
    using j(1) k(1) l(1) ro by (subst redirs_loop.simps) simp
  then have "redirs_loop s rs i = POk (rs @ (q, e, mode, fd) # rs') m" using m(1) by simp
  moreover have "map (rstr s) ((q, e, mode, fd) # rs') = r # rds" using m(4) l(4) r by (simp add: rstr_def)
  ultimately show ?case using m j k l by (intro exI [of _ "(q, e, mode, fd) # rs'"] exI [of _ m]) auto
qed

lemma words_first:
  assumes "\<forall>w \<in> set as. word_ok w" and "as \<noteq> []"
  shows "\<exists>c v. dropWhile ws (print_words as @ xs) = c # v \<and> plain c \<and> c \<noteq> 0 \<and> c \<notin> set (bytes ''<>('') \<and> c \<notin> set (bytes ''|)&;'')"
proof -
  obtain w as' where as: "as = w # as'" using assms(2) by (cases as) auto
  then obtain c v where "w = c # v" "plain c" "c \<noteq> 0" "c \<notin> set (bytes ''<>('')" "c \<notin> set (bytes ''|)&;'')"
    using plain_word [of w] assms(1) by auto
  then show ?thesis using as by (simp add: print_words_def)
qed

lemma words_after_redirs:
  assumes "\<forall>w \<in> set as. word_ok w" and "as \<noteq> []"
  shows "after_redirs (print_words as @ xs)"
proof -
  obtain c v where "dropWhile ws (print_words as @ xs) = c # v" "c \<notin> set (bytes ''<>('')" using words_first [OF assms] by blast
  moreover have "hd (print_words as @ xs) = 32" using assms(2) by (cases as) (auto simp: print_words_def)
  ultimately show ?thesis by (auto simp: after_redirs_def bytes_def)
qed

lemma args_near:
  assumes "near s i (print_words ws' @ print_redirs rds @ rest)" and "stop rest" and "\<forall>w \<in> set ws'. word_ok w" and "\<forall>r \<in> set rds. rd_ok r"
    and "length as + length ws' < MAXARGS" and "ws' \<noteq> [] \<or> rds = []"
  shows "\<exists>as' rs' k. args_loop s as rs i = POk (as @ as', rs @ rs') k \<and> near s k rest \<and> i \<le> k \<and>
    map (tok_str s) as' = ws' \<and> map (rstr s) rs' = rds"
  using assms(1,3,4,5,6)
proof (induction ws' arbitrary: as rs rds i)
  case Nil
  then have n: "near s i rest" "rds = []" by (simp_all add: print_words_def print_redirs_def)
  obtain j where p: "near s j rest" "i \<le> j"
    "peek s i (bytes ''|)&;'') = (j, case dropWhile ws rest of [] \<Rightarrow> False | c # _ \<Rightarrow> c \<noteq> 0 \<and> c \<in> set (bytes ''|)&;''))"
    using peek_near [OF n(1), of "bytes ''|)&;''"] by blast
  have "\<exists>k. args_loop s as rs i = POk (as, rs) k \<and> near s k rest \<and> i \<le> k"
    using assms(2)
  proof (cases rule: stop_cases)
    case 1
    obtain q e k where k: "gettoken s j = (0, q, e, k)" "near s k []" "j \<le> k" using gettoken_end p(1) 1 by blast
    then have "args_loop s as rs i = POk (as, rs) k" using p(3) 1 by (subst args_loop.simps) simp
    then show ?thesis using k p 1 by auto
  next
    case (2 c v)
    then have "peek s i (bytes ''|)&;'') = (j, True)" using p(3) by (simp only: list.case) simp
    then have "args_loop s as rs i = POk (as, rs) j" by (subst args_loop.simps) simp
    then show ?thesis using p by auto
  qed
  then show ?case using n(2) by (metis append_Nil2 list.map_disc_iff)
next
  case (Cons w ws')
  let ?v = "print_words ws' @ print_redirs rds @ rest"
  have w: "word_ok w" "\<forall>w \<in> set ws'. word_ok w" using Cons.prems by auto
  have xs: "print_words (w # ws') @ print_redirs rds @ rest = 32 # w @ ?v" by (simp add: print_words_def)
  obtain c v where c: "w = c # v" "plain c" "c \<notin> set (bytes ''|)&;'')" using plain_word [OF w(1)] by blast
  obtain j where p: "peek s i (bytes ''|)&;'') = (j, False)" "near s j (32 # w @ ?v)" "i \<le> j"
    using peek_near [of s i "32 # w @ ?v" "bytes ''|)&;''"] Cons.prems(1) c unfolding xs by auto
  have pj: "near s j (w @ ?v)" using p(2) by (simp add: near_def)
  have rest: "rest = [] \<or> \<not> plain (hd rest)" using stop_after_redirs [OF assms(2)] by (simp add: after_redirs_def)
  have "?v = [] \<or> \<not> plain (hd ?v)" using redirs_boundary [OF rest, of rds] by (cases ws') (auto simp: print_words_def)
  then obtain q e k where k: "gettoken s j = (chr CHR ''a'', q, e, k)" "near s k ?v" "j < k" "tok_str s (q, e) = w"
    using gettoken_word [OF pj w(1)] by blast
  have "length as + 1 < MAXARGS" using Cons.prems(4) by simp
  then have a: "args_loop s as rs i = bindP (redirs_loop s rs k) (args_loop s (as @ [(q, e)]))"
    using p(1) k(1) by (subst args_loop.simps) simp
  show ?case
  proof (cases "ws' = []")
    case True
    then have n: "near s k (print_redirs rds @ rest)" using k(2) by (simp add: print_words_def)
    obtain rs' l where l: "redirs_loop s rs k = POk (rs @ rs') l" "near s l rest" "k \<le> l" "map (rstr s) rs' = rds"
      using redirs_near [OF n stop_after_redirs [OF assms(2)] Cons.prems(3)] by blast
    obtain m where "args_loop s (as @ [(q, e)]) (rs @ rs') l = POk (as @ [(q, e)], rs @ rs') m" "near s m rest" "l \<le> m"
      using Cons.IH [of l "[]" "as @ [(q, e)]" "rs @ rs'"] l True Cons.prems(4) by (auto simp: print_words_def print_redirs_def)
    then have "args_loop s as rs i = POk (as @ [(q, e)], rs @ rs') m" "near s m rest" "i \<le> m" using a l p k by auto
    then show ?thesis using k(4) l(4) True by (intro exI [of _ "[(q, e)]"] exI [of _ rs'] exI [of _ m]) simp
  next
    case False
    have n: "near s k (print_redirs [] @ ?v)" using k(2) by (simp add: print_redirs_def)
    obtain l where l: "redirs_loop s rs k = POk rs l" "near s l ?v" "k \<le> l"
      using redirs_near [OF n words_after_redirs [OF w(2) False]] by auto
    obtain as' rs' m where m: "args_loop s (as @ [(q, e)]) rs l = POk ((as @ [(q, e)]) @ as', rs @ rs') m" "near s m rest" "l \<le> m"
      "map (tok_str s) as' = ws'" "map (rstr s) rs' = rds"
      using Cons.IH [OF l(2) w(2) Cons.prems(3), of "as @ [(q, e)]" rs] False Cons.prems(4) by auto
    have "args_loop s as rs i = POk (as @ (q, e) # as', rs @ rs') m" using a l m by simp
    then show ?thesis using m k(3,4) l(3) p(3) by (intro exI [of _ "(q, e) # as'"] exI [of _ rs'] exI [of _ m]) simp
  qed
qed

lemma resolve_add_redirs:
  "resolve (tok_str s) (add_redirs c rs) = foldl (\<lambda>c (w, mode, fd). SRedir c w mode fd) (resolve (tok_str s) c) (map (rstr s) rs)"
  by (induction rs arbitrary: c) (auto simp: add_redirs_def rstr_def)

subsection \<open>The four levels\<close>

definition with_redirs :: "scmd \<Rightarrow> (u8 list \<times> int \<times> int) list \<Rightarrow> scmd" where
  "with_redirs t rds = foldl (\<lambda>c (w, mode, fd). SRedir c w mode fd) t rds"

abbreviation sh_res :: "u8 list \<Rightarrow> cmd \<Rightarrow> scmd" where "sh_res s c \<equiv> resolve (tok_str s) c"

text \<open>The parsers read back what is printed at their level, and stop in front of what follows.\<close>

definition reads_exec :: "scmd \<Rightarrow> bool" where
  "reads_exec t \<longleftrightarrow> (\<forall>s i rds rest n. near s i (print_cmd t ExecL @ print_redirs rds @ rest) \<longrightarrow> stop rest \<longrightarrow> (\<forall>r \<in> set rds. rd_ok r) \<longrightarrow>
     length s - i < n \<longrightarrow> (\<exists>c k. parseexec (parseline n) s i = POk c k \<and> near s k rest \<and> i \<le> k \<and> sh_res s c = with_redirs t rds))"

definition pipe_end :: "u8 list \<Rightarrow> bool" where
  "pipe_end rest \<longleftrightarrow> stop rest \<and> (rest = [] \<or> hd rest \<noteq> chr CHR ''|'')"

definition reads_pipe :: "scmd \<Rightarrow> bool" where
  "reads_pipe t \<longleftrightarrow> (\<forall>s i rest n m. near s i (print_cmd t PipeL @ rest) \<longrightarrow> pipe_end rest \<longrightarrow> length s - i < n \<longrightarrow> length s - i < m \<longrightarrow>
     (\<exists>c k. parsepipe m (parseline n) s i = POk c k \<and> near s k rest \<and> i \<le> k \<and> sh_res s c = t))"

definition reads_amp :: "scmd \<Rightarrow> bool" where
  "reads_amp t \<longleftrightarrow> (\<forall>s i rest n m. near s i (print_cmd t AmpL @ rest) \<longrightarrow> pipe_end rest \<longrightarrow> length s - i < n \<longrightarrow> length s - i < m \<longrightarrow>
     (\<exists>c0 i0 c k. parsepipe m (parseline n) s i = POk c0 i0 \<and> amps_loop s c0 i0 = amps_loop s c k \<and> near s k rest \<and> i \<le> k \<and> sh_res s c = t))"

definition line_end :: "u8 list \<Rightarrow> bool" where
  "line_end rest \<longleftrightarrow> rest = [] \<or> hd rest = chr CHR '')''"

definition reads_line :: "scmd \<Rightarrow> bool" where
  "reads_line t \<longleftrightarrow> (\<forall>s i rest n. near s i (print_cmd t LineL @ rest) \<longrightarrow> line_end rest \<longrightarrow> length s - i + 1 < n \<longrightarrow>
     (\<exists>c k. parseline n s i = POk c k \<and> near s k rest \<and> i \<le> k \<and> sh_res s c = t))"

lemma ends: "line_end rest \<Longrightarrow> pipe_end rest" "pipe_end rest \<Longrightarrow> stop rest"
  by (auto simp: line_end_def pipe_end_def stop_def bytes_def)

lemma symbol_ends:
  "stop (chr CHR ''|'' # v)" "pipe_end (chr CHR ''&'' # v)" "pipe_end (chr CHR '';'' # v)" "line_end (chr CHR '')'' # v)"
  by (auto simp: line_end_def pipe_end_def stop_def bytes_def)

text \<open>Looking for a byte that is not the next one.\<close>

lemma peek_other:
  assumes "near s i xs" and "stop xs" and "xs = [] \<or> hd xs \<notin> set tk"
  shows "\<exists>j. peek s i tk = (j, False) \<and> near s j xs \<and> i \<le> j"
  using assms(2)
proof (cases rule: stop_cases)
  case (2 c v)
  then show ?thesis using peek_near [OF assms(1), of tk] assms(3) by (simp only: list.case) auto
qed (use peek_near [OF assms(1), of tk] in auto)

lemma peek_symbol:
  assumes "near s i (c # v)" and "sym c" and "c \<in> set tk" and "c \<in> set (bytes ''|();&<'')"
  shows "\<exists>j q e k. peek s i tk = (j, True) \<and> near s j (c # v) \<and> i \<le> j \<and> gettoken s j = (c, q, e, k) \<and> near s k v \<and> i < k \<and> k \<le> length s"
proof -
  have d: "dropWhile ws (c # v) = c # v" "c \<noteq> 0" using symbol_not_ws [OF assms(2)] by simp_all
  obtain j where j: "peek s i tk = (j, True)" "near s j (c # v)" "i \<le> j"
    using peek_near [OF assms(1), of tk] d assms(3) by (simp only: list.case) auto
  then show ?thesis using gettoken_symbol [OF j(2) d(1) assms(4)] by (fastforce simp: near_def)
qed

lemma exec_pipe:
  assumes "reads_exec t" and "print_cmd t PipeL = print_cmd t ExecL"
  shows "reads_pipe t"
  unfolding reads_pipe_def
proof (intro allI impI)
  fix s i rest n m
  assume n: "near s i (print_cmd t PipeL @ rest)" and e: "pipe_end rest" and f: "length s - i < n" "length s - i < m"
  have "near s i (print_cmd t ExecL @ print_redirs [] @ rest)" using n assms(2) by (simp add: print_redirs_def)
  then obtain c k where k: "parseexec (parseline n) s i = POk c k" "near s k rest" "i \<le> k" "sh_res s c = t"
    using assms(1) [unfolded reads_exec_def, rule_format, of s i "[]" rest n] f(1) ends(2) [OF e] by (auto simp: with_redirs_def)
  obtain j where "peek s k (bytes ''|'') = (j, False)" "near s j rest" "k \<le> j"
    using peek_other [OF k(2) ends(2) [OF e], of "bytes ''|''"] e by (auto simp: pipe_end_def bytes_def)
  moreover obtain m' where "m = Suc m'" using f by (cases m) auto
  ultimately show "\<exists>c k. parsepipe m (parseline n) s i = POk c k \<and> near s k rest \<and> i \<le> k \<and> sh_res s c = t" using k by auto
qed

lemma pipe_amp: "reads_pipe t \<Longrightarrow> print_cmd t AmpL = print_cmd t PipeL \<Longrightarrow> reads_amp t"
  unfolding reads_pipe_def reads_amp_def by metis

lemma amps_end:
  assumes "near s k rest" and "stop rest" and "rest = [] \<or> hd rest \<noteq> chr CHR ''&''"
  shows "\<exists>j. amps_loop s c k = (c, j) \<and> near s j rest \<and> k \<le> j"
  using peek_other [OF assms(1,2), of "bytes ''&''"] assms(3) by (subst amps_loop.simps) (auto simp: bytes_def)

lemma amp_line:
  assumes "reads_amp t" and "print_cmd t LineL = print_cmd t AmpL"
  shows "reads_line t"
  unfolding reads_line_def
proof (intro allI impI)
  fix s i rest n
  assume n: "near s i (print_cmd t LineL @ rest)" and e: "line_end rest" and f: "length s - i + 1 < n"
  obtain n' where n': "n = Suc n'" "length s - i < n'" using f by (cases n) auto
  have st: "pipe_end rest" "stop rest" using e ends by auto
  obtain c0 i0 c k where k: "parsepipe n' (parseline n') s i = POk c0 i0" "amps_loop s c0 i0 = amps_loop s c k" "near s k rest"
      "i \<le> k" "sh_res s c = t"
    using assms n n'(2) st(1) unfolding reads_amp_def by metis
  obtain j where j: "amps_loop s c k = (c, j)" "near s j rest" "k \<le> j" using amps_end [OF k(3) st(2), of c] e by (auto simp: line_end_def)
  obtain l where "peek s j (bytes '';'') = (l, False)" "near s l rest" "j \<le> l"
    using peek_other [OF j(2) st(2), of "bytes '';''"] e by (auto simp: line_end_def bytes_def)
  then show "\<exists>c k. parseline n s i = POk c k \<and> near s k rest \<and> i \<le> k \<and> sh_res s c = t" using n' k j by auto
qed

lemma line_exec:
  assumes "reads_line t" and "print_cmd t ExecL = paren (print_cmd t LineL)"
  shows "reads_exec t"
  unfolding reads_exec_def
proof (intro allI impI)
  fix s i rds rest n
  assume n: "near s i (print_cmd t ExecL @ print_redirs rds @ rest)" and st: "stop rest" and rd: "\<forall>r \<in> set rds. rd_ok r"
    and f: "length s - i < n"
  let ?v = "print_redirs rds @ rest"
  have n0: "near s i (chr CHR ''('' # print_cmd t LineL @ chr CHR '')'' # ?v)" using n assms(2) by (simp add: paren_def)
  have b: "sym (chr CHR ''('')" "chr CHR ''('' \<in> set (bytes ''('')" "chr CHR ''('' \<in> set (bytes ''|();&<'')"
    "sym (chr CHR '')'')" "chr CHR '')'' \<in> set (bytes '')'')" "chr CHR '')'' \<in> set (bytes ''|();&<'')"
    by (simp_all add: symbols_def bytes_def)
  obtain j where j: "peek s i (bytes ''('') = (j, True)" "near s j (chr CHR ''('' # print_cmd t LineL @ chr CHR '')'' # ?v)" "i \<le> j"
    using peek_symbol [OF n0 b(1-3)] by blast
  obtain j2 q e k where k: "peek s j (bytes ''('') = (j2, True)" "gettoken s j2 = (chr CHR ''('', q, e, k)"
      "near s k (print_cmd t LineL @ chr CHR '')'' # ?v)" "j < k" "k \<le> length s"
    using peek_symbol [OF j(2) b(1-3)] by blast
  have "length s - k + 1 < n" using f j k by linarith
  then obtain c l where l: "parseline n s k = POk c l" "near s l (chr CHR '')'' # ?v)" "k \<le> l" "sh_res s c = t"
    using assms(1) k(3) symbol_ends(4) unfolding reads_line_def by blast
  obtain j3 q' e' m where m: "peek s l (bytes '')'') = (j3, True)" "gettoken s j3 = (chr CHR '')'', q', e', m)" "near s m ?v" "l < m"
    using peek_symbol [OF l(2) b(4-6)] by blast
  obtain rs x where x: "redirs_loop s [] m = POk ([] @ rs) x" "near s x rest" "m \<le> x" "map (rstr s) rs = rds"
    using redirs_near [OF m(3) stop_after_redirs [OF st] rd, of "[]"] by blast
  have "parseexec (parseline n) s i = POk (add_redirs c rs) x"
    using j(1) k(1,2) l(1) m(1,2) x(1) by (simp add: parseexec_def parseblock_def parseredirs_def)
  moreover have "sh_res s (add_redirs c rs) = with_redirs t rds" using l(4) x(4) by (simp add: resolve_add_redirs with_redirs_def)
  ultimately show "\<exists>c k. parseexec (parseline n) s i = POk c k \<and> near s k rest \<and> i \<le> k \<and> sh_res s c = with_redirs t rds"
    using x j k l m by (intro exI [of _ "add_redirs c rs"] exI [of _ x]) auto
qed

lemma words_no_paren:
  assumes w: "\<forall>w \<in> set as. word_ok w" and st: "stop rest"
  shows "case dropWhile ws (print_words as @ print_redirs rds @ rest) of [] \<Rightarrow> True | c # _ \<Rightarrow> c \<noteq> chr CHR ''(''"
proof (cases "as = []")
  case False
  then show ?thesis using words_first [OF w, of "print_redirs rds @ rest"] by (auto simp: bytes_def)
next
  case as: True
  show ?thesis
  proof (cases rds)
    case Nil
    show ?thesis using st
      by (cases rule: stop_cases) (use as Nil in \<open>auto simp: print_words_def print_redirs_def bytes_def\<close>)
  next
    case (Cons r rds')
    have "\<not> ws (chr CHR ''<'') \<and> \<not> ws (chr CHR ''>'')" by (simp add: whitespace_def bytes_def)
    then show ?thesis using as Cons by (auto simp: print_words_def print_redirs_def print_redir_def split: prod.split)
  qed
qed

lemma words_exec:
  assumes "scmd_ok (SExec as)"
  shows "reads_exec (SExec as)"
  unfolding reads_exec_def
proof (intro allI impI)
  fix s i rds rest n
  assume n: "near s i (print_cmd (SExec as) ExecL @ print_redirs rds @ rest)" and st: "stop rest" and rd: "\<forall>r \<in> set rds. rd_ok r"
  have w: "\<forall>w \<in> set as. word_ok w" and len: "length ([] :: (nat \<times> nat) list) + length as < MAXARGS" using assms by simp_all
  let ?xs = "print_words as @ print_redirs rds @ rest"
  have n: "near s i ?xs" using n by simp
  obtain j where j: "peek s i (bytes ''('') = (j, False)" "near s j ?xs" "i \<le> j"
    using peek_near [OF n, of "bytes ''(''"] words_no_paren [OF w st, of rds] by (cases "dropWhile ws ?xs") (auto simp: bytes_def)
  have "\<exists>as' rs' k. bindP (redirs_loop s [] j) (args_loop s []) = POk (as', rs') k \<and> near s k rest \<and> j \<le> k \<and>
      map (tok_str s) as' = as \<and> map (rstr s) rs' = rds"
  proof (cases "as = []")
    case True
    then have "near s j (print_redirs rds @ rest)" using j(2) by (simp add: print_words_def)
    from redirs_near [OF this stop_after_redirs [OF st] rd, of "[]"]
    obtain rs k where k: "redirs_loop s [] j = POk rs k" "near s k rest" "j \<le> k" "map (rstr s) rs = rds" by auto
    have "near s k (print_words [] @ print_redirs [] @ rest)" using k(2) by (simp add: print_words_def print_redirs_def)
    from args_near [OF this st, of "[]" rs]
    obtain l where "args_loop s [] rs k = POk ([], rs) l" "near s l rest" "k \<le> l" by (auto simp: MAXARGS_def)
    then show ?thesis using k True by auto
  next
    case False
    have "near s j (print_redirs [] @ ?xs)" using j(2) by (simp add: print_redirs_def)
    from redirs_near [OF this words_after_redirs [OF w False], of "[]"]
    obtain k where k: "redirs_loop s [] j = POk [] k" "near s k ?xs" "j \<le> k" by auto
    from args_near [OF k(2) st w rd len, of "[]"] False
    obtain as' rs' l where "args_loop s [] [] k = POk (as', rs') l" "near s l rest" "k \<le> l" "map (tok_str s) as' = as" "map (rstr s) rs' = rds"
      by auto
    then show ?thesis using k by auto
  qed
  then obtain as' rs' k where k: "bindP (redirs_loop s [] j) (args_loop s []) = POk (as', rs') k" "near s k rest" "j \<le> k"
    "map (tok_str s) as' = as" "map (rstr s) rs' = rds" by blast
  have "parseexec (parseline n) s i = POk (add_redirs (EXEC as') rs') k"
    using j(1) k(1) by (cases "redirs_loop s [] j") (simp_all add: parseexec_def)
  moreover have "sh_res s (add_redirs (EXEC as') rs') = with_redirs (SExec as) rds" using k(4,5) by (simp add: resolve_add_redirs with_redirs_def)
  ultimately show "\<exists>c k. parseexec (parseline n) s i = POk c k \<and> near s k rest \<and> i \<le> k \<and> sh_res s c = with_redirs (SExec as) rds"
    using k j by (intro exI [of _ "add_redirs (EXEC as') rs'"] exI [of _ k]) auto
qed

lemma redir_exec:
  assumes "reads_exec c" and "word_ok f" and "mode_ok (mode, fd)"
  shows "reads_exec (SRedir c f mode fd)"
  unfolding reads_exec_def
proof (intro allI impI)
  fix s i rds rest n
  assume n: "near s i (print_cmd (SRedir c f mode fd) ExecL @ print_redirs rds @ rest)" and st: "stop rest" and rd: "\<forall>r \<in> set rds. rd_ok r"
    and f: "length s - i < n"
  have "near s i (print_cmd c ExecL @ print_redirs ((f, mode, fd) # rds) @ rest)" using n by (simp add: print_redirs_def)
  moreover have "\<forall>r \<in> set ((f, mode, fd) # rds). rd_ok r" using rd assms by simp
  ultimately have "\<exists>d k. parseexec (parseline n) s i = POk d k \<and> near s k rest \<and> i \<le> k \<and> sh_res s d = with_redirs c ((f, mode, fd) # rds)"
    using assms(1) st f unfolding reads_exec_def by blast
  then show "\<exists>d k. parseexec (parseline n) s i = POk d k \<and> near s k rest \<and> i \<le> k \<and> sh_res s d = with_redirs (SRedir c f mode fd) rds"
    by (simp add: with_redirs_def)
qed

lemma pipe_pipe:
  assumes "reads_exec l" and "reads_pipe r"
  shows "reads_pipe (SPipe l r)"
  unfolding reads_pipe_def
proof (intro allI impI)
  fix s i rest n m
  assume n: "near s i (print_cmd (SPipe l r) PipeL @ rest)" and e: "pipe_end rest" and f: "length s - i < n" "length s - i < m"
  let ?v = "print_cmd r PipeL @ rest"
  have "near s i (print_cmd l ExecL @ print_redirs [] @ chr CHR ''|'' # ?v)" using n by (simp add: print_redirs_def)
  then obtain c k where k: "parseexec (parseline n) s i = POk c k" "near s k (chr CHR ''|'' # ?v)" "i \<le> k" "sh_res s c = l"
    using assms(1) [unfolded reads_exec_def, rule_format, of s i "[]" "chr CHR ''|'' # ?v" n] f(1) symbol_ends(1)
    by (auto simp: with_redirs_def)
  have b: "sym (chr CHR ''|'')" "chr CHR ''|'' \<in> set (bytes ''|'')" "chr CHR ''|'' \<in> set (bytes ''|();&<'')"
    by (simp_all add: symbols_def bytes_def)
  obtain j q eq x where x: "peek s k (bytes ''|'') = (j, True)" "gettoken s j = (chr CHR ''|'', q, eq, x)" "near s x ?v" "k < x" "x \<le> length s"
    using peek_symbol [OF k(2) b] by blast
  obtain m' where m': "m = Suc m'" using f by (cases m) auto
  have "length s - x < n" "length s - x < m'" using f k x m' by linarith+
  then obtain d y where "parsepipe m' (parseline n) s x = POk d y" "near s y rest" "x \<le> y" "sh_res s d = r"
    using assms(2) x(3) e unfolding reads_pipe_def by blast
  then show "\<exists>c k. parsepipe m (parseline n) s i = POk c k \<and> near s k rest \<and> i \<le> k \<and> sh_res s c = SPipe l r"
    using m' k x by auto
qed

lemma back_amp:
  assumes "reads_amp c"
  shows "reads_amp (SBack c)"
  unfolding reads_amp_def
proof (intro allI impI)
  fix s i rest n m
  assume n: "near s i (print_cmd (SBack c) AmpL @ rest)" and e: "pipe_end rest" and f: "length s - i < n" "length s - i < m"
  have "near s i (print_cmd c AmpL @ chr CHR ''&'' # rest)" using n by simp
  then obtain c0 i0 d k where k: "parsepipe m (parseline n) s i = POk c0 i0" "amps_loop s c0 i0 = amps_loop s d k"
      "near s k (chr CHR ''&'' # rest)" "i \<le> k" "sh_res s d = c"
    using assms f symbol_ends(2) unfolding reads_amp_def by blast
  have b: "sym (chr CHR ''&'')" "chr CHR ''&'' \<in> set (bytes ''&'')" "chr CHR ''&'' \<in> set (bytes ''|();&<'')"
    by (simp_all add: symbols_def bytes_def)
  obtain j q eq x where x: "peek s k (bytes ''&'') = (j, True)" "gettoken s j = (chr CHR ''&'', q, eq, x)" "near s x rest" "k < x"
    using peek_symbol [OF k(3) b] by blast
  have "amps_loop s d k = amps_loop s (BACK d) x" using x(1,2) by (subst amps_loop.simps) simp
  then show "\<exists>c0 i0 d k. parsepipe m (parseline n) s i = POk c0 i0 \<and> amps_loop s c0 i0 = amps_loop s d k \<and> near s k rest \<and> i \<le> k \<and> sh_res s d = SBack c"
    using k x by (intro exI [of _ c0] exI [of _ i0] exI [of _ "BACK d"] exI [of _ x]) auto
qed

lemma list_line:
  assumes "reads_amp l" and "reads_line r"
  shows "reads_line (SList l r)"
  unfolding reads_line_def
proof (intro allI impI)
  fix s i rest n
  assume n: "near s i (print_cmd (SList l r) LineL @ rest)" and e: "line_end rest" and f: "length s - i + 1 < n"
  let ?v = "print_cmd r LineL @ rest"
  obtain n' where n': "n = Suc n'" "length s - i < n'" using f by (cases n) auto
  have "near s i (print_cmd l AmpL @ chr CHR '';'' # ?v)" using n by simp
  then obtain c0 i0 c k where k: "parsepipe n' (parseline n') s i = POk c0 i0" "amps_loop s c0 i0 = amps_loop s c k"
      "near s k (chr CHR '';'' # ?v)" "i \<le> k" "sh_res s c = l"
    using assms(1) n'(2) symbol_ends(3) unfolding reads_amp_def by blast
  obtain j where j: "amps_loop s c k = (c, j)" "near s j (chr CHR '';'' # ?v)" "k \<le> j"
    using amps_end [OF k(3) ends(2) [OF symbol_ends(3)], of c] by auto
  have b: "sym (chr CHR '';'')" "chr CHR '';'' \<in> set (bytes '';'')" "chr CHR '';'' \<in> set (bytes ''|();&<'')"
    by (simp_all add: symbols_def bytes_def)
  obtain j2 q eq x where x: "peek s j (bytes '';'') = (j2, True)" "gettoken s j2 = (chr CHR '';'', q, eq, x)" "near s x ?v" "j < x" "x \<le> length s"
    using peek_symbol [OF j(2) b] by blast
  have "length s - x + 1 < n'" using n'(2) k j x by linarith
  then obtain d y where "parseline n' s x = POk d y" "near s y rest" "x \<le> y" "sh_res s d = r"
    using assms(2) x(3) e unfolding reads_line_def by blast
  then show "\<exists>c k. parseline n s i = POk c k \<and> near s k rest \<and> i \<le> k \<and> sh_res s c = SList l r"
    using n' k j x by auto
qed

lemma reads_up: "reads_exec t \<Longrightarrow> (\<And>lv. print_cmd t lv = print_cmd t ExecL) \<Longrightarrow> reads_exec t \<and> reads_pipe t \<and> reads_amp t \<and> reads_line t"
proof -
  assume e: "reads_exec t" and p: "\<And>lv. print_cmd t lv = print_cmd t ExecL"
  have pp: "reads_pipe t" by (rule exec_pipe [OF e]) (rule p)
  have a: "reads_amp t" by (rule pipe_amp [OF pp]) (metis p)
  have "reads_line t" by (rule amp_line [OF a]) (metis p)
  then show ?thesis using e pp a by blast
qed

lemma reads_all: "scmd_ok t \<Longrightarrow> reads_exec t \<and> reads_pipe t \<and> reads_amp t \<and> reads_line t"
proof (induction t)
  case (SExec as)
  show ?case by (rule reads_up [OF words_exec [OF SExec]]) simp
next
  case (SRedir c f mode fd)
  have "reads_exec (SRedir c f mode fd)" by (rule redir_exec) (use SRedir in auto)
  then show ?case by (rule reads_up) simp
next
  case (SPipe l r)
  have p: "reads_pipe (SPipe l r)" by (rule pipe_pipe) (use SPipe in auto)
  have a: "reads_amp (SPipe l r)" by (rule pipe_amp [OF p]) simp
  have l: "reads_line (SPipe l r)" by (rule amp_line [OF a]) simp
  have "reads_exec (SPipe l r)" by (rule line_exec [OF l]) simp
  then show ?case using p a l by blast
next
  case (SBack c)
  have a: "reads_amp (SBack c)" by (rule back_amp) (use SBack in auto)
  have l: "reads_line (SBack c)" by (rule amp_line [OF a]) simp
  have e: "reads_exec (SBack c)" by (rule line_exec [OF l]) simp
  have "reads_pipe (SBack c)" by (rule exec_pipe [OF e]) simp
  then show ?case using a l e by blast
next
  case (SList l r)
  have l: "reads_line (SList l r)" by (rule list_line) (use SList in auto)
  have e: "reads_exec (SList l r)" by (rule line_exec [OF l]) simp
  have p: "reads_pipe (SList l r)" by (rule exec_pipe [OF e]) simp
  have "reads_amp (SList l r)" by (rule pipe_amp [OF p]) simp
  then show ?case using l e p by blast
qed

lemma print_cmd_no_nul: "scmd_ok t \<Longrightarrow> 0 \<notin> set (print_cmd t lv)"
  by (induction t arbitrary: lv)
    (auto simp: print_words_def print_redir_def paren_def word_ok_def Let_def split: if_splits)

text \<open>
  C24. The shell reads back every command it can run: any tree of pipelines, lists, background commands, redirections and
  simple commands of at most nine words, printed with brackets where the grammar needs them and put in a buffer, is parsed
  by \<open>parsecmd\<close>, without an error and without a call to the kernel, into exactly that tree, with the strings that
  \<open>runcmd\<close> then finds in the buffer.
\<close>

theorem shell_roundtrip:
  assumes "scmd_ok t"
  shows "\<exists>c buf'. parsecmd (print_cmd t LineL @ 0 # pad) st = Done (c, buf') st \<and> resolve (\<lambda>t. cstr_at buf' (fst t)) c = t"
proof -
  let ?s = "print_cmd t LineL" and ?buf = "print_cmd t LineL @ 0 # pad"
  have s: "takeWhile (\<lambda>c. c \<noteq> 0) ?buf = ?s"
    using print_cmd_no_nul [OF assms, of LineL] by (subst takeWhile_append2) auto
  have "near ?s 0 (print_cmd t LineL @ [])" by (simp add: near_def)
  moreover have "line_end []" "length ?s - 0 + 1 < parse_fuel ?s" by (simp_all add: line_end_def parse_fuel_def)
  ultimately obtain c k where c: "parseline (parse_fuel ?s) ?s 0 = POk c k" "near ?s k []" "sh_res ?s c = t"
    using reads_all [OF assms] unfolding reads_line_def by blast
  have "drop (skip ws ?s k) ?s = []" using near_skip_drop [OF c(2)] by simp
  moreover have "skip ws ?s k \<le> length ?s" using c(2) by (auto simp: near_def intro: skip_le)
  ultimately have "fst (peek ?s k []) = length ?s" by (simp add: peek_def Let_def)
  then have p: "parsecmd ?buf st = Done (c, nulterminate c ?buf) st"
    unfolding parsecmd_def Let_def s using c(1) by (simp add: ret_def)
  have "good ?s 0 (cmd_ok ?s) (parseline (parse_fuel ?s) ?s 0)" by (rule parseline_good) (simp_all add: parse_fuel_def)
  then have "cmd_ok ?s c" using c(1) by simp
  then have "resolve (\<lambda>t. cstr_at (nulterminate c ?buf) (fst t)) c = t"
    using nulterminate_strings [of ?s c ?buf] s c(3) by simp
  then show ?thesis using p by blast
qed

text \<open>The command \<open>( ls| wc) >f\<close>, followed by \<open>; echo\<close>.\<close>

definition demo_scmd :: scmd where
  "demo_scmd = SList (SRedir (SPipe (SExec [bytes ''ls'']) (SExec [bytes ''wc''])) (bytes ''f'') (O_WRONLY_u + O_CREATE_u) 1) (SExec [bytes ''echo''])"

theorem shell_roundtrip_witness:
  "scmd_ok demo_scmd \<and> (\<exists>c buf'. parsecmd (bytes ''( ls| wc) >f; echo'' @ [0]) \<lparr>answers = [], calls = []\<rparr> = Done (c, buf') \<lparr>answers = [], calls = []\<rparr> \<and>
     resolve (\<lambda>t. cstr_at buf' (fst t)) c = demo_scmd)"
proof -
  have ok: "scmd_ok demo_scmd" by code_simp
  have "print_cmd demo_scmd LineL = bytes ''( ls| wc) >f; echo''" by code_simp
  then show ?thesis using shell_roundtrip [OF ok, of "[]" "\<lparr>answers = [], calls = []\<rparr>"] ok by simp
qed

end
