(* ===== verification/Spec2Isabelle.thy ===== *)
theory Spec2Isabelle
  imports Scheduling Drivers Descriptors Umalloc ShellSyntax
begin

text \<open>
  A model of the xv6 teaching operating system with virtual memory extensions (copy-on-write, lazy allocation, stack growth,
  swapping, shared memory), and theorems about it. All C files named below are in \<open>src/src\<close>.

  \<^bold>\<open>How C is represented.\<close> Unsigned integers are words of their width, so arithmetic wraps; signed ones are \<open>int\<close>, read
  with \<open>sint\<close> where they come from a word. A routine returns a \<open>res\<close> (\<open>Prelude\<close>): a result, a call of \<open>panic\<close>, undefined
  behaviour or a loop out of fuel (\<open>Fault\<close>), or going to sleep. The global variables of the kernel, the disk and the registers it uses
  are one record \<open>kernel\<close> (\<open>Kernel\<close>), passed and returned. Pointers into static tables are indices; pointers to pages are
  kernel addresses. The critical section of a lock is one step of the model; \<open>Lock\<close> models the locks themselves, action by
  action on several CPUs, and shows that they exclude each other.

  \<^bold>\<open>The parts, from the hardware up.\<close>

  \<^item> Memory. \<open>Mmu\<close>: the macros of \<open>mmu.h\<close>, \<open>memlayout.h\<close>. \<open>Kalloc\<close>: \<open>kalloc.c\<close>, with the free list in the free pages and
    the reference counts; its contract to the page tables is the locale \<open>page_allocator\<close>. \<open>PageTable\<close> and \<open>Copyout\<close>: the walk
    and mapping routines of \<open>vm.c\<close>, and the copying of bytes to user addresses. \<open>Vm\<close>: the rest of \<open>vm.c\<close> (growth, shrinking,
    eviction, page faults, copy-on-write).
    Shown: allocation and freeing on every branch; \<open>mappages\<close> maps its range or reports exhaustion, and nothing else;
    \<open>copyout\<close> changes exactly the bytes it is asked to; a guard page stays out of reach.
  \<^item> Paging tables. \<open>VirtualMemory\<close>: \<open>VirtualMemory.c\<close>, the list of resident pages and the swap table of a process.
    \<open>SharedMemory\<close>: \<open>SharedMemory.c\<close>. Shown: eviction is first in, first out; addresses put in the swap table are found
    again; the users counted by a shared page are the processes attached to it, in every order of calls; what is
    written to a shared page is read back.
  \<^item> Devices and strings. \<open>Ring\<close>: the contract of a ring buffer with wrapping counters (locale \<open>bounded_queue\<close>), which
    \<open>Pipe\<close> (\<open>pipe.c\<close>) implements. \<open>Console\<close>: \<open>console.c\<close>, \<open>kbd.c\<close>, \<open>uart.c\<close>. \<open>CString\<close>: \<open>string.c\<close> and
    \<open>ulib.c\<close>. Shown: a pipe delivers the bytes sent, in order, under any interleaving; the input buffer refines an
    abstract line editor; the number printer fits its buffer; the string routines are right, overlaps included.
  \<^item> Storage. \<open>Disk\<close>: \<open>ide.c\<close>, \<open>memide.c\<close>, \<open>bio.c\<close>. \<open>Log\<close>: \<open>log.c\<close>. \<open>Cache\<close>: the invariant of the buffer cache.
    \<open>Recovery\<close>: an abstract redo log (locale \<open>redo_log\<close>), interpreted on the blocks of the log. \<open>Transaction\<close>: sequences of
    operations, and crashes. \<open>Drivers\<close>: the two disk drivers compared. \<open>Codec\<close>: integers in blocks. Shown: a crash after
    any of the writes of a commit leaves all of the transaction or none of it; every sequence of operations keeps
    the invariant; both drivers do the same.
  \<^item> Files. \<open>Fs\<close>: \<open>fs.c\<close>. \<open>File\<close>: \<open>file.c\<close> and the pipes as files. \<open>Syscall\<close>: argument fetching of \<open>syscall.c\<close>.
    \<open>Sysfile\<close>: \<open>sysfile.c\<close> and the swap files. \<open>Descriptors\<close>: the reference count of a file is the number of
    descriptors and swap files that name it, kept by \<open>dup\<close> and by \<open>close\<close> of a shared file. Of \<open>fs.c\<close> and the other
    calls of \<open>sysfile.c\<close> only the definitions are here.
  \<^item> Processes. \<open>Proc\<close>: \<open>proc.c\<close>. \<open>Exec\<close>: \<open>exec.c\<close>, \<open>sysproc.c\<close>, the dispatcher of \<open>syscall.c\<close>, \<open>trap.c\<close>.
    \<open>Scheduling\<close>: no process that stays runnable is passed over for ever; what \<open>sbrk\<close> does to the size.
  \<^item> User programs. \<open>User\<close>: \<open>printf.c\<close>, \<open>cat.c\<close>, \<open>wc.c\<close>, \<open>echo.c\<close>, \<open>ln.c\<close>, \<open>rm.c\<close>, \<open>mkdir.c\<close>, \<open>kill.c\<close>, \<open>init.c\<close>, each run
    against any finite list of answers of the kernel. \<open>Grep\<close>: \<open>grep.c\<close>. \<open>Umalloc\<close>: \<open>umalloc.c\<close>, with \<open>sbrk\<close> as a
    parameter. \<open>Shell\<close>, \<open>ShellSyntax\<close>: \<open>sh.c\<close>. Shown: \<open>wc\<close> counts what it reads; the matcher of \<open>grep\<close> accepts the
    language of its pattern, and \<open>grep\<close> prints the matching lines of the reads that bring a newline; \<open>malloc\<close> and \<open>free\<close> return, and never hand out memory
    twice or lose it; the shell's parser ends on every line and reads back every printed command.

  \<^bold>\<open>Errors the model shows.\<close> Some theorems state what the code does where that is not what it is meant to do: a page freed
  once is not reused (\<open>kalloc.c\<close>), unlinking the oldest page leaves a stale tail (\<open>VirtualMemory.c\<close>), releasing the
  signature 0 panics (\<open>SharedMemory.c\<close>), \<open>grep\<close> drops a read without a newline and the line begun before it, \<open>atoi\<close> overflows on the 48 largest numbers, \<open>sbrk\<close> adds its argument twice.

  \<^bold>\<open>Fuel.\<close> Loops over pages have the number of pages of the range and one for the final test (\<open>page_fuel\<close>); for
  \<open>mappages\<close> it is proved that this is enough, whatever the tables hold, and \<open>freerange\<close> is proved to end. Loops over a
  directory have its number of entries (\<open>dir_fuel\<close>), loops over a path its length. The loop of a user program has one turn
  more than there are answers; it is proved enough for loops that make a call in each turn. The parser of the shell
  has the length of the line plus two (\<open>parse_fuel\<close>), proved enough for every line. The loops of \<open>umalloc.c\<close> are partial
  functions, proved to return on every well-formed heap. Where it is not said to be proved, running out would show as
  a \<open>Fault\<close>, never as a result.

  \<^bold>\<open>Not modelled.\<close>
  \<^item> \<open>mp.c\<close>, \<open>lapic.c\<close>, \<open>ioapic.c\<close>, \<open>picirq.c\<close>, \<open>timer.c\<close>, \<open>uartinit\<close>, \<open>seginit\<close>, \<open>tvinit\<close>, \<open>idtinit\<close>: they program device
    and processor registers. Of what they set, the modelled code uses the number of the CPU, a field of the state.
  \<^item> \<open>bootmain.c\<close>, \<open>main.c\<close> and the assembly files: start-up, and the saving and restoring of registers. A context switch
    is where a model of a kernel thread ends (\<open>Proc\<close>).
  \<^item> The translation look-aside buffer, and page faults taken inside the kernel: an access of the kernel to a user page
    that is not present ends the model with a \<open>Fault\<close> (\<open>Syscall\<close>); the handler itself is modelled in \<open>Vm\<close>.
  \<^item> Two kernel threads in the middle of file system calls at the same time: a call runs up to where it sleeps. Locks,
    pipes, shared memory and transactions are treated as interleaved steps. So \<open>sched\<close> and \<open>sleep\<close> leave out the panics about
    locks that are not held and the hand-over of locks.
  \<^item> Errors of the drive on a write (a write always reaches the disk); heaps that are not aligned to 8 bytes (\<open>Umalloc\<close> counts in
    headers); file offsets in the swap table beyond \<open>2^31\<close>, which are unbounded numbers here.
  \<^item> \<open>mkfs.c\<close> and the scripts (host programs), \<open>ls.c\<close> (prints what \<open>stat\<close> returns), the test programs, \<open>stat\<close> of \<open>ulib.c\<close>,
    and the failure of \<open>malloc\<close> in the shell, which the code does not check either.
\<close>

end
